(* ===== verification/OB_Prelude.thy ===== *)
theory OB_Prelude
  imports Main "HOL-Library.Word" "HOL-Library.Monad_Syntax" "HOL-Library.Multiset"
begin

text \<open>
  Shared vocabulary of the development: the machine types of \<^verbatim>\<open>types.h\<close>, the ordered
  associative container (\<^verbatim>\<open>std::map\<close>) as a key-sorted association list, the relation
  that compares two such containers key by key, and the facts on 64-bit words and on the
  option monad that the component theories use.
\<close>

type_synonym u64 = "64 word"

named_theorems mem_simps \<open>unfolding rules of the memory level\<close>

section \<open>Ordered associative containers\<close>

text \<open>
  \<^verbatim>\<open>std::map<K, V, Compare>\<close> is a list of pairs sorted by the comparison \<open>lt\<close>;
  lookup is \<^const>\<open>map_of\<close>. \<open>map_put\<close> stores a value under a key (inserting it at its
  sorted place when the key is absent), \<open>map_erase\<close> removes a key.
\<close>

fun map_put :: "('k \<Rightarrow> 'k \<Rightarrow> bool) \<Rightarrow> 'k \<Rightarrow> 'v \<Rightarrow> ('k \<times> 'v) list \<Rightarrow> ('k \<times> 'v) list" where
  "map_put lt k v [] = [(k, v)]"
| "map_put lt k v ((k', v') # m) =
     (if lt k k' then (k, v) # (k', v') # m
      else if k = k' then (k, v) # m
      else (k', v') # map_put lt k v m)"

definition map_erase :: "'k \<Rightarrow> ('k \<times> 'v) list \<Rightarrow> ('k \<times> 'v) list" where
  "map_erase k m = filter (\<lambda>e. fst e \<noteq> k) m"

text \<open>Two containers with the same keys in the same order and related values.\<close>

definition rel_map ::
  "('k \<Rightarrow> 'v \<Rightarrow> 'w \<Rightarrow> bool) \<Rightarrow> ('k \<times> 'v) list \<Rightarrow> ('k \<times> 'w) list \<Rightarrow> bool" where
  "rel_map R m m' = list_all2 (\<lambda>x y. fst x = fst y \<and> R (fst x) (snd x) (snd y)) m m'"

lemma map_put_mem: "l \<in> set (map_put lt k v m) \<Longrightarrow> l = (k, v) \<or> l \<in> set m"
  by (induction lt k v m rule: map_put.induct) (auto split: if_splits)

text \<open>The requirement the standard puts on a \<^verbatim>\<open>Compare\<close> argument, and what it gives.\<close>

locale map_compare =
  fixes lt :: "'k \<Rightarrow> 'k \<Rightarrow> bool"
  assumes lt_irrefl: "\<not> lt x x"
    and lt_trans: "lt x y \<Longrightarrow> lt y z \<Longrightarrow> lt x z"
    and lt_total: "x \<noteq> y \<Longrightarrow> lt x y \<or> lt y x"
begin

lemma sorted_distinct: "sorted_wrt lt ks \<Longrightarrow> distinct ks"
  by (induction ks) (auto simp: lt_irrefl)

lemma sorted_map_distinct: "sorted_wrt lt (map fst m) \<Longrightarrow> distinct (map fst m)"
  by (rule sorted_distinct)

lemma keys_map_put: "set (map fst (map_put lt k v m)) = insert k (set (map fst m))"
  by (induction lt k v m rule: map_put.induct) (simp_all add: insert_commute)

lemma sorted_map_put:
  "sorted_wrt lt (map fst m) \<Longrightarrow> sorted_wrt lt (map fst (map_put lt k v m))"
proof (induction m)
  case (Cons e m)
  obtain k' v' where e: "e = (k', v')" by (cases e)
  note keys = keys_map_put [of k v m]
  show ?case
  proof (cases "lt k k' \<or> k = k'")
    case True
    with Cons.prems show ?thesis
      using lt_trans by (auto simp: e)
  next
    case False
    then have "lt k' k" using lt_total by blast
    with False Cons show ?thesis
      by (auto simp: e keys simp del: set_map)
  qed
qed simp

lemma map_of_put:
  "sorted_wrt lt (map fst m) \<Longrightarrow>
     map_of (map_put lt k v m) k' = (if k' = k then Some v else map_of m k')"
  by (induction m) (auto simp: lt_irrefl)

lemma map_of_mid:
  "sorted_wrt lt (map fst (m1 @ (k, v) # m2)) \<Longrightarrow> map_of (m1 @ (k, v) # m2) k = Some v"
  by (drule sorted_map_distinct) (simp del: map_of_append)

lemma map_put_mid:
  "sorted_wrt lt (map fst (m1 @ (k, v) # m2)) \<Longrightarrow>
     map_put lt k v' (m1 @ (k, v) # m2) = m1 @ (k, v') # m2"
proof (induction m1)
  case (Cons e m1)
  then have "lt (fst e) k" by simp
  then have "\<not> lt k (fst e)" "k \<noteq> fst e"
    using lt_trans lt_irrefl by blast+
  with Cons show ?case by (cases e) simp
qed (simp add: lt_irrefl)

lemma map_erase_mid:
  "sorted_wrt lt (map fst (m1 @ (k, v) # m2)) \<Longrightarrow> map_erase k (m1 @ (k, v) # m2) = m1 @ m2"
proof -
  assume s: "sorted_wrt lt (map fst (m1 @ (k, v) # m2))"
  from sorted_map_distinct [OF s] have "k \<notin> fst ` set m1" "k \<notin> fst ` set m2" by auto
  then have "filter (\<lambda>e. fst e \<noteq> k) m1 = m1" "filter (\<lambda>e. fst e \<noteq> k) m2 = m2"
    by (auto simp: filter_id_conv)
  then show "map_erase k (m1 @ (k, v) # m2) = m1 @ m2"
    by (simp add: map_erase_def)
qed

lemma sorted_map_erase:
  "sorted_wrt lt (map fst m) \<Longrightarrow> sorted_wrt lt (map fst (map_erase k m))"
  by (induction m) (auto simp: map_erase_def)

end

section \<open>Related containers\<close>

lemma rel_map_Nil [simp]: "rel_map R [] m' \<longleftrightarrow> m' = []" "rel_map R m [] \<longleftrightarrow> m = []"
  by (simp_all add: rel_map_def)

lemma rel_map_Cons [simp]:
  "rel_map R ((k, v) # m) ((k', v') # m') \<longleftrightarrow> k = k' \<and> R k v v' \<and> rel_map R m m'"
  by (simp add: rel_map_def)

lemma rel_map_keys: "rel_map R m m' \<Longrightarrow> map fst m = map fst m'"
  unfolding rel_map_def by (induction rule: list_all2_induct) auto

lemma rel_map_length: "rel_map R m m' \<Longrightarrow> length m = length m'"
  unfolding rel_map_def by (rule list_all2_lengthD)

lemma rel_map_append:
  assumes "length m1 = length m1'"
  shows "rel_map R (m1 @ m2) (m1' @ m2') \<longleftrightarrow> rel_map R m1 m1' \<and> rel_map R m2 m2'"
  using assms by (simp add: rel_map_def list_all2_append)

lemma rel_map_split_right:
  assumes "rel_map R m (m1' @ (k, v') # m2')"
  obtains m1 v m2 where "m = m1 @ (k, v) # m2"
    and "rel_map R m1 m1'" and "R k v v'" and "rel_map R m2 m2'"
proof -
  from assms obtain m1 mr where m: "m = m1 @ mr" and "length m1 = length m1'"
    and r1: "rel_map R m1 m1'" and rr: "rel_map R mr ((k, v') # m2')"
    unfolding rel_map_def list_all2_append2 by blast
  from rr obtain e m2 where "mr = e # m2" by (cases mr) auto
  with rr m r1 show thesis
    by (intro that [of m1 "snd e" m2]) (cases e, auto)+
qed

lemma rel_map_find_Some:
  assumes "rel_map R m m'" and "map_of m k = Some v"
  shows "\<exists>v'. map_of m' k = Some v' \<and> R k v v'"
  using assms unfolding rel_map_def
  by (induction rule: list_all2_induct) (auto split: if_splits)

lemma rel_map_find_None:
  assumes "rel_map R m m'"
  shows "map_of m k = None \<longleftrightarrow> map_of m' k = None"
  using rel_map_keys [OF assms] by (metis map_of_eq_None_iff list.set_map)

lemma rel_map_mono:
  assumes "rel_map R m m'"
    and "\<And>k v v'. (k, v) \<in> set m \<Longrightarrow> (k, v') \<in> set m' \<Longrightarrow> R k v v' \<Longrightarrow> S k v v'"
  shows "rel_map S m m'"
  using assms unfolding rel_map_def
  by (induction rule: list_all2_induct) auto

lemma rel_map_put:
  assumes "rel_map R m m'" and "R k v v'"
  shows "rel_map R (map_put lt k v m) (map_put lt k v' m')"
  using assms unfolding rel_map_def
  by (induction rule: list_all2_induct) auto

context map_compare
begin

lemma rel_map_put_upd:
  assumes "rel_map R m m'" and "sorted_wrt lt (map fst m')" and "S k v v'"
    and "\<And>k' w w'. (k', w') \<in> set m' \<Longrightarrow> k' \<noteq> k \<Longrightarrow> R k' w w' \<Longrightarrow> S k' w w'"
  shows "rel_map S (map_put lt k v m) (map_put lt k v' m')"
  using assms
proof (induction m' arbitrary: m)
  case (Cons e m')
  obtain k' w' where e: "e = (k', w')" by (cases e)
  with Cons.prems(1) obtain w m2 where m: "m = (k', w) # m2" and R: "R k' w w'" "rel_map R m2 m'"
    by (cases m) auto
  have later: "lt k' x" if "x \<in> fst ` set m'" for x using Cons.prems(2) that by (auto simp: e)
  have same: "rel_map S m2 m'" if "k \<notin> fst ` set m'"
    using R(2) by (rule rel_map_mono) (use that Cons.prems(4) e in force)
  consider "lt k k'" | "k = k'" | "\<not> lt k k'" "k \<noteq> k'" by blast
  then show ?case
  proof cases
    case 1
    then have "k \<notin> fst ` set m'" "k \<noteq> k'" using later lt_trans lt_irrefl by blast+
    with 1 same Cons.prems R show ?thesis by (auto simp: m e)
  next
    case 2
    then have "k \<notin> fst ` set m'" using later lt_irrefl by blast
    with 2 same Cons.prems(3) show ?thesis by (simp add: m e lt_irrefl)
  next
    case 3
    have "rel_map S (map_put lt k v m2) (map_put lt k v' m')"
      using Cons.prems R by (intro Cons.IH) (auto simp: e)
    with 3 Cons.prems(4) R(1) show ?thesis by (auto simp: m e)
  qed
qed simp

lemma map_put_new_split:
  "k \<notin> fst ` set m \<Longrightarrow> \<exists>m1 m2. m = m1 @ m2 \<and> map_put lt k v m = m1 @ (k, v) # m2"
proof (induction m)
  case (Cons e m)
  obtain k' v' where e: "e = (k', v')" by (cases e)
  show ?case
  proof (cases "lt k k'")
    case True
    then show ?thesis by (intro exI [of _ "[]"] exI [of _ "e # m"]) (simp add: e)
  next
    case False
    from Cons obtain m1 m2 where "m = m1 @ m2 \<and> map_put lt k v m = m1 @ (k, v) # m2" by auto
    with False Cons.prems have "e # m = (e # m1) @ m2 \<and> map_put lt k v (e # m) = (e # m1) @ (k, v) # m2"
      by (auto simp: e)
    then show ?thesis by blast
  qed
qed simp

end

section \<open>Machine words\<close>

lemma unat_min: "unat (min a b) = min (unat a) (unat b)" for a b :: "'a::len word"
  by (simp add: min_def word_le_nat_alt)

lemma unat_minus_le: "b \<le> a \<Longrightarrow> unat (a - b) = unat a - unat b" for a b :: "'a::len word"
  by (rule unat_sub)

lemma word_zero_or_pos: "0 < a \<longleftrightarrow> a \<noteq> 0" for a :: "'a::len word"
  by (rule word_neq_0_conv [symmetric])

lemma unat_pos_iff: "0 < unat a \<longleftrightarrow> a \<noteq> 0" for a :: "'a::len word"
  by (simp add: unat_gt_0)

lemma unat_u64_lt: "unat (a :: u64) < 2 ^ 64"
  using unsigned_less [of a] by simp

lemma unat_plus_no_wrap:
  "unat a + unat b < 2 ^ 64 \<Longrightarrow> unat (a + b) = unat a + unat b" for a b :: u64
  by (simp add: unat_word_ariths)

lemma unat_mult_no_wrap:
  "unat a * unat b < 2 ^ 64 \<Longrightarrow> unat (a * b) = unat a * unat b" for a b :: u64
  by (simp add: unat_word_ariths)

lemma unat_mult_le: "unat (a * b) \<le> unat a * unat b" for a b :: "'a::len word"
  by (simp add: unat_word_ariths)

lemma unat_sum_list_mod:
  "unat (sum_list qs) = sum_list (map unat qs) mod 2 ^ 64" for qs :: "u64 list"
  by (induction qs) (simp_all add: unat_word_ariths mod_add_right_eq)

lemma unat_sum_list:
  "sum_list (map unat qs) < 2 ^ 64 \<Longrightarrow> unat (sum_list qs) = sum_list (map unat qs)"
  for qs :: "u64 list"
  by (simp add: unat_sum_list_mod)

section \<open>Lists\<close>

lemma sum_list_mem_le: "x \<in> set xs \<Longrightarrow> f x \<le> sum_list (map f xs)" for f :: "'a \<Rightarrow> nat"
  by (induction xs) auto

lemma split_of_mem: "x \<in> set xs \<Longrightarrow> \<exists>ys zs. xs = ys @ x # zs"
  by (rule split_list)

end
