(* ===== verification/OB_Types.thy ===== *)
theory OB_Types
  imports OB_Prelude
begin

text \<open>
  The plain data of the engine: \<^verbatim>\<open>src/core/types.h\<close>, \<^verbatim>\<open>src/core/order.h\<close> and
  \<^verbatim>\<open>src/core/events.h\<close>.

  Unsigned 64-bit aliases are \<^typ>\<open>u64\<close>, so their arithmetic wraps as in the code.
  \<^verbatim>\<open>Price\<close> is only compared, stored and printed, never added to, and every price
  enters through a range-checked conversion; it is an \<^typ>\<open>int\<close>. \<^verbatim>\<open>Side\<close> is an
  enumeration over \<^verbatim>\<open>char\<close> that the server fills by a cast from an arbitrary byte, so
  it is that byte.
\<close>

type_synonym OrderId = u64
type_synonym Quantity = u64
type_synonym Price = int
type_synonym SeqNum = u64
type_synonym SessionId = u64
type_synonym Timestamp = u64

type_synonym Side = char

definition Buy :: Side where
  "Buy = CHR ''1''"

definition Sell :: Side where
  "Sell = CHR ''2''"

datatype OrdType = Limit

datatype MatchAlgo = ProRata | Fifo

record ClOrdID =
  clord_value :: string

text \<open>
  An order is a node of an intrusive doubly linked list. Pointers are \<^typ>\<open>nat option\<close>
  with \<^const>\<open>None\<close> for the null pointer, and the memory the orders live in is a partial
  function: an address outside its domain is not allocated (never, or no longer).
\<close>

type_synonym addr = nat

record Order =
  order_id :: OrderId
  session :: SessionId
  clord_id :: ClOrdID
  side :: Side
  ord_type :: OrdType
  price :: Price
  orig_qty :: Quantity
  leaves_qty :: Quantity
  ts :: Timestamp
  prv :: "addr option"
  nxt :: "addr option"

type_synonym heap = "addr \<rightharpoonup> Order"

definition cum_filled :: "Order \<Rightarrow> Quantity" where
  "cum_filled o' = orig_qty o' - leaves_qty o'"

record Trade =
  aggressor_id :: OrderId
  resting_id :: OrderId
  aggressor_clord :: ClOrdID
  resting_clord :: ClOrdID
  trade_price :: Price
  trade_qty :: Quantity
  aggressor_side :: Side

record Ack =
  ack_id :: OrderId
  ack_clord_id :: ClOrdID

record OrdReject =
  rej_clord_id :: ClOrdID
  rej_reason :: string

record CancelAck =
  ca_id :: OrderId
  ca_clord_id :: ClOrdID
  ca_orig_clord_id :: ClOrdID

record ReplaceAck =
  ra_id :: OrderId
  ra_clord_id :: ClOrdID
  ra_orig_clord_id :: ClOrdID
  ra_new_qty :: Quantity
  ra_new_price :: Price

datatype Event =
    TradeEv Trade
  | AckEv Ack
  | OrdRejectEv OrdReject
  | CancelAckEv CancelAck
  | ReplaceAckEv ReplaceAck

type_synonym EventList = "Event list"

text \<open>An order without its list pointers: what the rest of the engine sees of it.\<close>

definition payload :: "Order \<Rightarrow> Order" where
  "payload o' = o'\<lparr>prv := None, nxt := None\<rparr>"

lemma payload_fields [simp]:
  "order_id (payload v) = order_id v" "session (payload v) = session v"
  "clord_id (payload v) = clord_id v" "side (payload v) = side v"
  "price (payload v) = price v" "orig_qty (payload v) = orig_qty v"
  "leaves_qty (payload v) = leaves_qty v" "ts (payload v) = ts v"
  "ord_type (payload v) = ord_type v" "prv (payload v) = None" "nxt (payload v) = None"
  by (simp_all add: payload_def)

lemma payload_links [simp]:
  "payload (v\<lparr>prv := p\<rparr>) = payload v" "payload (v\<lparr>nxt := p\<rparr>) = payload v"
  "payload (payload v) = payload v"
  by (simp_all add: payload_def)

lemma payload_leaves [simp]:
  "payload (v\<lparr>leaves_qty := q\<rparr>) = (payload v)\<lparr>leaves_qty := q\<rparr>"
  by (simp add: payload_def)

text \<open>Equal payloads agree on every field but the list pointers.\<close>

lemma payload_eqD:
  assumes "payload v = payload w"
  shows "order_id v = order_id w" "session v = session w" "clord_id v = clord_id w"
    "side v = side w" "price v = price w" "orig_qty v = orig_qty w"
    "leaves_qty v = leaves_qty w"
  using assms by (metis payload_fields)+

end
