(* ===== verification/OB_Price_Level.thy ===== *)
theory OB_Price_Level
  imports OB_Types
begin

text \<open>
  \<^verbatim>\<open>src/core/price_level.h\<close>: the time-ordered queue of one price, an intrusive doubly
  linked list through the orders themselves with a cached count and total quantity.

  Every operation reads and writes the shared memory explicitly. A result of
  \<^const>\<open>None\<close> means that the code dereferences a null or unallocated pointer.
  \<open>level_rep\<close> ties a level and a memory to the sequence of orders it holds, and the
  lemmas show that \<open>push_back\<close> appends to that sequence and \<open>unlink\<close> removes from it,
  keeping both caches exact and touching nothing outside the level.
\<close>

record PriceLevel =
  head :: "addr option"
  tail :: "addr option"
  count :: u64
  total_qty :: Quantity

definition new_level :: PriceLevel where
  "new_level = \<lparr>head = None, tail = None, count = 0, total_qty = 0\<rparr>"

definition level_empty :: "PriceLevel \<Rightarrow> bool" where
  "level_empty L = (head L = None)"

definition push_back :: "heap \<Rightarrow> PriceLevel \<Rightarrow> addr \<Rightarrow> (heap \<times> PriceLevel) option" where
  "push_back h L a = do {
     v \<leftarrow> h a;
     let h = h(a \<mapsto> v\<lparr>prv := tail L, nxt := None\<rparr>);
     (h, L) \<leftarrow> (case tail L of
        Some t \<Rightarrow> do { w \<leftarrow> h t; Some (h(t \<mapsto> w\<lparr>nxt := Some a\<rparr>), L) }
      | None \<Rightarrow> Some (h, L\<lparr>head := Some a\<rparr>));
     let L = L\<lparr>tail := Some a\<rparr>;
     let L = L\<lparr>count := count L + 1\<rparr>;
     v \<leftarrow> h a;
     Some (h, L\<lparr>total_qty := total_qty L + leaves_qty v\<rparr>)
   }"

definition unlink :: "heap \<Rightarrow> PriceLevel \<Rightarrow> addr \<Rightarrow> (heap \<times> PriceLevel) option" where
  "unlink h L a = do {
     v \<leftarrow> h a;
     (h, L) \<leftarrow> (case prv v of
        Some p \<Rightarrow> do { w \<leftarrow> h p; Some (h(p \<mapsto> w\<lparr>nxt := nxt v\<rparr>), L) }
      | None \<Rightarrow> Some (h, L\<lparr>head := nxt v\<rparr>));
     v \<leftarrow> h a;
     (h, L) \<leftarrow> (case nxt v of
        Some n \<Rightarrow> do { w \<leftarrow> h n; Some (h(n \<mapsto> w\<lparr>prv := prv v\<rparr>), L) }
      | None \<Rightarrow> Some (h, L\<lparr>tail := prv v\<rparr>));
     v \<leftarrow> h a;
     let h = h(a \<mapsto> v\<lparr>prv := None, nxt := None\<rparr>);
     let L = L\<lparr>count := count L - 1\<rparr>;
     Some (h, L\<lparr>total_qty := total_qty L - leaves_qty v\<rparr>)
   }"

text \<open>
  The cached total is adjusted through signed 64-bit arithmetic; both casts keep the bits,
  so the sum is the word sum. \<open>note_qty_delta_overflows\<close> is the condition under which the
  signed addition leaves the range of \<^verbatim>\<open>std::int64_t\<close>.
\<close>

definition note_qty_delta :: "PriceLevel \<Rightarrow> u64 \<Rightarrow> PriceLevel" where
  "note_qty_delta L delta = L\<lparr>total_qty := total_qty L + delta\<rparr>"

definition note_qty_delta_overflows :: "PriceLevel \<Rightarrow> u64 \<Rightarrow> bool" where
  "note_qty_delta_overflows L delta =
     (sint (total_qty L) + sint delta \<noteq> sint (total_qty L + delta))"

section \<open>The sequence a level represents\<close>

text \<open>
  A segment of the list: starting from pointer \<open>p\<close> with predecessor \<open>pr\<close>, the nodes
  \<open>xs\<close> (address and payload) follow each other; \<open>ls\<close> is the last node (or \<open>pr\<close>) and
  \<open>nx\<close> what the last node points to.
\<close>

type_synonym entry = "addr \<times> Order"

primrec lseg ::
  "heap \<Rightarrow> addr option \<Rightarrow> addr option \<Rightarrow> entry list \<Rightarrow> addr option \<Rightarrow> addr option \<Rightarrow> bool"
where
  "lseg h pr p [] ls nx = (p = nx \<and> pr = ls)"
| "lseg h pr p (e # xs) ls nx =
     (p = Some (fst e) \<and>
      (\<exists>v. h (fst e) = Some v \<and> payload v = snd e \<and> prv v = pr \<and>
           lseg h (Some (fst e)) (nxt v) xs ls nx))"

definition level_rep :: "heap \<Rightarrow> PriceLevel \<Rightarrow> entry list \<Rightarrow> bool" where
  "level_rep h L xs \<longleftrightarrow>
     lseg h None (head L) xs (tail L) None \<and>
     distinct (map fst xs) \<and>
     count L = of_nat (length xs) \<and>
     total_qty L = (\<Sum>e\<leftarrow>xs. leaves_qty (snd e))"

lemma lseg_append:
  "lseg h pr p (xs @ ys) ls nx \<longleftrightarrow>
     (\<exists>m q. lseg h pr p xs m q \<and> lseg h m q ys ls nx)"
  by (induction xs arbitrary: pr p) auto

lemma lseg_frame:
  "lseg h pr p xs ls nx \<Longrightarrow> (\<And>a. a \<in> fst ` set xs \<Longrightarrow> h' a = h a) \<Longrightarrow>
     lseg h' pr p xs ls nx"
  by (induction xs arbitrary: pr p) auto

lemma lseg_upd_other [simp]:
  "a \<notin> fst ` set xs \<Longrightarrow> lseg (h(a := w)) pr p xs ls nx = lseg h pr p xs ls nx"
  by (induction xs arbitrary: pr p) auto

lemma lseg_mem:
  "lseg h pr p xs ls nx \<Longrightarrow> (a, v) \<in> set xs \<Longrightarrow> \<exists>w. h a = Some w \<and> payload w = v"
  by (induction xs arbitrary: pr p) auto

lemma lseg_payload:
  "lseg h pr p xs ls nx \<Longrightarrow> (a, v) \<in> set xs \<Longrightarrow> payload v = v"
  by (auto dest: lseg_mem)

lemma level_rep_frame:
  "level_rep h L xs \<Longrightarrow> (\<And>a. a \<in> fst ` set xs \<Longrightarrow> h' a = h a) \<Longrightarrow> level_rep h' L xs"
  unfolding level_rep_def using lseg_frame by metis

lemma level_rep_mem:
  "level_rep h L xs \<Longrightarrow> (a, v) \<in> set xs \<Longrightarrow> \<exists>w. h a = Some w \<and> payload w = v"
  unfolding level_rep_def using lseg_mem by metis

lemma level_rep_new: "level_rep h new_level []"
  by (simp add: level_rep_def new_level_def)

lemma level_rep_empty: "level_rep h L xs \<Longrightarrow> level_empty L \<longleftrightarrow> xs = []"
  by (cases xs) (auto simp: level_rep_def level_empty_def)

text \<open>Redirecting the last node's successor and the first node's predecessor.\<close>

lemma lseg_relink_last:
  assumes "lseg h pr p (xs @ [(t, v)]) ls nx" and "t \<notin> fst ` set xs" and "h t = Some w"
  shows "lseg (h(t \<mapsto> w\<lparr>nxt := nx'\<rparr>)) pr p (xs @ [(t, v)]) ls nx'"
  using assms
proof (induction xs arbitrary: pr p)
  case (Cons e xs)
  then show ?case by (auto simp: fun_upd_apply)
qed auto

lemma lseg_relink_first:
  assumes "lseg h pr p ((f, v) # ys) ls nx" and "f \<notin> fst ` set ys" and "h f = Some w"
  shows "lseg (h(f \<mapsto> w\<lparr>prv := pr'\<rparr>)) pr' p ((f, v) # ys) ls nx"
  using assms by auto

section \<open>Appending\<close>

lemma lseg_last:
  "lseg h pr p (xs @ [(t, v)]) ls nx \<Longrightarrow> ls = Some t"
  by (auto simp: lseg_append)

lemma push_back_rep:
  assumes rep: "level_rep h L xs" and a: "h a = Some v" and fresh: "a \<notin> fst ` set xs"
  shows "\<exists>h' L'. push_back h L a = Some (h', L') \<and>
     level_rep h' L' (xs @ [(a, payload v)]) \<and>
     (\<forall>b. b \<noteq> a \<longrightarrow> b \<notin> fst ` set xs \<longrightarrow> h' b = h b) \<and> dom h' = dom h"
proof (cases xs rule: rev_cases)
  case Nil
  with rep a show ?thesis
    by (auto simp: level_rep_def push_back_def)
next
  case (snoc ys e)
  obtain t w where e: "e = (t, w)" by (cases e)
  from rep have seg: "lseg h None (head L) (ys @ [(t, w)]) (tail L) None"
    and dist: "distinct (map fst (ys @ [(t, w)]))"
    by (simp_all add: level_rep_def snoc e)
  have tl: "tail L = Some t" using seg by (rule lseg_last)
  have ta: "t \<noteq> a" "a \<notin> fst ` set ys" using fresh by (auto simp: snoc e)
  have "(t, w) \<in> set (ys @ [(t, w)])" by simp
  from lseg_mem [OF seg this] obtain u where t: "h t = Some u" by blast
  define h1 where "h1 = h(a \<mapsto> v\<lparr>prv := Some t, nxt := None\<rparr>)"
  define h' where "h' = h1(t \<mapsto> u\<lparr>nxt := Some a\<rparr>)"
  define L' where "L' = L\<lparr>tail := Some a, count := count L + 1,
       total_qty := total_qty L + leaves_qty v\<rparr>"
  have "lseg h1 None (head L) (ys @ [(t, w)]) (tail L) None"
    using seg ta by (simp add: h1_def)
  then have "lseg h' None (head L) (ys @ [(t, w)]) (tail L) (Some a)"
    unfolding h'_def using dist t ta by (intro lseg_relink_last) (auto simp: h1_def)
  then have "lseg h' None (head L) ((ys @ [(t, w)]) @ [(a, payload v)]) (Some a) None"
    using ta unfolding lseg_append tl by (auto simp: h'_def h1_def)
  moreover have "push_back h L a = Some (h', L')"
    using a t ta by (simp add: push_back_def tl h'_def h1_def L'_def)
  ultimately show ?thesis
    using rep fresh a t by (auto simp: level_rep_def snoc e L'_def h'_def h1_def)
qed

section \<open>Removing\<close>

text \<open>The two pointer writes that bypass a node, each on one side of it.\<close>

lemma bypass_left:
  assumes seg: "lseg h None (head L) xs m q" and dist: "distinct (map fst xs)"
  shows "\<exists>h1 L1.
     (case m of
        Some p \<Rightarrow> do { w \<leftarrow> h p; Some (h(p \<mapsto> w\<lparr>nxt := q'\<rparr>), L) }
      | None \<Rightarrow> Some (h, L\<lparr>head := q'\<rparr>)) = Some (h1, L1) \<and>
     lseg h1 None (head L1) xs m q' \<and> (\<forall>b. b \<notin> fst ` set xs \<longrightarrow> h1 b = h b) \<and>
     dom h1 = dom h \<and> tail L1 = tail L \<and> count L1 = count L \<and> total_qty L1 = total_qty L"
proof (cases xs rule: rev_cases)
  case Nil
  with seg show ?thesis by auto
next
  case (snoc ys e)
  obtain t v where e: "e = (t, v)" by (cases e)
  have m: "m = Some t" using seg lseg_last unfolding snoc e by blast
  have "(t, v) \<in> set xs" by (simp add: snoc e)
  from lseg_mem [OF seg this] obtain w where w: "h t = Some w" by blast
  have "lseg (h(t \<mapsto> w\<lparr>nxt := q'\<rparr>)) None (head L) xs m q'"
    using seg dist w unfolding snoc e by (intro lseg_relink_last) auto
  with m w show ?thesis by (auto simp: snoc e)
qed

lemma bypass_right:
  assumes seg: "lseg h pr n ys (tail L) None" and dist: "distinct (map fst ys)"
  shows "\<exists>h1 L1.
     (case n of
        Some f \<Rightarrow> do { w \<leftarrow> h f; Some (h(f \<mapsto> w\<lparr>prv := pr'\<rparr>), L) }
      | None \<Rightarrow> Some (h, L\<lparr>tail := pr'\<rparr>)) = Some (h1, L1) \<and>
     lseg h1 pr' n ys (tail L1) None \<and> (\<forall>b. b \<notin> fst ` set ys \<longrightarrow> h1 b = h b) \<and>
     dom h1 = dom h \<and> head L1 = head L \<and> count L1 = count L \<and> total_qty L1 = total_qty L"
proof (cases ys)
  case Nil
  with seg show ?thesis by auto
next
  case (Cons e zs)
  obtain f v where e: "e = (f, v)" by (cases e)
  from seg obtain w where n: "n = Some f" and w: "h f = Some w" by (auto simp: Cons e)
  have "lseg (h(f \<mapsto> w\<lparr>prv := pr'\<rparr>)) pr' n ys (tail L) None"
    using seg dist w unfolding Cons e by (intro lseg_relink_first) auto
  with n w show ?thesis by (auto simp: Cons e)
qed

lemma unlink_rep:
  assumes rep: "level_rep h L (xs @ (a, v) # ys)"
  shows "\<exists>h' L' w. unlink h L a = Some (h', L') \<and> level_rep h' L' (xs @ ys) \<and>
     h' a = Some w \<and> payload w = v \<and>
     (\<forall>b. b \<notin> fst ` set (xs @ (a, v) # ys) \<longrightarrow> h' b = h b) \<and> dom h' = dom h"
proof -
  from rep obtain m u where left: "lseg h None (head L) xs m (Some a)"
    and u: "h a = Some u" "payload u = v" "prv u = m"
    and right: "lseg h (Some a) (nxt u) ys (tail L) None"
    by (auto simp: level_rep_def lseg_append)
  from rep have dist: "distinct (map fst xs)" "distinct (map fst ys)"
    and disj: "a \<notin> fst ` set xs" "a \<notin> fst ` set ys" "fst ` set xs \<inter> fst ` set ys = {}"
    by (auto simp: level_rep_def)
  from bypass_left [OF left dist(1), of "nxt u"] obtain h1 L1 where
    eq1: "(case m of
        Some p \<Rightarrow> do { w \<leftarrow> h p; Some (h(p \<mapsto> w\<lparr>nxt := nxt u\<rparr>), L) }
      | None \<Rightarrow> Some (h, L\<lparr>head := nxt u\<rparr>)) = Some (h1, L1)"
    and 1: "lseg h1 None (head L1) xs m (nxt u)" "\<forall>b. b \<notin> fst ` set xs \<longrightarrow> h1 b = h b"
      "dom h1 = dom h" "tail L1 = tail L" "count L1 = count L" "total_qty L1 = total_qty L"
    by blast
  have a1: "h1 a = Some u" using 1(2) disj u(1) by simp
  have "lseg h1 (Some a) (nxt u) ys (tail L1) None"
    unfolding 1(4) using right by (rule lseg_frame) (use 1(2) disj in blast)
  from bypass_right [OF this dist(2), of m] obtain h2 L2 where
    eq2: "(case nxt u of
        Some f \<Rightarrow> do { w \<leftarrow> h1 f; Some (h1(f \<mapsto> w\<lparr>prv := m\<rparr>), L1) }
      | None \<Rightarrow> Some (h1, L1\<lparr>tail := m\<rparr>)) = Some (h2, L2)"
    and 2: "lseg h2 m (nxt u) ys (tail L2) None" "\<forall>b. b \<notin> fst ` set ys \<longrightarrow> h2 b = h1 b"
      "dom h2 = dom h1" "head L2 = head L1" "count L2 = count L1" "total_qty L2 = total_qty L1"
    by blast
  have a2: "h2 a = Some u" using 2(2) disj a1 by simp
  have seg2: "lseg h2 None (head L2) xs m (nxt u)"
    unfolding 2(4) using 1(1) by (rule lseg_frame) (use 2(2) disj in blast)
  define h' where "h' = h2(a \<mapsto> u\<lparr>prv := None, nxt := None\<rparr>)"
  define L' where "L' = L2\<lparr>count := count L2 - 1, total_qty := total_qty L2 - leaves_qty u\<rparr>"
  have "unlink h L a = Some (h', L')"
    unfolding unlink_def by (simp only: u bind.simps eq1 a1 eq2 a2 Let_def prod.case h'_def L'_def)
      simp
  moreover have "lseg h' None (head L') (xs @ ys) (tail L') None"
    using seg2 2(1) disj unfolding lseg_append by (auto simp: h'_def L'_def)
  then have "level_rep h' L' (xs @ ys)"
    using rep u(2) 1(5,6) 2(5,6) by (auto simp: level_rep_def L'_def)
  moreover have "h' a = Some (u\<lparr>prv := None, nxt := None\<rparr>)"
    and "\<forall>b. b \<notin> fst ` set (xs @ (a, v) # ys) \<longrightarrow> h' b = h b" and "dom h' = dom h"
    using 1(2,3) 2(2,3) a2 u(1) by (auto simp: h'_def image_Un)
  ultimately show ?thesis using u(2) by auto
qed

section \<open>The queue interface\<close>

text \<open>
  What the order book relies on: a queue of orders in the shared memory, described by the
  sequence it holds, whose operations change no order outside the queue.
\<close>

locale order_queue =
  fixes rep :: "heap \<Rightarrow> 'q \<Rightarrow> entry list \<Rightarrow> bool"
    and new :: 'q
    and is_empty :: "'q \<Rightarrow> bool"
    and push :: "heap \<Rightarrow> 'q \<Rightarrow> addr \<Rightarrow> (heap \<times> 'q) option"
    and unl :: "heap \<Rightarrow> 'q \<Rightarrow> addr \<Rightarrow> (heap \<times> 'q) option"
  assumes rep_new: "rep h new []"
    and rep_empty: "rep h q xs \<Longrightarrow> is_empty q \<longleftrightarrow> xs = []"
    and rep_distinct: "rep h q xs \<Longrightarrow> distinct (map fst xs)"
    and rep_frame: "rep h q xs \<Longrightarrow> (\<And>a. a \<in> fst ` set xs \<Longrightarrow> h' a = h a) \<Longrightarrow> rep h' q xs"
    and rep_mem: "rep h q xs \<Longrightarrow> (a, v) \<in> set xs \<Longrightarrow> \<exists>w. h a = Some w \<and> payload w = v"
    and rep_push: "rep h q xs \<Longrightarrow> h a = Some v \<Longrightarrow> a \<notin> fst ` set xs \<Longrightarrow>
      \<exists>h' q'. push h q a = Some (h', q') \<and> rep h' q' (xs @ [(a, payload v)]) \<and>
        (\<forall>b. b \<noteq> a \<longrightarrow> b \<notin> fst ` set xs \<longrightarrow> h' b = h b) \<and> dom h' = dom h"
    and rep_unlink: "rep h q (xs @ (a, v) # ys) \<Longrightarrow>
      \<exists>h' q' w. unl h q a = Some (h', q') \<and> rep h' q' (xs @ ys) \<and>
        h' a = Some w \<and> payload w = v \<and>
        (\<forall>b. b \<notin> fst ` set (xs @ (a, v) # ys) \<longrightarrow> h' b = h b) \<and> dom h' = dom h"
begin

lemma rep_allocated: "rep h q xs \<Longrightarrow> fst ` set xs \<subseteq> dom h"
  using rep_mem by fastforce

lemma rep_payload: "rep h q xs \<Longrightarrow> (a, v) \<in> set xs \<Longrightarrow> payload v = v"
  using rep_mem by fastforce

lemma push_unlink:
  assumes "rep h q xs" and "h a = Some v" and "a \<notin> fst ` set xs"
  shows "\<exists>h1 q1 h2 q2. push h q a = Some (h1, q1) \<and> unl h1 q1 a = Some (h2, q2) \<and>
    rep h2 q2 xs \<and> (\<forall>b. b \<noteq> a \<longrightarrow> b \<notin> fst ` set xs \<longrightarrow> h2 b = h b)"
proof -
  from rep_push [OF assms] obtain h1 q1 where 1: "push h q a = Some (h1, q1)"
    "rep h1 q1 (xs @ [(a, payload v)])" "\<forall>b. b \<noteq> a \<longrightarrow> b \<notin> fst ` set xs \<longrightarrow> h1 b = h b"
    by blast
  from rep_unlink [of h1 q1 xs a "payload v" "[]"] 1(2) obtain h2 q2 where
    "unl h1 q1 a = Some (h2, q2)" "rep h2 q2 xs"
    "\<forall>b. b \<notin> fst ` set (xs @ [(a, payload v)]) \<longrightarrow> h2 b = h1 b"
    by auto
  with 1 show ?thesis by auto
qed

lemma unlink_oldest:
  assumes "rep h q ((a, v) # ys)"
  shows "\<exists>h' q'. unl h q a = Some (h', q') \<and> rep h' q' ys"
  using rep_unlink [of h q "[]" a v ys] assms by auto

end

interpretation pl: order_queue level_rep new_level level_empty push_back unlink
proof unfold_locales
  show "distinct (map fst xs)" if "level_rep h q xs" for h q xs
    using that by (simp add: level_rep_def)
qed (rule level_rep_new level_rep_empty level_rep_frame level_rep_mem push_back_rep unlink_rep;
     assumption?)+

end
