(* ===== verification/OB_Order_Book.thy ===== *)
theory OB_Order_Book
  imports OB_Price_Level
begin

text \<open>
  \<^verbatim>\<open>src/core/order_book.{h,cpp}\<close>: two ordered maps of price levels and the index that
  owns the orders.

  The orders live in the shared memory; the index maps a (session, ClOrdID) key to the
  address it owns, and erasing an entry frees that address. \<open>book_rep\<close> relates a memory
  and a book to an abstract book, the two sides as lists of (price, queue) in walking
  order; the lemmas show that each operation changes the abstract book as intended,
  touches no order outside the book, and never dereferences a freed pointer.
\<close>

type_synonym IndexKey = "SessionId \<times> string"

record OrderBook =
  symbol :: string
  bids :: "(Price \<times> PriceLevel) list"
  asks :: "(Price \<times> PriceLevel) list"
  index :: "IndexKey \<rightharpoonup> addr"

definition new_book :: "string \<Rightarrow> OrderBook" where
  "new_book sy = \<lparr>symbol = sy, bids = [], asks = [], index = Map.empty\<rparr>"

record CancelResult =
  ok :: bool
  reason :: string

definition index_key :: "Order \<Rightarrow> IndexKey" where
  "index_key v = (session v, clord_value (clord_id v))"

text \<open>\<^verbatim>\<open>std::map::operator[]\<close> default-constructs a missing level.\<close>

definition level_at :: "(Price \<times> PriceLevel) list \<Rightarrow> Price \<Rightarrow> PriceLevel" where
  "level_at m p = (case map_of m p of None \<Rightarrow> new_level | Some L \<Rightarrow> L)"

definition rest :: "heap \<Rightarrow> OrderBook \<Rightarrow> addr \<Rightarrow> (heap \<times> OrderBook) option" where
  "rest h b a = do {
     raw \<leftarrow> h a;
     (h, b) \<leftarrow>
       (if side raw = Buy then do {
          (h, L) \<leftarrow> push_back h (level_at (bids b) (price raw)) a;
          Some (h, b\<lparr>bids := map_put (>) (price raw) L (bids b)\<rparr>) }
        else do {
          (h, L) \<leftarrow> push_back h (level_at (asks b) (price raw)) a;
          Some (h, b\<lparr>asks := map_put (<) (price raw) L (asks b)\<rparr>) });
     raw \<leftarrow> h a;
     let k = index_key raw;
     (case index b k of
        None \<Rightarrow> Some (h, b\<lparr>index := (index b)(k \<mapsto> a)\<rparr>)
      | Some _ \<Rightarrow> Some (h(a := None), b))
   }"

definition find :: "OrderBook \<Rightarrow> SessionId \<Rightarrow> ClOrdID \<Rightarrow> addr option" where
  "find b s clord = index b (s, clord_value clord)"

text \<open>The level lookup and unlinking that \<^verbatim>\<open>cancel\<close> and \<^verbatim>\<open>remove\<close> share.\<close>

definition unlink_order :: "heap \<Rightarrow> OrderBook \<Rightarrow> addr \<Rightarrow> (heap \<times> OrderBook) option" where
  "unlink_order h b a = do {
     v \<leftarrow> h a;
     if side v = Buy then
       (case map_of (bids b) (price v) of
          None \<Rightarrow> Some (h, b)
        | Some L \<Rightarrow> do {
            (h, L) \<leftarrow> unlink h L a;
            Some (h, b\<lparr>bids := map_put (>) (price v) L (bids b)\<rparr>) })
     else
       (case map_of (asks b) (price v) of
          None \<Rightarrow> Some (h, b)
        | Some L \<Rightarrow> do {
            (h, L) \<leftarrow> unlink h L a;
            Some (h, b\<lparr>asks := map_put (<) (price v) L (asks b)\<rparr>) })
   }"

text \<open>Erasing an index entry destroys the order it owns.\<close>

definition erase_index :: "heap \<Rightarrow> OrderBook \<Rightarrow> IndexKey \<Rightarrow> heap \<times> OrderBook" where
  "erase_index h b k =
     (case index b k of
        None \<Rightarrow> (h, b)
      | Some p \<Rightarrow> (h(p := None), b\<lparr>index := (index b)(k := None)\<rparr>))"

definition cancel ::
  "heap \<Rightarrow> OrderBook \<Rightarrow> SessionId \<Rightarrow> ClOrdID \<Rightarrow> ((heap \<times> OrderBook) \<times> CancelResult) option"
where
  "cancel h b s clord =
     (let k = (s, clord_value clord) in
      case index b k of
        None \<Rightarrow> Some ((h, b), \<lparr>ok = False, reason = ''unknown order''\<rparr>)
      | Some a \<Rightarrow> do {
          (h, b) \<leftarrow> unlink_order h b a;
          Some (erase_index h b k, \<lparr>ok = True, reason = ''''\<rparr>) })"

definition remove :: "heap \<Rightarrow> OrderBook \<Rightarrow> addr \<Rightarrow> (heap \<times> OrderBook) option" where
  "remove h b a = do {
     (h, b) \<leftarrow> unlink_order h b a;
     v \<leftarrow> h a;
     Some (erase_index h b (index_key v))
   }"

fun first_nonempty :: "(Price \<times> PriceLevel) list \<Rightarrow> Price option" where
  "first_nonempty [] = None"
| "first_nonempty ((p, lvl) # m) =
     (if \<not> level_empty lvl then Some p else first_nonempty m)"

definition best_bid :: "OrderBook \<Rightarrow> Price option" where
  "best_bid b = first_nonempty (bids b)"

definition best_ask :: "OrderBook \<Rightarrow> Price option" where
  "best_ask b = first_nonempty (asks b)"

definition bid_level :: "OrderBook \<Rightarrow> Price \<Rightarrow> PriceLevel option" where
  "bid_level b p = map_of (bids b) p"

definition ask_level :: "OrderBook \<Rightarrow> Price \<Rightarrow> PriceLevel option" where
  "ask_level b p = map_of (asks b) p"

section \<open>Sides and walks\<close>

text \<open>
  The two maps differ only in their comparison. \<open>BookSide\<close> names a side, so that one
  definition serves \<^verbatim>\<open>walk_bids\<close> and \<^verbatim>\<open>walk_asks\<close> and one proof both maps.
\<close>

datatype BookSide = Bids | Asks

fun levels :: "BookSide \<Rightarrow> OrderBook \<Rightarrow> (Price \<times> PriceLevel) list" where
  "levels Bids b = bids b"
| "levels Asks b = asks b"

fun set_levels :: "BookSide \<Rightarrow> (Price \<times> PriceLevel) list \<Rightarrow> OrderBook \<Rightarrow> OrderBook" where
  "set_levels Bids m b = b\<lparr>bids := m\<rparr>"
| "set_levels Asks m b = b\<lparr>asks := m\<rparr>"

fun price_before :: "BookSide \<Rightarrow> Price \<Rightarrow> Price \<Rightarrow> bool" where
  "price_before Bids p q = (p > q)"
| "price_before Asks p q = (p < q)"

definition own_side :: "Order \<Rightarrow> BookSide" where
  "own_side v = (if side v = Buy then Bids else Asks)"

definition put_level :: "BookSide \<Rightarrow> Price \<Rightarrow> PriceLevel \<Rightarrow> OrderBook \<Rightarrow> OrderBook" where
  "put_level sd p L b = set_levels sd (map_put (price_before sd) p L (levels sd b)) b"

definition drop_level :: "BookSide \<Rightarrow> Price \<Rightarrow> OrderBook \<Rightarrow> OrderBook" where
  "drop_level sd p b = set_levels sd (map_erase p (levels sd b)) b"

text \<open>
  A walk visits the levels from the best price on. The callback gets the price of the
  level and the whole state, since the levels it is given are part of the book it may
  change; it never adds or removes a level itself, so the prices still to visit are fixed
  when the walk starts. A level that is empty, before or after the callback, is erased;
  a callback that returns false ends the walk at once.
\<close>

type_synonym 'x bstate = "heap \<times> OrderBook \<times> 'x"

fun walk_from ::
  "BookSide \<Rightarrow> (Price \<Rightarrow> 'x bstate \<Rightarrow> (bool \<times> 'x bstate) option) \<Rightarrow> Price list \<Rightarrow>
   'x bstate \<Rightarrow> 'x bstate option"
where
  "walk_from sd fn [] s = Some s"
| "walk_from sd fn (p # ps) (h, b, x) = do {
     L \<leftarrow> map_of (levels sd b) p;
     if level_empty L then walk_from sd fn ps (h, drop_level sd p b, x)
     else do {
       (go, (h, b, x)) \<leftarrow> fn p (h, b, x);
       if \<not> go then Some (h, b, x)
       else do {
         L \<leftarrow> map_of (levels sd b) p;
         if level_empty L then walk_from sd fn ps (h, drop_level sd p b, x)
         else walk_from sd fn ps (h, b, x) } } }"

definition walk ::
  "BookSide \<Rightarrow> (Price \<Rightarrow> 'x bstate \<Rightarrow> (bool \<times> 'x bstate) option) \<Rightarrow>
   'x bstate \<Rightarrow> 'x bstate option"
where
  "walk sd fn s = walk_from sd fn (map fst (levels sd (fst (snd s)))) s"

definition walk_bids ::
  "(Price \<Rightarrow> 'x bstate \<Rightarrow> (bool \<times> 'x bstate) option) \<Rightarrow> 'x bstate \<Rightarrow> 'x bstate option"
where
  "walk_bids fn s = walk Bids fn s"

definition walk_asks ::
  "(Price \<Rightarrow> 'x bstate \<Rightarrow> (bool \<times> 'x bstate) option) \<Rightarrow> 'x bstate \<Rightarrow> 'x bstate option"
where
  "walk_asks fn s = walk Asks fn s"

section \<open>The abstract book\<close>

type_synonym abook = "BookSide \<Rightarrow> (Price \<times> entry list) list"

definition side_entries :: "abook \<Rightarrow> BookSide \<Rightarrow> entry list" where
  "side_entries A sd = concat (map snd (A sd))"

definition book_entries :: "abook \<Rightarrow> entry list" where
  "book_entries A = side_entries A Bids @ side_entries A Asks"

definition queue_at :: "abook \<Rightarrow> BookSide \<Rightarrow> Price \<Rightarrow> entry list" where
  "queue_at A sd p = (case map_of (A sd) p of None \<Rightarrow> [] | Some xs \<Rightarrow> xs)"

definition abook_wf :: "abook \<Rightarrow> bool" where
  "abook_wf A \<longleftrightarrow>
     (\<forall>sd. sorted_wrt (price_before sd) (map fst (A sd))) \<and>
     distinct (map fst (book_entries A)) \<and>
     (\<forall>sd p xs e. (p, xs) \<in> set (A sd) \<longrightarrow> e \<in> set xs \<longrightarrow>
        price (snd e) = p \<and> own_side (snd e) = sd)"

definition levels_rep :: "heap \<Rightarrow> OrderBook \<Rightarrow> abook \<Rightarrow> bool" where
  "levels_rep h b A \<longleftrightarrow> (\<forall>sd. rel_map (\<lambda>p. level_rep h) (levels sd b) (A sd))"

definition index_rep :: "(IndexKey \<rightharpoonup> addr) \<Rightarrow> entry list \<Rightarrow> bool" where
  "index_rep ix es \<longleftrightarrow>
     (\<forall>k a. ix k = Some a \<longleftrightarrow> (\<exists>v. (a, v) \<in> set es \<and> index_key v = k))"

definition book_rep :: "heap \<Rightarrow> OrderBook \<Rightarrow> abook \<Rightarrow> bool" where
  "book_rep h b A \<longleftrightarrow> levels_rep h b A \<and> abook_wf A \<and> index_rep (index b) (book_entries A)"

definition put_queue :: "BookSide \<Rightarrow> Price \<Rightarrow> entry list \<Rightarrow> abook \<Rightarrow> abook" where
  "put_queue sd p xs A = A(sd := map_put (price_before sd) p xs (A sd))"

definition abs_rest :: "addr \<Rightarrow> Order \<Rightarrow> abook \<Rightarrow> abook" where
  "abs_rest a v A =
     put_queue (own_side v) (price v) (queue_at A (own_side v) (price v) @ [(a, v)]) A"

definition abs_remove :: "addr \<Rightarrow> abook \<Rightarrow> abook" where
  "abs_remove a A = (\<lambda>sd. map (\<lambda>(p, xs). (p, filter (\<lambda>e. fst e \<noteq> a) xs)) (A sd))"

section \<open>Sides are ordered maps\<close>

interpretation price_order: map_compare "price_before sd"
  by unfold_locales (cases sd; auto)+

lemma levels_set_levels [simp]:
  "levels sd' (set_levels sd m b) = (if sd' = sd then m else levels sd' b)"
  by (cases sd; cases sd') auto

lemma index_set_levels [simp]: "index (set_levels sd m b) = index b"
  by (cases sd) auto

lemma levels_index_upd [simp]: "levels sd (b\<lparr>index := ix\<rparr>) = levels sd b"
  by (cases sd) auto

lemma levels_put_level:
  "levels sd' (put_level sd p L b) =
     (if sd' = sd then map_put (price_before sd) p L (levels sd b) else levels sd' b)"
  by (simp add: put_level_def)

lemma index_put_level [simp]: "index (put_level sd p L b) = index b"
  by (simp add: put_level_def)

lemma index_drop_level [simp]: "index (drop_level sd p b) = index b"
  by (simp add: drop_level_def)

lemma price_before_Bids: "price_before Bids = (>)" and price_before_Asks: "price_before Asks = (<)"
  by (simp_all add: fun_eq_iff)

text \<open>The operations in terms of the order's side.\<close>

lemma rest_alt:
  "rest h b a = do {
     raw \<leftarrow> h a;
     (h, L) \<leftarrow> push_back h (level_at (levels (own_side raw) b) (price raw)) a;
     let b = put_level (own_side raw) (price raw) L b;
     raw \<leftarrow> h a;
     (case index b (index_key raw) of
        None \<Rightarrow> Some (h, b\<lparr>index := (index b)(index_key raw \<mapsto> a)\<rparr>)
      | Some _ \<Rightarrow> Some (h(a := None), b))
   }"
  by (cases "h a")
    (simp_all add: rest_def own_side_def put_level_def price_before_Bids price_before_Asks Let_def
      split_def cong: option.case_cong)

lemma unlink_order_alt:
  "unlink_order h b a = do {
     v \<leftarrow> h a;
     (case map_of (levels (own_side v) b) (price v) of
        None \<Rightarrow> Some (h, b)
      | Some L \<Rightarrow> do {
          (h, L) \<leftarrow> unlink h L a;
          Some (h, put_level (own_side v) (price v) L b) })
   }"
  by (cases "h a")
    (simp_all add: unlink_order_def own_side_def put_level_def price_before_Bids price_before_Asks
      cong: option.case_cong)

section \<open>Facts on abstract books\<close>

lemma book_entries_mem:
  "e \<in> set (book_entries A) \<longleftrightarrow> (\<exists>sd p xs. (p, xs) \<in> set (A sd) \<and> e \<in> set xs)"
proof
  assume "\<exists>sd p xs. (p, xs) \<in> set (A sd) \<and> e \<in> set xs"
  then obtain sd p xs where "(p, xs) \<in> set (A sd)" "e \<in> set xs" by blast
  then show "e \<in> set (book_entries A)"
    by (cases sd) (force simp: book_entries_def side_entries_def)+
qed (force simp: book_entries_def side_entries_def)

lemma abook_wfD:
  assumes "abook_wf A"
  shows "sorted_wrt (price_before sd) (map fst (A sd))" "distinct (map fst (book_entries A))"
    "(p, xs) \<in> set (A sd) \<Longrightarrow> e \<in> set xs \<Longrightarrow> price (snd e) = p"
    "(p, xs) \<in> set (A sd) \<Longrightarrow> e \<in> set xs \<Longrightarrow> own_side (snd e) = sd"
  using assms unfolding abook_wf_def by blast+

text \<open>An address determines its entry, hence its level.\<close>

lemma book_entry_unique:
  assumes "abook_wf A" and "(a, v) \<in> set (book_entries A)" and "(a, w) \<in> set (book_entries A)"
  shows "v = w"
  using assms abook_wfD(2) by (metis eq_key_imp_eq_value)

lemma queue_disjoint:
  assumes wf: "abook_wf A" and xs: "(p, xs) \<in> set (A sd)" and ys: "(q, ys) \<in> set (A sd')"
    and ne: "sd' \<noteq> sd \<or> q \<noteq> p" and a: "a \<in> fst ` set xs"
  shows "a \<notin> fst ` set ys"
proof
  assume "a \<in> fst ` set ys"
  then obtain v w where v: "(a, v) \<in> set xs" and w: "(a, w) \<in> set ys" using a by force
  then have "v = w"
    using book_entry_unique [OF wf] xs ys unfolding book_entries_mem by blast
  with abook_wfD(3,4) [OF wf xs v] abook_wfD(3,4) [OF wf ys w] ne show False by simp
qed

lemma queue_distinct:
  assumes "abook_wf A" and "(p, xs) \<in> set (A sd)"
  shows "distinct (map fst xs)"
proof -
  from assms(2) obtain m1 m2 where "A sd = m1 @ (p, xs) # m2" by (meson split_list)
  with abook_wfD(2) [OF assms(1)] show ?thesis
    by (cases sd) (simp_all add: book_entries_def side_entries_def)
qed

lemma map_of_queue:
  "abook_wf A \<Longrightarrow> (p, xs) \<in> set (A sd) \<Longrightarrow> map_of (A sd) p = Some xs"
  using abook_wfD(1) price_order.sorted_map_distinct by (metis map_of_is_SomeI)

lemma queue_at_mem:
  "abook_wf A \<Longrightarrow> (p, xs) \<in> set (A sd) \<Longrightarrow> queue_at A sd p = xs"
  by (simp add: queue_at_def map_of_queue)

lemma mset_put_queue:
  assumes "abook_wf A"
  shows "mset (book_entries (put_queue sd p xs A)) + mset (queue_at A sd p) =
     mset (book_entries A) + mset xs"
proof -
  have s: "sorted_wrt (price_before sd) (map fst (A sd))" using assms by (rule abook_wfD)
  have "mset (concat (map snd (map_put (price_before sd) p xs (A sd)))) + mset (queue_at A sd p) =
     mset (concat (map snd (A sd))) + mset xs"
  proof (cases "map_of (A sd) p")
    case None
    then have "p \<notin> fst ` set (A sd)" by (simp add: map_of_eq_None_iff)
    from price_order.map_put_new_split [OF this, where sd = sd and v = xs] show ?thesis
      by (auto simp: queue_at_def None)
  next
    case (Some ys)
    then obtain m1 m2 where m: "A sd = m1 @ (p, ys) # m2" by (meson map_of_SomeD split_list)
    from s show ?thesis
      unfolding m using Some by (simp add: price_order.map_put_mid queue_at_def m)
  qed
  then show ?thesis
    by (cases sd) (simp_all add: book_entries_def side_entries_def put_queue_def ac_simps)
qed

lemma book_entries_abs_remove:
  "book_entries (abs_remove a A) = filter (\<lambda>e. fst e \<noteq> a) (book_entries A)"
  by (simp add: book_entries_def side_entries_def abs_remove_def filter_concat comp_def split_def)

lemma abook_wf_abs_remove:
  assumes "abook_wf A"
  shows "abook_wf (abs_remove a A)"
proof -
  have keys: "map fst (abs_remove a A sd) = map fst (A sd)" for sd
    by (simp add: abs_remove_def split_def)
  have "distinct (map fst (book_entries (abs_remove a A)))"
    using abook_wfD(2) [OF assms] by (simp add: book_entries_abs_remove distinct_map_filter)
  moreover have "price (snd e) = p \<and> own_side (snd e) = sd"
    if "(p, xs) \<in> set (abs_remove a A sd)" "e \<in> set xs" for sd p xs e
    using that abook_wfD(3,4) [OF assms, of p _ sd e] by (auto simp: abs_remove_def)
  ultimately show ?thesis
    using abook_wfD(1) [OF assms] unfolding abook_wf_def keys by blast
qed

lemma abs_remove_put_queue:
  assumes wf: "abook_wf A" and q: "(p, ys @ (a, v) # zs) \<in> set (A sd)"
  shows "put_queue sd p (ys @ zs) A = abs_remove a A"
proof
  fix sd'
  let ?f = "\<lambda>(p, xs). (p, filter (\<lambda>e. fst e \<noteq> a) xs)"
  have other: "?f l = l" if "l \<in> set (A sd')" "sd' \<noteq> sd \<or> fst l \<noteq> p" for l
  proof (cases l)
    case (Pair r xs)
    with that queue_disjoint [OF wf q, of r xs sd' a] have "a \<notin> fst ` set xs" by auto
    then show ?thesis by (auto simp: Pair filter_id_conv)
  qed
  show "put_queue sd p (ys @ zs) A sd' = abs_remove a A sd'"
  proof (cases "sd' = sd")
    case False
    then show ?thesis
      using other by (simp add: put_queue_def abs_remove_def map_idI)
  next
    case True
    from q obtain m1 m2 where m: "A sd = m1 @ (p, ys @ (a, v) # zs) # m2" by (meson split_list)
    have s: "sorted_wrt (price_before sd) (map fst (A sd))" using wf by (rule abook_wfD)
    then have d: "p \<notin> fst ` set m1" "p \<notin> fst ` set m2"
      using price_order.sorted_map_distinct [OF s] by (auto simp: m)
    have "distinct (map fst (ys @ (a, v) # zs))" using wf q by (rule queue_distinct)
    then have "a \<notin> fst ` set ys" "a \<notin> fst ` set zs" by auto
    then have "filter (\<lambda>e. fst e \<noteq> a) ys = ys" "filter (\<lambda>e. fst e \<noteq> a) zs = zs"
      by (auto simp: filter_id_conv)
    moreover have "?f l = l" if "l \<in> set m1 \<union> set m2" for l
      using that d by (intro other) (auto simp: True m)
    then have "map ?f m1 = m1" "map ?f m2 = m2" by (simp_all add: map_idI)
    ultimately show ?thesis
      using s unfolding True put_queue_def abs_remove_def m
      by (simp add: price_order.map_put_mid)
  qed
qed

lemma abook_wf_put_queue:
  assumes "abook_wf A" and "\<And>e. e \<in> set xs \<Longrightarrow> price (snd e) = p \<and> own_side (snd e) = sd"
    and "distinct (map fst (book_entries (put_queue sd p xs A)))"
  shows "abook_wf (put_queue sd p xs A)"
proof -
  have "price (snd e) = q \<and> own_side (snd e) = sd'"
    if "(q, ys) \<in> set (put_queue sd p xs A sd')" "e \<in> set ys" for sd' q ys e
  proof (cases "sd' = sd \<and> (q, ys) = (p, xs)")
    case True
    with that(2) assms(2) show ?thesis by simp
  next
    case False
    with that(1) have "(q, ys) \<in> set (A sd')"
      by (auto simp: put_queue_def split: if_splits dest: map_put_mem)
    with that(2) show ?thesis using abook_wfD(3,4) [OF assms(1)] by blast
  qed
  moreover have "sorted_wrt (price_before sd') (map fst (put_queue sd p xs A sd'))" for sd'
    using abook_wfD(1) [OF assms(1)] by (simp add: put_queue_def price_order.sorted_map_put)
  ultimately show ?thesis
    using assms(3) unfolding abook_wf_def by blast
qed

lemma mset_abs_rest:
  assumes "abook_wf A"
  shows "mset (book_entries (abs_rest a v A)) = mset (book_entries A) + {#(a, v)#}"
  using mset_put_queue [OF assms, of "own_side v" "price v"
      "queue_at A (own_side v) (price v) @ [(a, v)]"]
  by (simp add: abs_rest_def)

lemma set_abs_rest:
  "abook_wf A \<Longrightarrow> set (book_entries (abs_rest a v A)) = insert (a, v) (set (book_entries A))"
  using mset_abs_rest [of A a v] by (metis add_mset_add_single set_mset_add_mset_insert set_mset_mset)

lemma queue_at_sub: "e \<in> set (queue_at A sd p) \<Longrightarrow> e \<in> set (book_entries A)"
  unfolding queue_at_def book_entries_mem
  by (cases "map_of (A sd) p") (auto dest: map_of_SomeD)

lemma queue_addrs: "(p, xs) \<in> set (A sd) \<Longrightarrow> fst ` set xs \<subseteq> fst ` set (book_entries A)"
  by (intro image_mono subsetI) (auto simp: book_entries_mem)

lemma queue_at_addrs: "fst ` set (queue_at A sd p) \<subseteq> fst ` set (book_entries A)"
  by (intro image_mono subsetI queue_at_sub)

lemma queue_at_wf:
  assumes "abook_wf A" and "e \<in> set (queue_at A sd p)"
  shows "price (snd e) = p" "own_side (snd e) = sd"
proof -
  from assms(2) obtain xs where "(p, xs) \<in> set (A sd)" "e \<in> set xs"
    unfolding queue_at_def by (cases "map_of (A sd) p") (auto dest: map_of_SomeD)
  then show "price (snd e) = p" "own_side (snd e) = sd"
    using abook_wfD(3,4) [OF assms(1)] by blast+
qed

lemma abook_wf_abs_rest:
  assumes wf: "abook_wf A" and "a \<notin> fst ` set (book_entries A)"
  shows "abook_wf (abs_rest a v A)"
proof -
  have "mset (map fst (book_entries (abs_rest a v A))) = mset (a # map fst (book_entries A))"
    using mset_abs_rest [OF wf, of a v] by simp
  then have "distinct (map fst (book_entries (abs_rest a v A)))"
    using assms abook_wfD(2) [OF wf] by (metis distinct.simps(2) list.set_map mset_eq_imp_distinct_iff)
  then show ?thesis
    unfolding abs_rest_def using wf queue_at_wf [OF wf] by (intro abook_wf_put_queue) auto
qed

section \<open>Frames\<close>

lemma levels_rep_frame:
  assumes "levels_rep h b A" and "\<And>a. a \<in> fst ` set (book_entries A) \<Longrightarrow> h' a = h a"
  shows "levels_rep h' b A"
proof -
  have "level_rep h' L xs" if "level_rep h L xs" "(p, xs) \<in> set (A sd)" for p L xs sd
    using that(1) by (rule level_rep_frame) (use that(2) assms(2) book_entries_mem in force)
  then show ?thesis
    using assms(1) unfolding levels_rep_def by (blast intro: rel_map_mono)
qed

lemma levels_rep_put:
  assumes rep: "levels_rep h b A" and wf: "abook_wf A" and lvl: "level_rep h' L xs"
    and frame: "\<And>sd' q ys a. (q, ys) \<in> set (A sd') \<Longrightarrow> sd' \<noteq> sd \<or> q \<noteq> p \<Longrightarrow>
      a \<in> fst ` set ys \<Longrightarrow> h' a = h a"
  shows "levels_rep h' (put_level sd p L b) (put_queue sd p xs A)"
  unfolding levels_rep_def
proof
  fix sd'
  have keep: "level_rep h' K ys"
    if "level_rep h K ys" "(q, ys) \<in> set (A sd')" "sd' \<noteq> sd \<or> q \<noteq> p" for q K ys
    using that(1) by (rule level_rep_frame) (rule frame [OF that(2,3)])
  have r: "rel_map (\<lambda>p. level_rep h) (levels sd' b) (A sd')"
    using rep by (simp add: levels_rep_def)
  show "rel_map (\<lambda>p. level_rep h') (levels sd' (put_level sd p L b)) (put_queue sd p xs A sd')"
  proof (cases "sd' = sd")
    case True
    have "rel_map (\<lambda>p. level_rep h') (map_put (price_before sd) p L (levels sd b))
        (map_put (price_before sd) p xs (A sd))"
      using r abook_wfD(1) [OF wf] lvl unfolding True
      by (rule price_order.rel_map_put_upd) (simp add: keep True)
    then show ?thesis by (simp add: True levels_put_level put_queue_def)
  next
    case False
    have "rel_map (\<lambda>p. level_rep h') (levels sd' b) (A sd')"
      using r by (rule rel_map_mono) (simp add: keep False)
    with False show ?thesis by (simp add: levels_put_level put_queue_def)
  qed
qed

lemma levels_rep_find:
  assumes "levels_rep h b A" and "abook_wf A" and "(p, xs) \<in> set (A sd)"
  obtains L where "map_of (levels sd b) p = Some L" and "level_rep h L xs"
proof -
  have r: "rel_map (\<lambda>p. level_rep h) (levels sd b) (A sd)" using assms(1) by (simp add: levels_rep_def)
  have x: "map_of (A sd) p = Some xs" using assms(2,3) by (rule map_of_queue)
  with rel_map_find_None [OF r, of p] obtain L where L: "map_of (levels sd b) p = Some L" by auto
  from rel_map_find_Some [OF r L] x that [OF L] show thesis by auto
qed

lemma levels_rep_level_at:
  assumes "levels_rep h b A"
  shows "level_rep h (level_at (levels sd b) p) (queue_at A sd p)"
proof -
  have r: "rel_map (\<lambda>p. level_rep h) (levels sd b) (A sd)" using assms by (simp add: levels_rep_def)
  show ?thesis
    using rel_map_find_Some [OF r, of p] rel_map_find_None [OF r, of p]
    by (cases "map_of (levels sd b) p") (auto simp: level_at_def queue_at_def level_rep_new)
qed

section \<open>Correctness of the operations\<close>

lemma book_repD:
  assumes "book_rep h b A"
  shows "levels_rep h b A" "abook_wf A" "index_rep (index b) (book_entries A)"
  using assms by (simp_all add: book_rep_def)

lemma index_key_payload [simp]: "index_key (payload v) = index_key v"
  and own_side_payload [simp]: "own_side (payload v) = own_side v"
  by (simp_all add: index_key_def own_side_def)

lemma index_repD:
  assumes "index_rep ix es"
  shows "ix k = Some a \<longleftrightarrow> (\<exists>v. (a, v) \<in> set es \<and> index_key v = k)"
  using assms unfolding index_rep_def by blast

lemma index_rep_insert:
  assumes ix: "index_rep ix es" and key: "ix (index_key v) = None"
    and es': "set es' = insert (a, v) (set es)"
  shows "index_rep (ix(index_key v \<mapsto> a)) es'"
  unfolding index_rep_def
proof (intro allI)
  fix k c
  show "(ix(index_key v \<mapsto> a)) k = Some c \<longleftrightarrow> (\<exists>w. (c, w) \<in> set es' \<and> index_key w = k)"
  proof (cases "k = index_key v")
    case True
    have "(c, w) \<notin> set es" if "index_key w = k" for w
      using index_repD [OF ix, of k c] key that True by auto
    with True show ?thesis unfolding es' by auto
  next
    case False
    with index_repD [OF ix, of k c] show ?thesis unfolding es' by auto
  qed
qed

lemma index_rep_delete:
  assumes ix: "index_rep ix es" and dist: "distinct (map fst es)" and key: "ix k = Some a"
    and es': "set es' = {e \<in> set es. fst e \<noteq> a}"
  shows "index_rep (ix(k := None)) es'"
  unfolding index_rep_def
proof (intro allI)
  fix k' c
  from index_repD [OF ix] key obtain v where v: "(a, v) \<in> set es" "index_key v = k" by blast
  have uniq: "w = v" if "(a, w) \<in> set es" for w
    using dist that v(1) by (rule eq_key_imp_eq_value)
  show "(ix(k := None)) k' = Some c \<longleftrightarrow> (\<exists>w. (c, w) \<in> set es' \<and> index_key w = k')"
  proof (cases "k' = k")
    case True
    have "c = a" if "(c, w) \<in> set es" "index_key w = k" for w
      using index_repD [OF ix, of k c] key that by auto
    with True show ?thesis unfolding es' by auto
  next
    case False
    with uniq v(2) index_repD [OF ix, of k' c] show ?thesis unfolding es' by auto
  qed
qed

lemma index_rep_None:
  "index_rep ix es \<Longrightarrow> ix k = None \<longleftrightarrow> (\<forall>e \<in> set es. index_key (snd e) \<noteq> k)"
  by (metis index_repD not_None_eq prod.collapse snd_conv)

lemma book_rep_new: "book_rep h (new_book sy) (\<lambda>_. [])"
proof -
  have "levels sd (new_book sy) = []" for sd by (cases sd) (simp_all add: new_book_def)
  then show ?thesis
    by (simp add: book_rep_def levels_rep_def abook_wf_def index_rep_def book_entries_def
        side_entries_def new_book_def)
qed

lemma book_rep_alloc:
  "book_rep h b A \<Longrightarrow> a \<in> fst ` set (book_entries A) \<Longrightarrow> a \<in> dom h"
proof -
  assume rep: "book_rep h b A" and "a \<in> fst ` set (book_entries A)"
  then obtain sd p xs v where x: "(p, xs) \<in> set (A sd)" "(a, v) \<in> set xs"
    by (auto simp: book_entries_mem)
  from levels_rep_find [OF book_repD(1,2) [OF rep] x(1)] obtain L where "level_rep h L xs" .
  from level_rep_mem [OF this x(2)] show "a \<in> dom h" by auto
qed

lemma book_rep_mem:
  assumes rep: "book_rep h b A" and "(a, v) \<in> set (book_entries A)"
  shows "\<exists>w. h a = Some w \<and> payload w = v"
proof -
  from assms(2) obtain sd p xs where x: "(p, xs) \<in> set (A sd)" "(a, v) \<in> set xs"
    by (auto simp: book_entries_mem)
  from levels_rep_find [OF book_repD(1,2) [OF rep] x(1)] obtain L where "level_rep h L xs" .
  from level_rep_mem [OF this x(2)] show ?thesis .
qed

lemma rest_push:
  assumes rep: "book_rep h b A" and a: "h a = Some v" and fresh: "a \<notin> fst ` set (book_entries A)"
  obtains h' L w where
    "push_back h (level_at (levels (own_side v) b) (price v)) a = Some (h', L)"
    "levels_rep h' (put_level (own_side v) (price v) L b) (abs_rest a (payload v) A)"
    "h' a = Some w" "payload w = payload v" "tail L = Some a"
    "\<forall>x. x \<noteq> a \<longrightarrow> x \<notin> fst ` set (book_entries A) \<longrightarrow> h' x = h x" "dom h' = dom h"
proof -
  note wf = book_repD(2) [OF rep]
  let ?q = "queue_at A (own_side v) (price v)"
  have lvl: "level_rep h (level_at (levels (own_side v) b) (price v)) ?q"
    using book_repD(1) [OF rep] by (rule levels_rep_level_at)
  have aq: "a \<notin> fst ` set ?q" using fresh queue_at_addrs by (rule contra_subsetD [rotated])
  from pl.rep_push [OF lvl a aq] obtain h' L where 1:
    "push_back h (level_at (levels (own_side v) b) (price v)) a = Some (h', L)"
    "level_rep h' L (?q @ [(a, payload v)])"
    "\<And>x. x \<noteq> a \<Longrightarrow> x \<notin> fst ` set ?q \<Longrightarrow> h' x = h x" "dom h' = dom h"
    by blast
  have "levels_rep h' (put_level (own_side v) (price v) L b)
      (put_queue (own_side v) (price v) (?q @ [(a, payload v)]) A)"
    using book_repD(1) [OF rep] wf 1(2)
  proof (rule levels_rep_put)
    fix sd' q ys x
    assume y: "(q, ys) \<in> set (A sd')" "sd' \<noteq> own_side v \<or> q \<noteq> price v" "x \<in> fst ` set ys"
    have "x \<notin> fst ` set ?q"
    proof (cases "map_of (A (own_side v)) (price v)")
      case (Some zs)
      then show ?thesis
        using queue_disjoint [OF wf y(1) map_of_SomeD [OF Some] _ y(3)] y(2)
        by (auto simp: queue_at_def)
    qed (simp add: queue_at_def)
    moreover have "x \<in> fst ` set (book_entries A)" using y(1,3) queue_addrs by blast
    then have "x \<noteq> a" using fresh by blast
    ultimately show "h' x = h x" using 1(3) by blast
  qed
  then have rep': "levels_rep h' (put_level (own_side v) (price v) L b) (abs_rest a (payload v) A)"
    by (simp add: abs_rest_def)
  have tl: "tail L = Some a"
    using 1(2) unfolding level_rep_def by (auto dest: lseg_last)
  have "(a, payload v) \<in> set (?q @ [(a, payload v)])" by simp
  from level_rep_mem [OF 1(2) this] obtain w where w: "h' a = Some w" "payload w = payload v"
    by blast
  have "x \<notin> fst ` set ?q" if "x \<notin> fst ` set (book_entries A)" for x
    using that queue_at_addrs by (rule contra_subsetD [rotated])
  then have "\<forall>x. x \<noteq> a \<longrightarrow> x \<notin> fst ` set (book_entries A) \<longrightarrow> h' x = h x" using 1(3) by simp
  from that [OF 1(1) rep' w tl this 1(4)] show thesis .
qed

lemma rest_rep:
  assumes rep: "book_rep h b A" and a: "h a = Some v" and fresh: "a \<notin> fst ` set (book_entries A)"
    and key: "index b (index_key v) = None"
  shows "\<exists>h' b'. rest h b a = Some (h', b') \<and> book_rep h' b' (abs_rest a (payload v) A) \<and>
     (\<forall>x. x \<noteq> a \<longrightarrow> x \<notin> fst ` set (book_entries A) \<longrightarrow> h' x = h x) \<and> dom h' = dom h"
proof -
  note wf = book_repD(2) [OF rep]
  obtain h' L w where 1:
    "push_back h (level_at (levels (own_side v) b) (price v)) a = Some (h', L)"
    "levels_rep h' (put_level (own_side v) (price v) L b) (abs_rest a (payload v) A)"
    "h' a = Some w" "payload w = payload v" "tail L = Some a"
    "\<forall>x. x \<noteq> a \<longrightarrow> x \<notin> fst ` set (book_entries A) \<longrightarrow> h' x = h x" "dom h' = dom h"
    by (rule rest_push [OF rep a fresh])
  have kw: "index_key w = index_key v" using 1(4) by (metis index_key_payload)
  define b' where "b' = (put_level (own_side v) (price v) L b)
    \<lparr>index := (index b)(index_key v \<mapsto> a)\<rparr>"
  have "rest h b a = Some (h', b')"
    using a 1(1,3) key by (simp add: rest_alt kw b'_def)
  moreover have "index_rep (index b') (book_entries (abs_rest a (payload v) A))"
    using index_rep_insert [OF book_repD(3) [OF rep] _ set_abs_rest [OF wf], of "payload v" a] key
    by (simp add: b'_def)
  ultimately show ?thesis
    using 1(2,6,7) abook_wf_abs_rest [OF wf fresh]
    by (auto simp: book_rep_def levels_rep_def b'_def)
qed

text \<open>
  A key that is already in the index: the order is linked into its level and then
  destroyed, so the level keeps a pointer to freed memory.
\<close>

lemma rest_duplicate:
  assumes rep: "book_rep h b A" and a: "h a = Some v" and fresh: "a \<notin> fst ` set (book_entries A)"
    and key: "index b (index_key v) = Some c"
  shows "\<exists>h' b' L. rest h b a = Some (h', b') \<and> h' a = None \<and>
     map_of (levels (own_side v) b') (price v) = Some L \<and> tail L = Some a \<and> index b' = index b"
proof -
  obtain h' L w where 1:
    "push_back h (level_at (levels (own_side v) b) (price v)) a = Some (h', L)"
    "levels_rep h' (put_level (own_side v) (price v) L b) (abs_rest a (payload v) A)"
    "h' a = Some w" "payload w = payload v" "tail L = Some a"
    "\<forall>x. x \<noteq> a \<longrightarrow> x \<notin> fst ` set (book_entries A) \<longrightarrow> h' x = h x" "dom h' = dom h"
    by (rule rest_push [OF rep a fresh])
  have kw: "index_key w = index_key v" using 1(4) by (metis index_key_payload)
  have "sorted_wrt (price_before (own_side v)) (map fst (levels (own_side v) b))"
    using book_repD(1,2) [OF rep] rel_map_keys abook_wfD(1) unfolding levels_rep_def by metis
  then show ?thesis
    using a 1(1,3,5) key by (simp add: rest_alt kw levels_put_level price_order.map_of_put)
qed

lemma unlink_order_rep:
  assumes rep: "book_rep h b A" and e: "(a, v) \<in> set (book_entries A)"
  obtains h' b' w where "unlink_order h b a = Some (h', b')"
    "levels_rep h' b' (abs_remove a A)" "index b' = index b" "h' a = Some w" "payload w = v"
    "\<forall>x. x \<notin> fst ` set (book_entries A) \<longrightarrow> h' x = h x" "dom h' = dom h"
proof -
  note wf = book_repD(2) [OF rep]
  from e obtain sd p xs where x: "(p, xs) \<in> set (A sd)" "(a, v) \<in> set xs"
    by (auto simp: book_entries_mem)
  then have v: "price v = p" "own_side v = sd" using abook_wfD(3,4) [OF wf x] by auto
  from x(2) obtain ys zs where xs: "xs = ys @ (a, v) # zs" by (meson split_list)
  from levels_rep_find [OF book_repD(1) [OF rep] wf x(1)] obtain L
    where L: "map_of (levels sd b) p = Some L" "level_rep h L xs" .
  from pl.rep_unlink [of h L ys a v zs] L(2) obtain h' L' w where 1:
    "unlink h L a = Some (h', L')" "level_rep h' L' (ys @ zs)" "h' a = Some w" "payload w = v"
    "\<forall>x. x \<notin> fst ` set xs \<longrightarrow> h' x = h x" "dom h' = dom h"
    unfolding xs by blast
  from book_rep_mem [OF rep e] obtain u where u: "h a = Some u" "payload u = v" by blast
  have pu: "price u = p" "own_side u = sd" using v u(2) by auto
  have "levels_rep h' (put_level sd p L' b) (put_queue sd p (ys @ zs) A)"
    using book_repD(1) [OF rep] wf 1(2)
  proof (rule levels_rep_put)
    fix sd' q ys' c
    assume y: "(q, ys') \<in> set (A sd')" "sd' \<noteq> sd \<or> q \<noteq> p" "c \<in> fst ` set ys'"
    then have "c \<notin> fst ` set xs" using queue_disjoint [OF wf y(1) x(1) _ y(3)] by auto
    with 1(5) show "h' c = h c" by blast
  qed
  moreover have "put_queue sd p (ys @ zs) A = abs_remove a A"
    using wf x(1) unfolding xs by (rule abs_remove_put_queue)
  moreover have "unlink_order h b a = Some (h', put_level sd p L' b)"
    using u(1) pu L(1) 1(1) by (simp add: unlink_order_alt)
  moreover have "\<forall>x. x \<notin> fst ` set (book_entries A) \<longrightarrow> h' x = h x"
    using 1(5) queue_addrs [of p xs A sd] x(1) by blast
  ultimately show thesis
    using that 1(3,4,6) by simp
qed

lemma erase_index_rep:
  assumes lv: "levels_rep h b (abs_remove a A)" and wf: "abook_wf A"
    and ix: "index_rep (index b) (book_entries A)" and e: "(a, v) \<in> set (book_entries A)"
  obtains h' b' where "erase_index h b (index_key v) = (h', b')" "book_rep h' b' (abs_remove a A)"
    "h' = h(a := None)"
proof -
  let ?b' = "b\<lparr>index := (index b)(index_key v := None)\<rparr>"
  have k: "index b (index_key v) = Some a" using index_repD [OF ix] e by blast
  have es: "set (book_entries (abs_remove a A)) = {e \<in> set (book_entries A). fst e \<noteq> a}"
    by (simp add: book_entries_abs_remove)
  have "levels_rep (h(a := None)) b (abs_remove a A)"
    using lv by (rule levels_rep_frame) (auto simp: es)
  then have "levels_rep (h(a := None)) ?b' (abs_remove a A)" by (simp add: levels_rep_def)
  moreover have "index_rep (index ?b') (book_entries (abs_remove a A))"
    using index_rep_delete [OF ix abook_wfD(2) [OF wf] k es] by simp
  ultimately have "book_rep (h(a := None)) ?b' (abs_remove a A)"
    using abook_wf_abs_remove [OF wf] by (simp add: book_rep_def)
  then show thesis
    using that [of "h(a := None)" ?b'] k by (simp add: erase_index_def)
qed

lemma remove_rep:
  assumes rep: "book_rep h b A" and e: "(a, v) \<in> set (book_entries A)"
  shows "\<exists>h' b'. remove h b a = Some (h', b') \<and> book_rep h' b' (abs_remove a A) \<and>
     (\<forall>x. x \<notin> fst ` set (book_entries A) \<longrightarrow> h' x = h x) \<and> h' a = None \<and>
     dom h' = dom h - {a}"
proof -
  obtain h1 b1 w where 1: "unlink_order h b a = Some (h1, b1)"
    "levels_rep h1 b1 (abs_remove a A)" "index b1 = index b" "h1 a = Some w" "payload w = v"
    "\<forall>x. x \<notin> fst ` set (book_entries A) \<longrightarrow> h1 x = h x" "dom h1 = dom h"
    using rep e by (rule unlink_order_rep)
  have k: "index_key w = index_key v" using 1(5) by auto
  have "index_rep (index b1) (book_entries A)" unfolding 1(3) using rep by (rule book_repD)
  then obtain h2 b2 where 2: "erase_index h1 b1 (index_key v) = (h2, b2)"
    "book_rep h2 b2 (abs_remove a A)" "h2 = h1(a := None)"
    using erase_index_rep [OF 1(2) book_repD(2) [OF rep] _ e] by blast
  have "a \<in> fst ` set (book_entries A)" using e by (rule image_eqI [rotated]) simp
  then have "\<forall>x. x \<notin> fst ` set (book_entries A) \<longrightarrow> h2 x = h x" using 1(6) 2(3) by auto
  with 1(1,4,7) 2 k show ?thesis by (auto simp: remove_def)
qed

lemma cancel_rep:
  assumes rep: "book_rep h b A" and e: "(a, v) \<in> set (book_entries A)"
    and k: "index_key v = (s, clord_value c)"
  shows "\<exists>h' b'. cancel h b s c = Some ((h', b'), \<lparr>ok = True, reason = ''''\<rparr>) \<and>
     book_rep h' b' (abs_remove a A) \<and>
     (\<forall>x. x \<notin> fst ` set (book_entries A) \<longrightarrow> h' x = h x) \<and> h' a = None \<and>
     dom h' = dom h - {a}"
proof -
  obtain h1 b1 w where 1: "unlink_order h b a = Some (h1, b1)"
    "levels_rep h1 b1 (abs_remove a A)" "index b1 = index b" "h1 a = Some w" "payload w = v"
    "\<forall>x. x \<notin> fst ` set (book_entries A) \<longrightarrow> h1 x = h x" "dom h1 = dom h"
    using rep e by (rule unlink_order_rep)
  have ix: "index_rep (index b1) (book_entries A)" unfolding 1(3) using rep by (rule book_repD)
  then obtain h2 b2 where 2: "erase_index h1 b1 (index_key v) = (h2, b2)"
    "book_rep h2 b2 (abs_remove a A)" "h2 = h1(a := None)"
    using erase_index_rep [OF 1(2) book_repD(2) [OF rep] _ e] by blast
  have "index b (index_key v) = Some a" using index_repD [OF book_repD(3) [OF rep]] e by blast
  moreover have "a \<in> fst ` set (book_entries A)" using e by (rule image_eqI [rotated]) simp
  then have "\<forall>x. x \<notin> fst ` set (book_entries A) \<longrightarrow> h2 x = h x" using 1(6) 2(3) by auto
  ultimately show ?thesis
    using 1(1,7) 2 k by (auto simp: cancel_def)
qed

lemma cancel_unknown:
  "index b (s, clord_value c) = None \<Longrightarrow>
     cancel h b s c = Some ((h, b), \<lparr>ok = False, reason = ''unknown order''\<rparr>)"
  by (simp add: cancel_def)

section \<open>Best prices\<close>

lemma first_nonempty_rel:
  assumes "rel_map (\<lambda>p. level_rep h) m m'"
  shows "first_nonempty m = map_option fst (List.find (\<lambda>l. snd l \<noteq> []) m')"
  using assms
proof (induction m' arbitrary: m)
  case (Cons l m')
  then obtain L m2 where "m = (fst l, L) # m2" "level_rep h L (snd l)"
    "rel_map (\<lambda>p. level_rep h) m2 m'"
    by (cases m; cases l) auto
  with Cons.IH show ?case by (simp add: level_rep_empty)
qed simp

lemma first_nonempty_best:
  assumes "sorted_wrt lt (map fst m)" and "List.find (\<lambda>l. snd l \<noteq> []) m = Some (p, xs)"
  shows "(p, xs) \<in> set m \<and> xs \<noteq> [] \<and>
    (\<forall>q ys. (q, ys) \<in> set m \<longrightarrow> ys \<noteq> [] \<longrightarrow> q = p \<or> lt p q)"
  using assms by (induction m) (auto split: if_splits)

end
