(* ===== verification/OB_Matcher.thy ===== *)
theory OB_Matcher
  imports OB_Order_Book
begin

text \<open>
  \<^verbatim>\<open>src/core/matcher.{h,cpp}\<close>: the two level-filling algorithms, the walk over the
  opposing side, the sweep of filled orders and \<^verbatim>\<open>Matcher::submit\<close>, over the memory and
  the book. Loops over linked lists are partial functions: \<^const>\<open>None\<close> is a loop that
  never ends or a dereference of an unallocated pointer. The second half gives each piece
  an abstract counterpart on queues and proves that the code computes it.
\<close>

definition crosses :: "Side \<Rightarrow> Price \<Rightarrow> Price \<Rightarrow> bool" where
  "crosses aggr_side aggr_price level_price =
     (if aggr_side = Buy then level_price \<le> aggr_price else level_price \<ge> aggr_price)"

definition emit_trade :: "EventList \<Rightarrow> Order \<Rightarrow> Order \<Rightarrow> Price \<Rightarrow> Quantity \<Rightarrow> EventList" where
  "emit_trade out aggr resting px q =
     out @ [TradeEv \<lparr>aggressor_id = order_id aggr, resting_id = order_id resting,
              aggressor_clord = clord_id aggr, resting_clord = clord_id resting,
              trade_price = px, trade_qty = q, aggressor_side = side aggr\<rparr>]"

section \<open>Pro-rata\<close>

record Slot =
  slot_order :: addr
  orig_leaves :: Quantity
  alloc :: Quantity

text \<open>The snapshot loop: the slots head to tail, and the running total.\<close>

partial_function (option) snapshot ::
  "heap \<Rightarrow> addr option \<Rightarrow> Slot list \<Rightarrow> Quantity \<Rightarrow> (Slot list \<times> Quantity) option"
where
  "snapshot h cur slots tot =
     (case cur of
        None \<Rightarrow> Some (slots, tot)
      | Some a \<Rightarrow> do {
          v \<leftarrow> h a;
          snapshot h (nxt v) (slots @ [\<lparr>slot_order = a, orig_leaves = leaves_qty v, alloc = 0\<rparr>])
            (tot + leaves_qty v) })"

text \<open>Step 1: the floor shares and their sum.\<close>

fun share_slots :: "Quantity \<Rightarrow> Quantity \<Rightarrow> Slot list \<Rightarrow> Quantity \<Rightarrow> Slot list \<times> Quantity" where
  "share_slots to_fill tot [] allocated = ([], allocated)"
| "share_slots to_fill tot (s # ss) allocated =
     (let num = to_fill * orig_leaves s;
          al = num div tot;
          (ss', allocated') = share_slots to_fill tot ss (allocated + al)
      in (s\<lparr>alloc := al\<rparr> # ss', allocated'))"

text \<open>Step 2: the rounding residual, head to tail, up to each slot's capacity.\<close>

fun spread_residual :: "Quantity \<Rightarrow> Slot list \<Rightarrow> Slot list" where
  "spread_residual residual [] = []"
| "spread_residual residual (s # ss) =
     (if residual = 0 then s # ss
      else let remaining_cap = orig_leaves s - alloc s;
               take = min remaining_cap residual
           in s\<lparr>alloc := alloc s + take\<rparr> # spread_residual (residual - take) ss)"

text \<open>Step 3: the trades, and the resting quantities decremented.\<close>

fun fill_slots ::
  "addr \<Rightarrow> Price \<Rightarrow> Slot list \<Rightarrow> heap \<Rightarrow> Quantity \<Rightarrow> u64 \<Rightarrow> EventList \<Rightarrow>
   (heap \<times> Quantity \<times> u64 \<times> EventList) option"
where
  "fill_slots aggr px [] h filled level_delta out = Some (h, filled, level_delta, out)"
| "fill_slots aggr px (s # ss) h filled level_delta out =
     (if alloc s = 0 then fill_slots aggr px ss h filled level_delta out
      else do {
        g \<leftarrow> h aggr;
        v \<leftarrow> h (slot_order s);
        let out = emit_trade out g v px (alloc s);
        let h = h(slot_order s \<mapsto> v\<lparr>leaves_qty := leaves_qty v - alloc s\<rparr>);
        fill_slots aggr px ss h (filled + alloc s) (level_delta - alloc s) out })"

definition fill_level_prorata ::
  "heap \<Rightarrow> PriceLevel \<Rightarrow> addr \<Rightarrow> Price \<Rightarrow> Quantity \<Rightarrow> EventList \<Rightarrow>
   (heap \<times> PriceLevel \<times> Quantity \<times> EventList) option"
where
  "fill_level_prorata h L aggr level_price available out = do {
     (slots, tot) \<leftarrow> snapshot h (head L) [] 0;
     if tot = 0 \<or> available = 0 then Some (h, L, 0, out)
     else do {
       let to_fill = min available tot;
       let (slots, allocated) = share_slots to_fill tot slots 0;
       let residual = to_fill - allocated;
       let slots = spread_residual residual slots;
       (h, filled, level_delta, out) \<leftarrow> fill_slots aggr level_price slots h 0 0 out;
       let L = note_qty_delta L level_delta;
       g \<leftarrow> h aggr;
       let h = h(aggr \<mapsto> g\<lparr>leaves_qty := leaves_qty g - filled\<rparr>);
       Some (h, L, filled, out) } }"

section \<open>FIFO\<close>

partial_function (option) fifo_loop ::
  "addr \<Rightarrow> Price \<Rightarrow> Quantity \<Rightarrow> heap \<Rightarrow> addr option \<Rightarrow> Quantity \<Rightarrow> u64 \<Rightarrow> EventList \<Rightarrow>
   (heap \<times> Quantity \<times> u64 \<times> EventList) option"
where
  "fifo_loop aggr px available h cur filled level_delta out =
     (case cur of
        None \<Rightarrow> Some (h, filled, level_delta, out)
      | Some a \<Rightarrow>
          if \<not> filled < available then Some (h, filled, level_delta, out)
          else do {
            v \<leftarrow> h a;
            let q = min (available - filled) (leaves_qty v);
            if q = 0 then fifo_loop aggr px available h (nxt v) filled level_delta out
            else do {
              g \<leftarrow> h aggr;
              let out = emit_trade out g v px q;
              let h = h(a \<mapsto> v\<lparr>leaves_qty := leaves_qty v - q\<rparr>);
              v \<leftarrow> h a;
              fifo_loop aggr px available h (nxt v) (filled + q) (level_delta - q) out } })"

definition fill_level_fifo ::
  "heap \<Rightarrow> PriceLevel \<Rightarrow> addr \<Rightarrow> Price \<Rightarrow> Quantity \<Rightarrow> EventList \<Rightarrow>
   (heap \<times> PriceLevel \<times> Quantity \<times> EventList) option"
where
  "fill_level_fifo h L aggr level_price available out = do {
     (h, filled, level_delta, out) \<leftarrow> fifo_loop aggr level_price available h (head L) 0 0 out;
     let L = note_qty_delta L level_delta;
     g \<leftarrow> h aggr;
     let h = h(aggr \<mapsto> g\<lparr>leaves_qty := leaves_qty g - filled\<rparr>);
     Some (h, L, filled, out) }"

section \<open>Matching and submission\<close>

definition on_level ::
  "MatchAlgo \<Rightarrow> BookSide \<Rightarrow> addr \<Rightarrow> Price \<Rightarrow> EventList bstate \<Rightarrow> (bool \<times> EventList bstate) option"
where
  "on_level algo sd aggr level_price s = (case s of (h, b, out) \<Rightarrow> do {
     g \<leftarrow> h aggr;
     if leaves_qty g = 0 then Some (False, (h, b, out))
     else if \<not> crosses (side g) (price g) level_price then Some (False, (h, b, out))
     else do {
       L \<leftarrow> map_of (levels sd b) level_price;
       (h, L, _, out) \<leftarrow>
         (if algo = ProRata then fill_level_prorata h L aggr level_price (leaves_qty g) out
          else fill_level_fifo h L aggr level_price (leaves_qty g) out);
       let b = put_level sd level_price L b;
       g \<leftarrow> h aggr;
       Some (leaves_qty g > 0, (h, b, out)) } })"

definition match_aggressive ::
  "MatchAlgo \<Rightarrow> heap \<Rightarrow> OrderBook \<Rightarrow> addr \<Rightarrow> EventList \<Rightarrow> (EventList bstate) option"
where
  "match_aggressive algo h b aggr out = do {
     g \<leftarrow> h aggr;
     if side g = Buy then walk_asks (on_level algo Asks aggr) (h, b, out)
     else walk_bids (on_level algo Bids aggr) (h, b, out) }"

text \<open>The sweep reads each node's successor before it removes the node.\<close>

partial_function (option) sweep_loop ::
  "heap \<Rightarrow> OrderBook \<Rightarrow> addr option \<Rightarrow> (heap \<times> OrderBook) option"
where
  "sweep_loop h b cur =
     (case cur of
        None \<Rightarrow> Some (h, b)
      | Some a \<Rightarrow> do {
          v \<leftarrow> h a;
          let nx = nxt v;
          if leaves_qty v = 0 then do { hb \<leftarrow> remove h b a; sweep_loop (fst hb) (snd hb) nx }
          else sweep_loop h b nx })"

definition sweep ::
  "BookSide \<Rightarrow> Price \<Rightarrow> EventList bstate \<Rightarrow> (bool \<times> EventList bstate) option"
where
  "sweep sd p s = (case s of (h, b, out) \<Rightarrow> do {
     L \<leftarrow> map_of (levels sd b) p;
     (h, b) \<leftarrow> sweep_loop h b (head L);
     Some (True, (h, b, out)) })"

text \<open>
  The submitted order is owned by the call: a residual hands it to the book, otherwise it
  is destroyed when the call returns.
\<close>

definition submit ::
  "MatchAlgo \<Rightarrow> heap \<Rightarrow> OrderBook \<Rightarrow> addr \<Rightarrow> EventList \<Rightarrow> (EventList bstate) option"
where
  "submit algo h b incoming out = do {
     raw \<leftarrow> h incoming;
     let out = out @ [AckEv \<lparr>ack_id = order_id raw, ack_clord_id = clord_id raw\<rparr>];
     (h, b, out) \<leftarrow> match_aggressive algo h b incoming out;
     raw \<leftarrow> h incoming;
     (h, b, out) \<leftarrow> (if side raw = Buy then walk_asks (sweep Asks) (h, b, out)
                     else walk_bids (sweep Bids) (h, b, out));
     raw \<leftarrow> h incoming;
     if leaves_qty raw > 0 then do {
       (h, b) \<leftarrow> rest h b incoming;
       Some (h, b, out) }
     else Some (h(incoming := None), b, out) }"

section \<open>Allocation on queues\<close>

text \<open>What each algorithm gives to every order of a queue, from the queue's quantities.\<close>

fun fifo_alloc :: "u64 \<Rightarrow> u64 list \<Rightarrow> u64 list" where
  "fifo_alloc r [] = []"
| "fifo_alloc r (q # qs) = min r q # fifo_alloc (r - min r q) qs"

fun top_up :: "u64 \<Rightarrow> u64 list \<Rightarrow> u64 list \<Rightarrow> u64 list" where
  "top_up r (q # qs) (b # bs) = (b + min (q - b) r) # top_up (r - min (q - b) r) qs bs"
| "top_up r _ _ = []"

definition prorata_alloc :: "u64 \<Rightarrow> u64 list \<Rightarrow> u64 list" where
  "prorata_alloc r qs =
     (let tot = sum_list qs in
      if tot = 0 \<or> r = 0 then map (\<lambda>_. 0) qs
      else let to_fill = min r tot;
               base = map (\<lambda>q. (to_fill * q) div tot) qs
           in top_up (to_fill - sum_list base) qs base)"

definition level_alloc :: "MatchAlgo \<Rightarrow> u64 \<Rightarrow> u64 list \<Rightarrow> u64 list" where
  "level_alloc algo = (if algo = ProRata then prorata_alloc else fifo_alloc)"

definition mk_trade :: "Order \<Rightarrow> Price \<Rightarrow> entry \<Rightarrow> u64 \<Rightarrow> Event" where
  "mk_trade g px e q =
     TradeEv \<lparr>aggressor_id = order_id g, resting_id = order_id (snd e),
       aggressor_clord = clord_id g, resting_clord = clord_id (snd e),
       trade_price = px, trade_qty = q, aggressor_side = side g\<rparr>"

fun fill_queue :: "entry list \<Rightarrow> u64 list \<Rightarrow> entry list" where
  "fill_queue (e # xs) (q # qs) =
     (fst e, (snd e)\<lparr>leaves_qty := leaves_qty (snd e) - q\<rparr>) # fill_queue xs qs"
| "fill_queue xs _ = xs"

fun fill_trades :: "Order \<Rightarrow> Price \<Rightarrow> entry list \<Rightarrow> u64 list \<Rightarrow> EventList" where
  "fill_trades g px (e # xs) (q # qs) =
     (if q = 0 then [] else [mk_trade g px e q]) @ fill_trades g px xs qs"
| "fill_trades g px _ _ = []"

abbreviation leaves :: "entry list \<Rightarrow> u64 list" where
  "leaves xs \<equiv> map (\<lambda>e. leaves_qty (snd e)) xs"

text \<open>The whole match and submission on abstract books.\<close>

fun abs_match ::
  "(u64 \<Rightarrow> u64 list \<Rightarrow> u64 list) \<Rightarrow> Order \<Rightarrow> u64 \<Rightarrow> (Price \<times> entry list) list \<Rightarrow>
   (Price \<times> entry list) list \<times> u64 \<times> EventList"
where
  "abs_match al g r [] = ([], r, [])"
| "abs_match al g r ((p, xs) # ls) =
     (if xs = [] then abs_match al g r ls
      else if r = 0 \<or> \<not> crosses (side g) (price g) p then ((p, xs) # ls, r, [])
      else let qs = al r (leaves xs);
               r1 = r - sum_list qs;
               l1 = (p, fill_queue xs qs);
               t1 = fill_trades g p xs qs
           in if r1 = 0 then (l1 # ls, r1, t1)
              else let (ls', r', t') = abs_match al g r1 ls in (l1 # ls', r', t1 @ t'))"

definition sweep_levels :: "(Price \<times> entry list) list \<Rightarrow> (Price \<times> entry list) list" where
  "sweep_levels ls =
     filter (\<lambda>l. snd l \<noteq> []) (map (\<lambda>(p, xs). (p, filter (\<lambda>e. leaves_qty (snd e) \<noteq> 0) xs)) ls)"

fun opposite :: "BookSide \<Rightarrow> BookSide" where
  "opposite Bids = Asks"
| "opposite Asks = Bids"

definition abs_submit ::
  "(u64 \<Rightarrow> u64 list \<Rightarrow> u64 list) \<Rightarrow> addr \<Rightarrow> Order \<Rightarrow> abook \<Rightarrow> abook \<times> u64 \<times> EventList"
where
  "abs_submit al a v A =
     (let opp = opposite (own_side v);
          (ls, r, tr) = abs_match al v (leaves_qty v) (A opp);
          A1 = A(opp := sweep_levels ls);
          A2 = (if r = 0 then A1 else abs_rest a (v\<lparr>leaves_qty := r\<rparr>) A1)
      in (A2, r, AckEv \<lparr>ack_id = order_id v, ack_clord_id = clord_id v\<rparr> # tr))"

section \<open>Filling one level\<close>

lemma fill_queue_addrs [simp]: "map fst (fill_queue xs qs) = map fst xs"
  by (induction xs qs rule: fill_queue.induct) auto

lemma fill_queue_length [simp]: "length (fill_queue xs qs) = length xs"
  by (induction xs qs rule: fill_queue.induct) auto

lemma fill_queue_set_addrs [simp]: "fst ` set (fill_queue xs qs) = fst ` set xs"
  using fill_queue_addrs [of xs qs] by (metis list.set_map)

lemma fill_queue_Nil [simp]: "fill_queue xs [] = xs"
  by (cases xs) auto

lemma fill_trades_Nil [simp]: "fill_trades g px xs [] = []"
  by (cases xs) auto

lemma sum_leaves_fill_queue:
  "length qs = length xs \<Longrightarrow> sum_list (leaves (fill_queue xs qs)) = sum_list (leaves xs) - sum_list qs"
  by (induction xs qs rule: fill_queue.induct) (auto simp: algebra_simps)

lemma emit_trade_mk:
  "payload g' = payload g \<Longrightarrow> snd e = payload v \<Longrightarrow>
     emit_trade out g' v px q = out @ [mk_trade g px e q]"
  by (auto simp: emit_trade_def mk_trade_def dest: payload_eqD)

lemma mk_trade_leaves [simp]: "mk_trade (g\<lparr>leaves_qty := r\<rparr>) px e q = mk_trade g px e q"
  by (simp add: mk_trade_def)

lemma fill_trades_leaves [simp]:
  "fill_trades (g\<lparr>leaves_qty := r\<rparr>) px xs qs = fill_trades g px xs qs"
  by (induction g px xs qs rule: fill_trades.induct) auto

text \<open>The two loops walk a segment from its first node, given the fills they hand out.\<close>

lemma word_le_add_min:
  "filled \<le> (av::u64) \<Longrightarrow> filled + min (av - filled) q \<le> av"
  using word_plus_mono_right [of "min (av - filled) q" "av - filled" filled] by simp

lemma fifo_alloc_zero: "fifo_alloc 0 qs = map (\<lambda>_. 0) qs"
  by (induction qs) auto

lemma fill_queue_zeros [simp]: "fill_queue xs (map (\<lambda>_. 0) ys) = xs"
  by (induction xs "map (\<lambda>_. 0::u64) ys" arbitrary: ys rule: fill_queue.induct) auto

lemma fill_trades_zeros [simp]: "fill_trades g px xs (map (\<lambda>_. 0) ys) = []"
  by (induction g px xs "map (\<lambda>_. 0::u64) ys" arbitrary: ys rule: fill_trades.induct) auto

lemma sum_list_zeros [simp]: "sum_list (map (\<lambda>_. 0) ys) = (0::'a::monoid_add)"
  by (induction ys) auto

lemma fifo_loop_step:
  assumes "filled < available" and w: "h a = Some w" "payload w = v" and g: "h aggr = Some g'" "payload g' = payload g"
  defines "q \<equiv> min (available - filled) (leaves_qty w)"
  shows "fifo_loop aggr px available h (Some a) filled delta out =
    fifo_loop aggr px available (h(a \<mapsto> w\<lparr>leaves_qty := leaves_qty w - q\<rparr>)) (nxt w) (filled + q) (delta - q)
      (if q = 0 then out else out @ [mk_trade g px (a, v) q])"
proof (cases "q = 0")
  case True
  then have "h(a \<mapsto> w\<lparr>leaves_qty := leaves_qty w - q\<rparr>) = h" using w(1) by (simp add: fun_upd_idem)
  with True assms(1) w(1) show ?thesis by (simp add: fifo_loop.simps [of _ _ _ _ "Some a"] q_def [symmetric])
next
  case False
  have "emit_trade out g' w px q = out @ [mk_trade g px (a, v) q]"
    using g(2) by (rule emit_trade_mk) (simp add: w(2))
  with False assms(1) w(1) g(1) show ?thesis by (simp add: fifo_loop.simps [of _ _ _ _ "Some a"] q_def [symmetric])
qed

lemma fifo_loop_seg:
  assumes "lseg h pr cur xs ls None" and "distinct (map fst xs)" and "aggr \<notin> fst ` set xs"
    and "h aggr = Some g'" and "payload g' = payload g" and "filled \<le> available"
  shows "\<exists>h'. fifo_loop aggr px available h cur filled delta out =
       Some (h', filled + sum_list (fifo_alloc (available - filled) (leaves xs)),
             delta - sum_list (fifo_alloc (available - filled) (leaves xs)),
             out @ fill_trades g px xs (fifo_alloc (available - filled) (leaves xs))) \<and>
     lseg h' pr cur (fill_queue xs (fifo_alloc (available - filled) (leaves xs))) ls None \<and>
     (\<forall>b. b \<notin> fst ` set xs \<longrightarrow> h' b = h b) \<and> dom h' = dom h"
  using assms
proof (induction xs arbitrary: h pr cur filled delta out)
  case Nil
  then show ?case by (simp add: fifo_loop.simps)
next
  case (Cons e xs)
  obtain a v where e: "e = (a, v)" by (cases e)
  from Cons.prems obtain w where cur: "cur = Some a" and w: "h a = Some w" "payload w = v"
    "prv w = pr" and seg: "lseg h (Some a) (nxt w) xs ls None"
    and d: "a \<notin> fst ` set xs" "distinct (map fst xs)" "aggr \<noteq> a" "aggr \<notin> fst ` set xs"
    by (auto simp: e)
  have lv: "leaves_qty v = leaves_qty w" using w(2) by auto
  define q where "q = min (available - filled) (leaves_qty w)"
  show ?case
  proof (cases "filled < available")
    case False
    with Cons.prems have "available - filled = 0" by auto
    with False Cons.prems show ?thesis
      unfolding \<open>available - filled = 0\<close> fifo_alloc_zero cur
      by (simp add: fifo_loop.simps [of _ _ _ _ "Some a"] comp_def del: lseg.simps)
  next
    case True
    define h1 where "h1 = h(a \<mapsto> w\<lparr>leaves_qty := leaves_qty w - q\<rparr>)"
    define out1 where "out1 = (if q = 0 then out else out @ [mk_trade g px e q])"
    have step: "fifo_loop aggr px available h cur filled delta out =
        fifo_loop aggr px available h1 (nxt w) (filled + q) (delta - q) out1"
      using fifo_loop_step [OF True w(1,2) Cons.prems(4,5)] by (simp add: cur e q_def h1_def out1_def)
    have "lseg h1 (Some a) (nxt w) xs ls None" using seg d(1) by (simp add: h1_def)
    moreover have "h1 aggr = Some g'" using Cons.prems(4) d(3) by (simp add: h1_def)
    moreover have "filled + q \<le> available"
      unfolding q_def using Cons.prems(6) by (rule word_le_add_min)
    ultimately obtain h' where IH: "fifo_loop aggr px available h1 (nxt w) (filled + q) (delta - q) out1 =
       Some (h', filled + q + sum_list (fifo_alloc (available - (filled + q)) (leaves xs)),
             delta - q - sum_list (fifo_alloc (available - (filled + q)) (leaves xs)),
             out1 @ fill_trades g px xs (fifo_alloc (available - (filled + q)) (leaves xs)))"
      "lseg h' (Some a) (nxt w) (fill_queue xs (fifo_alloc (available - (filled + q)) (leaves xs))) ls None"
      "\<forall>b. b \<notin> fst ` set xs \<longrightarrow> h' b = h1 b" "dom h' = dom h1"
      using Cons.IH [of h1 "Some a" "nxt w" "filled + q" "delta - q" out1] Cons.prems(5) d by blast
    have h'a: "h' a = Some (w\<lparr>leaves_qty := leaves_qty w - q\<rparr>)" using IH(3) d(1) by (simp add: h1_def)
    have al: "fifo_alloc (available - filled) (leaves (e # xs)) =
        q # fifo_alloc (available - (filled + q)) (leaves xs)"
      by (simp add: e lv q_def algebra_simps)
    show ?thesis
      unfolding al step IH(1) using IH(2-4) h'a w lv cur
      by (auto simp: e out1_def h1_def algebra_simps)
  qed
qed

definition slot_of :: "entry \<Rightarrow> u64 \<Rightarrow> Slot" where
  "slot_of e q = \<lparr>slot_order = fst e, orig_leaves = leaves_qty (snd e), alloc = q\<rparr>"

lemma snapshot_seg:
  "lseg h pr cur xs ls None \<Longrightarrow>
     snapshot h cur slots tot = Some (slots @ map (\<lambda>e. slot_of e 0) xs, tot + sum_list (leaves xs))"
proof (induction xs arbitrary: pr cur slots tot)
  case Nil
  then show ?case by (simp add: snapshot.simps)
next
  case (Cons e xs)
  from Cons.prems obtain w where w: "cur = Some (fst e)" "h (fst e) = Some w" "payload w = snd e"
    "lseg h (Some (fst e)) (nxt w) xs ls None" by auto
  have "leaves_qty (snd e) = leaves_qty w" by (simp add: w(3) [symmetric])
  with Cons.IH [OF w(4)] w(1,2) show ?case
    by (simp add: snapshot.simps [of h "Some (fst e)"] slot_of_def algebra_simps)
qed

lemma share_slots_eq:
  "share_slots tf tot (map (\<lambda>e. slot_of e 0) xs) acc =
     (map (\<lambda>e. slot_of e (tf * leaves_qty (snd e) div tot)) xs,
      acc + sum_list (map (\<lambda>q. tf * q div tot) (leaves xs)))"
  by (induction xs arbitrary: acc) (simp_all add: slot_of_def Let_def add.assoc)

lemma top_up_length: "length bs = length qs \<Longrightarrow> length (top_up r qs bs) = length qs"
  by (induction r qs bs rule: top_up.induct) auto

lemma top_up_zero: "length bs = length qs \<Longrightarrow> top_up 0 qs bs = bs"
proof (induction qs arbitrary: bs)
  case (Cons q qs)
  then show ?case by (cases bs) auto
qed simp

lemma spread_residual_eq:
  "length bs = length xs \<Longrightarrow>
     spread_residual r (map2 slot_of xs bs) = map2 slot_of xs (top_up r (leaves xs) bs)"
proof (induction xs arbitrary: r bs)
  case (Cons e xs)
  then obtain c cs where bs: "bs = c # cs" by (cases bs) auto
  show ?case
  proof (cases "r = 0")
    case True
    with Cons.prems show ?thesis by (simp add: top_up_zero bs)
  next
    case False
    with Cons show ?thesis by (simp add: bs slot_of_def Let_def)
  qed
qed simp

lemma fill_slots_seg:
  assumes "lseg h pr cur xs ls None" and "distinct (map fst xs)" and "aggr \<notin> fst ` set xs"
    and "h aggr = Some g'" and "payload g' = payload g" and "length qs = length xs"
  shows "\<exists>h'. fill_slots aggr px (map2 slot_of xs qs) h filled delta out =
       Some (h', filled + sum_list qs, delta - sum_list qs, out @ fill_trades g px xs qs) \<and>
     lseg h' pr cur (fill_queue xs qs) ls None \<and>
     (\<forall>b. b \<notin> fst ` set xs \<longrightarrow> h' b = h b) \<and> dom h' = dom h"
  using assms
proof (induction xs arbitrary: h pr cur qs filled delta out)
  case Nil
  then show ?case by simp
next
  case (Cons e xs)
  obtain a v where e: "e = (a, v)" by (cases e)
  from Cons.prems obtain q ps where qs: "qs = q # ps" "length ps = length xs" by (cases qs) auto
  from Cons.prems obtain w where cur: "cur = Some a" and w: "h a = Some w" "payload w = v"
    "prv w = pr" and seg: "lseg h (Some a) (nxt w) xs ls None"
    and d: "a \<notin> fst ` set xs" "distinct (map fst xs)" "aggr \<noteq> a" "aggr \<notin> fst ` set xs"
    by (auto simp: e)
  have lv: "leaves_qty v = leaves_qty w" using w(2) by auto
  define h1 where "h1 = h(a \<mapsto> w\<lparr>leaves_qty := leaves_qty w - q\<rparr>)"
  define out1 where "out1 = (if q = 0 then out else out @ [mk_trade g px e q])"
  have step: "fill_slots aggr px (map2 slot_of (e # xs) qs) h filled delta out =
      fill_slots aggr px (map2 slot_of xs ps) h1 (filled + q) (delta - q) out1"
  proof (cases "q = 0")
    case True
    then have "h1 = h" using w(1) by (simp add: h1_def fun_upd_idem)
    with True show ?thesis by (simp add: qs slot_of_def out1_def)
  next
    case False
    have "emit_trade out g' w px q = out @ [mk_trade g px e q]"
      using Cons.prems(5) by (rule emit_trade_mk) (simp add: e w(2))
    with False w(1) Cons.prems(4) show ?thesis
      by (simp add: qs slot_of_def out1_def h1_def e)
  qed
  have "lseg h1 (Some a) (nxt w) xs ls None" using seg d(1) by (simp add: h1_def)
  moreover have "h1 aggr = Some g'" using Cons.prems(4) d(3) by (simp add: h1_def)
  ultimately obtain h' where IH: "fill_slots aggr px (map2 slot_of xs ps) h1 (filled + q) (delta - q) out1 =
       Some (h', filled + q + sum_list ps, delta - q - sum_list ps, out1 @ fill_trades g px xs ps)"
    "lseg h' (Some a) (nxt w) (fill_queue xs ps) ls None"
    "\<forall>b. b \<notin> fst ` set xs \<longrightarrow> h' b = h1 b" "dom h' = dom h1"
    using Cons.IH [of h1 "Some a" "nxt w" ps "filled + q" "delta - q" out1] Cons.prems(5) d qs(2)
    by blast
  have h'a: "h' a = Some (w\<lparr>leaves_qty := leaves_qty w - q\<rparr>)" using IH(3) d(1) by (simp add: h1_def)
  show ?case
    unfolding step IH(1) using IH(2-4) h'a w lv cur
    by (auto simp: e qs(1) out1_def h1_def algebra_simps)
qed

lemma prorata_alloc_length [simp]: "length (prorata_alloc r qs) = length qs"
  by (simp add: prorata_alloc_def Let_def top_up_length)

lemma fifo_alloc_length [simp]: "length (fifo_alloc r qs) = length qs"
  by (induction r qs rule: fifo_alloc.induct) auto

lemma level_alloc_length [simp]: "length (level_alloc algo r qs) = length qs"
  by (simp add: level_alloc_def)

lemma map_slot_of: "map (\<lambda>e. slot_of e (f e)) xs = map2 slot_of xs (map f xs)"
  by (induction xs) auto

definition fill_level ::
  "MatchAlgo \<Rightarrow> heap \<Rightarrow> PriceLevel \<Rightarrow> addr \<Rightarrow> Price \<Rightarrow> Quantity \<Rightarrow> EventList \<Rightarrow>
   (heap \<times> PriceLevel \<times> Quantity \<times> EventList) option"
where
  "fill_level algo = (if algo = ProRata then fill_level_prorata else fill_level_fifo)"

text \<open>Both algorithms: the level, the aggressor, the trades and the frame after a fill.\<close>

lemma fill_level_fifo_rep:
  fixes available :: Quantity
  assumes rep: "level_rep h L xs" and g: "h aggr = Some g" and fresh: "aggr \<notin> fst ` set xs"
  defines "qs \<equiv> fifo_alloc available (leaves xs)"
  shows "\<exists>h' L'. fill_level_fifo h L aggr px available out =
       Some (h', L', sum_list qs, out @ fill_trades g px xs qs) \<and>
     level_rep h' L' (fill_queue xs qs) \<and>
     h' aggr = Some (g\<lparr>leaves_qty := leaves_qty g - sum_list qs\<rparr>) \<and>
     (\<forall>b. b \<noteq> aggr \<longrightarrow> b \<notin> fst ` set xs \<longrightarrow> h' b = h b) \<and> dom h' = dom h"
proof -
  have "lseg h None (head L) xs (tail L) None" "distinct (map fst xs)"
    using rep by (simp_all add: level_rep_def)
  from fifo_loop_seg [OF this fresh g refl, of 0 available px 0 out] obtain h1 where 1:
    "fifo_loop aggr px available h (head L) 0 0 out =
       Some (h1, sum_list qs, - sum_list qs, out @ fill_trades g px xs qs)"
    "lseg h1 None (head L) (fill_queue xs qs) (tail L) None"
    "\<forall>b. b \<notin> fst ` set xs \<longrightarrow> h1 b = h b" "dom h1 = dom h"
    by (auto simp: qs_def)
  have g1: "h1 aggr = Some g" using 1(3) fresh g by simp
  have "level_rep (h1(aggr \<mapsto> g\<lparr>leaves_qty := leaves_qty g - sum_list qs\<rparr>))
      (note_qty_delta L (- sum_list qs)) (fill_queue xs qs)"
    using 1(2) rep fresh unfolding level_rep_def note_qty_delta_def
    by (simp add: sum_leaves_fill_queue qs_def)
  then show ?thesis
    using 1(1,3,4) g1 g by (auto simp: fill_level_fifo_def)
qed

lemma fill_level_prorata_rep:
  fixes available :: Quantity
  assumes rep: "level_rep h L xs" and g: "h aggr = Some g" and fresh: "aggr \<notin> fst ` set xs"
  defines "qs \<equiv> prorata_alloc available (leaves xs)"
  shows "\<exists>h' L'. fill_level_prorata h L aggr px available out =
       Some (h', L', sum_list qs, out @ fill_trades g px xs qs) \<and>
     level_rep h' L' (fill_queue xs qs) \<and>
     h' aggr = Some (g\<lparr>leaves_qty := leaves_qty g - sum_list qs\<rparr>) \<and>
     (\<forall>b. b \<noteq> aggr \<longrightarrow> b \<notin> fst ` set xs \<longrightarrow> h' b = h b) \<and> dom h' = dom h"
proof -
  have seg: "lseg h None (head L) xs (tail L) None" and dist: "distinct (map fst xs)"
    using rep by (simp_all add: level_rep_def)
  define tot where "tot = sum_list (leaves xs)"
  have snap: "snapshot h (head L) [] 0 = Some (map (\<lambda>e. slot_of e 0) xs, tot)"
    using snapshot_seg [OF seg, of "[]" 0] by (simp add: tot_def)
  show ?thesis
  proof (cases "tot = 0 \<or> available = 0")
    case True
    then have z: "qs = map (\<lambda>_. 0) xs"
      by (auto simp: qs_def prorata_alloc_def tot_def comp_def)
    show ?thesis
      unfolding z using True rep g snap by (simp add: fill_level_prorata_def)
  next
    case False
    define tf where "tf = min available tot"
    define base where "base = map (\<lambda>q. tf * q div tot) (leaves xs)"
    have qs: "qs = top_up (tf - sum_list base) (leaves xs) base"
      using False by (simp add: qs_def prorata_alloc_def tot_def tf_def base_def Let_def)
    have len: "length qs = length xs" by (simp add: qs_def)
    have share: "share_slots tf tot (map (\<lambda>e. slot_of e 0) xs) 0 = (map2 slot_of xs base, sum_list base)"
      unfolding share_slots_eq by (simp add: map_slot_of base_def comp_def)
    have spread: "spread_residual (tf - sum_list base) (map2 slot_of xs base) = map2 slot_of xs qs"
      unfolding qs by (rule spread_residual_eq) (simp add: base_def)
    from fill_slots_seg [OF seg dist fresh g refl len, of px 0 0 out] obtain h1 where 1:
      "fill_slots aggr px (map2 slot_of xs qs) h 0 0 out =
         Some (h1, sum_list qs, - sum_list qs, out @ fill_trades g px xs qs)"
      "lseg h1 None (head L) (fill_queue xs qs) (tail L) None"
      "\<forall>b. b \<notin> fst ` set xs \<longrightarrow> h1 b = h b" "dom h1 = dom h"
      by auto
    have g1: "h1 aggr = Some g" using 1(3) fresh g by simp
    have "level_rep (h1(aggr \<mapsto> g\<lparr>leaves_qty := leaves_qty g - sum_list qs\<rparr>))
        (note_qty_delta L (- sum_list qs)) (fill_queue xs qs)"
      using 1(2) rep fresh len unfolding level_rep_def note_qty_delta_def
      by (simp add: sum_leaves_fill_queue)
    moreover have "fill_level_prorata h L aggr px available out =
       Some (h1(aggr \<mapsto> g\<lparr>leaves_qty := leaves_qty g - sum_list qs\<rparr>),
             note_qty_delta L (- sum_list qs), sum_list qs, out @ fill_trades g px xs qs)"
      using False 1(1) g1
      by (simp add: fill_level_prorata_def snap tf_def [symmetric] share spread)
    ultimately show ?thesis
      using 1(3,4) g by auto
  qed
qed

lemma fill_level_rep:
  fixes available :: Quantity and algo :: MatchAlgo
  assumes rep: "level_rep h L xs" and g: "h aggr = Some g" and fresh: "aggr \<notin> fst ` set xs"
  defines "qs \<equiv> level_alloc algo available (leaves xs)"
  shows "\<exists>h' L'. fill_level algo h L aggr px available out =
       Some (h', L', sum_list qs, out @ fill_trades g px xs qs) \<and>
     level_rep h' L' (fill_queue xs qs) \<and>
     h' aggr = Some (g\<lparr>leaves_qty := leaves_qty g - sum_list qs\<rparr>) \<and>
     (\<forall>b. b \<noteq> aggr \<longrightarrow> b \<notin> fst ` set xs \<longrightarrow> h' b = h b) \<and> dom h' = dom h"
  using fill_level_prorata_rep [OF rep g fresh, of px available out]
    fill_level_fifo_rep [OF rep g fresh, of px available out]
  unfolding qs_def fill_level_def level_alloc_def by (cases "algo = ProRata") simp_all

end
