(* ===== verification/OB_Matcher_Refinement.thy ===== *)
theory OB_Matcher_Refinement
  imports OB_Matcher
begin

text \<open>
  The code of \<^verbatim>\<open>Matcher::submit\<close> refines the abstract submission: on a well-formed book
  the matching walk, the sweep and the final \<^verbatim>\<open>rest\<close> all return, and memory, book and
  events afterwards represent what \<open>abs_submit\<close> computes on the abstract book. Every
  order the book gives up is freed and nothing else is touched.
\<close>

section \<open>Levels of a book during a walk\<close>

lemma index_rep_alt:
  "index_rep ix es \<longleftrightarrow>
     (\<forall>k a. ix k = Some a \<longleftrightarrow> (a, k) \<in> set (map (\<lambda>e. (fst e, index_key (snd e))) es))"
  unfolding index_rep_def by (intro all_cong1 arg_cong2 [where f = "(=)"] refl) force

text \<open>An entry keeps its identity when only its quantities change.\<close>

definition same_order :: "entry \<Rightarrow> entry \<Rightarrow> bool" where
  "same_order e e' \<longleftrightarrow> fst e = fst e' \<and> order_id (snd e) = order_id (snd e') \<and> price (snd e) = price (snd e') \<and>
     own_side (snd e) = own_side (snd e') \<and> index_key (snd e) = index_key (snd e')"

lemma same_order_fill_queue: "list_all2 same_order xs (fill_queue xs qs)"
  by (induction xs qs rule: fill_queue.induct)
    (auto simp: same_order_def own_side_def index_key_def list_all2_same)

lemma same_order_maps:
  assumes "list_all2 same_order xs ys"
  shows "map fst ys = map fst xs"
    "map (\<lambda>e. (fst e, index_key (snd e))) ys = map (\<lambda>e. (fst e, index_key (snd e))) xs"
  using assms by (induction rule: list_all2_induct) (auto simp: same_order_def)

lemma same_order_mem:
  "list_all2 same_order xs ys \<Longrightarrow> e \<in> set ys \<Longrightarrow> \<exists>e' \<in> set xs. same_order e' e"
  by (induction rule: list_all2_induct) auto

lemma book_map_mid:
  assumes "A sd = dn @ (p, xs) # ls" and "map f ys = map f xs"
  shows "map f (book_entries (A(sd := dn @ (p, ys) # ls))) = map f (book_entries A)"
  using assms by (cases sd) (simp_all add: book_entries_def side_entries_def)

lemma put_queue_mid:
  assumes "abook_wf A" and "A sd = dn @ (p, xs) # ls"
  shows "put_queue sd p ys A = A(sd := dn @ (p, ys) # ls)"
  using abook_wfD(1) [OF assms(1), of sd] assms(2)
  by (simp add: put_queue_def price_order.map_put_mid)

lemma abook_wf_relevel:
  assumes wf: "abook_wf A" and A: "A sd = dn @ (p, xs) # ls" and same: "list_all2 same_order xs ys"
  shows "abook_wf (A(sd := dn @ (p, ys) # ls))"
proof -
  have "distinct (map fst (book_entries (A(sd := dn @ (p, ys) # ls))))"
    using abook_wfD(2) [OF wf] book_map_mid [of A sd dn p xs ls fst, OF A same_order_maps(1) [OF same]]
    by simp
  moreover have "price (snd e) = p \<and> own_side (snd e) = sd" if "e \<in> set ys" for e
  proof -
    from same_order_mem [OF same that] obtain e' where "e' \<in> set xs" "same_order e' e" by blast
    with abook_wfD(3,4) [OF wf, of p xs sd e'] show ?thesis by (simp add: A same_order_def)
  qed
  ultimately show ?thesis
    using abook_wf_put_queue [OF wf, of ys p sd] unfolding put_queue_mid [OF wf A] by blast
qed

lemma book_rep_relevel:
  assumes rep: "book_rep h b A" and A: "A sd = dn @ (p, xs) # ls"
    and lvl: "level_rep h' L ys" and same: "list_all2 same_order xs ys"
    and frame: "\<forall>c. c \<noteq> x \<longrightarrow> c \<notin> fst ` set xs \<longrightarrow> h' c = h c"
    and x: "x \<notin> fst ` set (book_entries A)"
  shows "book_rep h' (put_level sd p L b) (A(sd := dn @ (p, ys) # ls))"
proof -
  note wf = book_repD(2) [OF rep]
  have mem: "(p, xs) \<in> set (A sd)" by (simp add: A)
  have "levels_rep h' (put_level sd p L b) (put_queue sd p ys A)"
    using book_repD(1) [OF rep] wf lvl
  proof (rule levels_rep_put)
    fix sd' q zs c
    assume z: "(q, zs) \<in> set (A sd')" "sd' \<noteq> sd \<or> q \<noteq> p" "c \<in> fst ` set zs"
    then have "c \<notin> fst ` set xs" using queue_disjoint [OF wf z(1) mem _ z(3)] by auto
    moreover have "c \<noteq> x" using queue_addrs [of q zs A sd'] z x by blast
    ultimately show "h' c = h c" using frame by blast
  qed
  moreover have "index_rep (index b) (book_entries (A(sd := dn @ (p, ys) # ls)))"
    using book_repD(3) [OF rep]
      book_map_mid [of A sd dn p xs ls "\<lambda>e. (fst e, index_key (snd e))" ys,
        OF A same_order_maps(2) [OF same]]
    unfolding index_rep_alt by simp
  ultimately show ?thesis
    using abook_wf_relevel [OF wf A same] by (simp add: book_rep_def put_queue_mid [OF wf A])
qed

lemma abook_wf_drop:
  assumes wf: "abook_wf A" and A: "A sd = dn @ (p, []) # ls"
  shows "abook_wf (A(sd := dn @ ls))" "book_entries (A(sd := dn @ ls)) = book_entries A"
proof -
  show es: "book_entries (A(sd := dn @ ls)) = book_entries A"
    using A by (cases sd) (simp_all add: book_entries_def side_entries_def)
  have "sorted_wrt (price_before sd') (map fst ((A(sd := dn @ ls)) sd'))" for sd'
    using abook_wfD(1) [OF wf, of sd'] A by (fastforce simp: sorted_wrt_append)
  moreover have "price (snd e) = q \<and> own_side (snd e) = sd'"
    if "(q, xs) \<in> set ((A(sd := dn @ ls)) sd')" "e \<in> set xs" for sd' q xs e
    using that abook_wfD(3,4) [OF wf, of q xs sd' e] A by (auto split: if_splits)
  ultimately show "abook_wf (A(sd := dn @ ls))"
    using abook_wfD(2) [OF wf] unfolding abook_wf_def es by blast
qed

lemma book_rep_drop:
  assumes rep: "book_rep h b A" and A: "A sd = dn @ (p, []) # ls"
  shows "book_rep h (drop_level sd p b) (A(sd := dn @ ls))"
proof -
  note wf = book_repD(2) [OF rep]
  have r: "rel_map (\<lambda>p. level_rep h) (levels sd' b) (A sd')" for sd'
    using book_repD(1) [OF rep] by (simp add: levels_rep_def)
  from r [of sd] A obtain m1 L m2 where m: "levels sd b = m1 @ (p, L) # m2"
    "rel_map (\<lambda>p. level_rep h) m1 dn" "rel_map (\<lambda>p. level_rep h) m2 ls"
    by (metis rel_map_split_right)
  have "sorted_wrt (price_before sd) (map fst (levels sd b))"
    using abook_wfD(1) [OF wf] rel_map_keys [OF r] by metis
  then have "map_erase p (levels sd b) = m1 @ m2"
    unfolding m by (rule price_order.map_erase_mid)
  moreover have "rel_map (\<lambda>p. level_rep h) (m1 @ m2) (dn @ ls)"
    using m(2,3) by (simp add: rel_map_append [OF rel_map_length [OF m(2)]])
  ultimately have "levels_rep h (drop_level sd p b) (A(sd := dn @ ls))"
    using r by (simp add: levels_rep_def drop_level_def)
  then show ?thesis
    using abook_wf_drop [OF wf A] book_repD(3) [OF rep] by (simp add: book_rep_def)
qed

lemma book_rep_level:
  assumes rep: "book_rep h b A" and A: "A sd = dn @ (p, xs) # ls"
  obtains L where "map_of (levels sd b) p = Some L" "level_rep h L xs" "level_empty L \<longleftrightarrow> xs = []"
proof -
  have "(p, xs) \<in> set (A sd)" by (simp add: A)
  from levels_rep_find [OF book_repD(1,2) [OF rep] this] obtain L
    where L: "map_of (levels sd b) p = Some L" "level_rep h L xs" .
  from that [OF L level_rep_empty [OF L(2)]] show thesis .
qed

section \<open>The matching walk\<close>

lemma on_level_alt:
  "on_level algo sd aggr p (h, b, out) = do {
     g \<leftarrow> h aggr;
     if leaves_qty g = 0 \<or> \<not> crosses (side g) (price g) p then Some (False, (h, b, out))
     else do {
       L \<leftarrow> map_of (levels sd b) p;
       (h, L, _, out) \<leftarrow> fill_level algo h L aggr p (leaves_qty g) out;
       g \<leftarrow> h aggr;
       Some (leaves_qty g > 0, (h, put_level sd p L b, out)) } }"
  by (cases "h aggr"; cases "algo = ProRata") (simp_all add: on_level_def fill_level_def)

lemma on_level_rep:
  fixes algo :: MatchAlgo
  assumes rep: "book_rep h b A" and A: "A sd = dn @ (p, xs) # ls"
    and g: "h aggr = Some g" and fresh: "aggr \<notin> fst ` set (book_entries A)"
    and go: "leaves_qty g \<noteq> 0" "crosses (side g) (price g) p"
  defines "qs \<equiv> level_alloc algo (leaves_qty g) (leaves xs)"
  shows "\<exists>h' b'. on_level algo sd aggr p (h, b, out) =
       Some (leaves_qty g - sum_list qs > 0, (h', b', out @ fill_trades g p xs qs)) \<and>
     book_rep h' b' (A(sd := dn @ (p, fill_queue xs qs) # ls)) \<and>
     h' aggr = Some (g\<lparr>leaves_qty := leaves_qty g - sum_list qs\<rparr>) \<and>
     (\<forall>c. c \<noteq> aggr \<longrightarrow> c \<notin> fst ` set (book_entries A) \<longrightarrow> h' c = h c) \<and> dom h' = dom h"
proof -
  obtain L where L: "map_of (levels sd b) p = Some L" "level_rep h L xs"
    using rep A by (rule book_rep_level)
  have sub: "fst ` set xs \<subseteq> fst ` set (book_entries A)"
    using queue_addrs [of p xs A sd] by (simp add: A)
  then have "aggr \<notin> fst ` set xs" using fresh by blast
  from fill_level_rep [OF L(2) g this, of algo p "leaves_qty g" out] obtain h' L' where 1:
    "fill_level algo h L aggr p (leaves_qty g) out =
       Some (h', L', sum_list qs, out @ fill_trades g p xs qs)"
    "level_rep h' L' (fill_queue xs qs)"
    "h' aggr = Some (g\<lparr>leaves_qty := leaves_qty g - sum_list qs\<rparr>)"
    "\<forall>c. c \<noteq> aggr \<longrightarrow> c \<notin> fst ` set xs \<longrightarrow> h' c = h c" "dom h' = dom h"
    unfolding qs_def by blast
  have "book_rep h' (put_level sd p L' b) (A(sd := dn @ (p, fill_queue xs qs) # ls))"
    using rep A 1(2) same_order_fill_queue 1(4) fresh by (rule book_rep_relevel)
  moreover have "on_level algo sd aggr p (h, b, out) =
      Some (leaves_qty g - sum_list qs > 0, (h', put_level sd p L' b, out @ fill_trades g p xs qs))"
    using g go L(1) 1(1,3) by (simp add: on_level_alt)
  ultimately show ?thesis
    using 1(3,4,5) sub by blast
qed

lemma abs_match_leaves [simp]: "abs_match al (g\<lparr>leaves_qty := x\<rparr>) r ls = abs_match al g r ls"
proof (induction ls arbitrary: r)
  case (Cons l ls)
  then show ?case by (cases l) (simp add: Let_def)
qed simp

lemma book_addrs_fill:
  assumes "A sd = dn @ (p, xs) # ls"
  shows "fst ` set (book_entries (A(sd := dn @ (p, fill_queue xs qs) # ls))) = fst ` set (book_entries A)"
  using arg_cong [where f = set,
      OF book_map_mid [of A sd dn p xs ls fst "fill_queue xs qs", OF assms fill_queue_addrs]]
  by (simp only: list.set_map)

text \<open>A walk over the levels, one level at a time.\<close>

lemma abs_match_cases:
  assumes "abs_match al g r ((p, xs) # ls) = (ls', r', tr)"
  obtains (empty) "xs = []" "abs_match al g r ls = (ls', r', tr)"
  | (stop) "xs \<noteq> []" "r = 0 \<or> \<not> crosses (side g) (price g) p" "ls' = (p, xs) # ls" "r' = r" "tr = []"
  | (exact) "xs \<noteq> []" "r \<noteq> 0" "crosses (side g) (price g) p" "r = sum_list (al r (leaves xs))"
      "ls' = (p, fill_queue xs (al r (leaves xs))) # ls" "r' = 0"
      "tr = fill_trades g p xs (al r (leaves xs))"
  | (more) ls2 tr2 where "xs \<noteq> []" "r \<noteq> 0" "crosses (side g) (price g) p"
      "r \<noteq> sum_list (al r (leaves xs))"
      "abs_match al g (r - sum_list (al r (leaves xs))) ls = (ls2, r', tr2)"
      "ls' = (p, fill_queue xs (al r (leaves xs))) # ls2"
      "tr = fill_trades g p xs (al r (leaves xs)) @ tr2"
proof -
  let ?qs = "al r (leaves xs)"
  obtain ls2 r2 tr2 where m: "abs_match al g (r - sum_list ?qs) ls = (ls2, r2, tr2)"
    by (rule prod_cases3)
  consider "xs = []" | "xs \<noteq> []" "r = 0 \<or> \<not> crosses (side g) (price g) p"
    | "xs \<noteq> []" "r \<noteq> 0" "crosses (side g) (price g) p" "r = sum_list ?qs"
    | "xs \<noteq> []" "r \<noteq> 0" "crosses (side g) (price g) p" "r \<noteq> sum_list ?qs"
    by blast
  then show thesis
  proof cases
    case 1
    with assms show thesis by (intro empty) simp_all
  next
    case 2
    with assms show thesis by (intro stop) auto
  next
    case 3
    then have z: "r - sum_list ?qs = 0" by simp
    with assms 3(1-3) have "ls' = (p, fill_queue xs ?qs) # ls" "r' = 0" "tr = fill_trades g p xs ?qs"
      by (simp_all add: Let_def z del: right_minus_eq)
    with 3 show thesis by (rule exact)
  next
    case 4
    with assms m show thesis by (intro more [of ls2 tr2]) (simp_all add: Let_def)
  qed
qed

text \<open>
  What the matching walk over the levels \<open>ps\<close> achieves: it returns, turns the book \<open>A\<close> into
  \<open>A'\<close>, leaves the aggressor as \<open>g'\<close> and touches no order outside the book.
\<close>

definition walk_matches ::
  "MatchAlgo \<Rightarrow> BookSide \<Rightarrow> addr \<Rightarrow> Price list \<Rightarrow> EventList bstate \<Rightarrow> abook \<Rightarrow> abook \<Rightarrow> Order \<Rightarrow> EventList \<Rightarrow> bool"
where
  "walk_matches algo sd aggr ps s A A' g' tr \<longleftrightarrow> (case s of (h, b, out) \<Rightarrow>
     \<exists>h' b'. walk_from sd (on_level algo sd aggr) ps (h, b, out) = Some (h', b', out @ tr) \<and>
       book_rep h' b' A' \<and> h' aggr = Some g' \<and>
       (\<forall>c. c \<noteq> aggr \<longrightarrow> c \<notin> fst ` set (book_entries A) \<longrightarrow> h' c = h c) \<and> dom h' = dom h)"

lemma walk_matches_skip:
  assumes rep: "book_rep h b A" and A: "A sd = dn @ (p, []) # ls"
    and rest: "walk_matches algo sd aggr ps (h, drop_level sd p b, out) (A(sd := dn @ ls)) A' g' tr"
  shows "walk_matches algo sd aggr (p # ps) (h, b, out) A A' g' tr"
proof -
  obtain L where L: "map_of (levels sd b) p = Some L" "level_empty L"
    by (rule book_rep_level [OF rep A]) simp
  then show ?thesis
    using rest by (simp add: walk_matches_def abook_wf_drop(2) [OF book_repD(2) [OF rep] A])
qed

lemma walk_matches_stop:
  assumes rep: "book_rep h b A" and A: "A sd = dn @ (p, xs) # ls" and xs: "xs \<noteq> []" and g: "h aggr = Some g"
    and stop: "leaves_qty g = 0 \<or> \<not> crosses (side g) (price g) p"
  shows "walk_matches algo sd aggr (p # ps) (h, b, out) A A g []"
proof -
  obtain L where L: "map_of (levels sd b) p = Some L" "level_empty L \<longleftrightarrow> xs = []"
    by (rule book_rep_level [OF rep A])
  then show ?thesis using rep xs g stop by (auto simp: walk_matches_def on_level_alt)
qed

lemma walk_matches_fill:
  fixes algo :: MatchAlgo
  assumes rep: "book_rep h b A" and A: "A sd = dn @ (p, xs) # ls" and xs: "xs \<noteq> []" and g: "h aggr = Some g"
    and fresh: "aggr \<notin> fst ` set (book_entries A)" and go: "leaves_qty g \<noteq> 0" "crosses (side g) (price g) p"
  defines "qs \<equiv> level_alloc algo (leaves_qty g) (leaves xs)"
  defines "A1 \<equiv> A(sd := dn @ (p, fill_queue xs qs) # ls)" and "g1 \<equiv> g\<lparr>leaves_qty := leaves_qty g - sum_list qs\<rparr>"
  assumes rest: "\<And>h1 b1. leaves_qty g1 \<noteq> 0 \<Longrightarrow> book_rep h1 b1 A1 \<Longrightarrow> h1 aggr = Some g1 \<Longrightarrow>
      walk_matches algo sd aggr ps (h1, b1, out @ fill_trades g p xs qs) A1 A' g' tr"
    and last: "leaves_qty g1 = 0 \<Longrightarrow> A' = A1 \<and> g' = g1 \<and> tr = []"
  shows "walk_matches algo sd aggr (p # ps) (h, b, out) A A' g' (fill_trades g p xs qs @ tr)"
proof -
  obtain L where L: "map_of (levels sd b) p = Some L" "level_empty L \<longleftrightarrow> xs = []"
    by (rule book_rep_level [OF rep A])
  from on_level_rep [OF rep A g fresh go, of algo out] obtain h1 b1 where 1:
    "on_level algo sd aggr p (h, b, out) = Some (leaves_qty g1 > 0, (h1, b1, out @ fill_trades g p xs qs))"
    "book_rep h1 b1 A1" "h1 aggr = Some g1"
    "\<forall>c. c \<noteq> aggr \<longrightarrow> c \<notin> fst ` set (book_entries A) \<longrightarrow> h1 c = h c" "dom h1 = dom h"
    unfolding A1_def g1_def qs_def by auto
  obtain L1 where L1: "map_of (levels sd b1) p = Some L1" "level_empty L1 \<longleftrightarrow> fill_queue xs qs = []"
    by (rule book_rep_level [OF 1(2), of sd dn p "fill_queue xs qs" ls]) (simp add: A1_def)
  have ne: "fill_queue xs qs \<noteq> []" using xs fill_queue_length by (metis length_0_conv)
  have es: "fst ` set (book_entries A1) = fst ` set (book_entries A)"
    unfolding A1_def by (rule book_addrs_fill [of A sd dn p xs ls qs, OF A])
  show ?thesis
  proof (cases "leaves_qty g1 = 0")
    case True
    with last have e: "A' = A1" "g' = g1" "tr = []" by simp_all
    show ?thesis unfolding e using True 1 L xs by (simp add: walk_matches_def)
  next
    case False
    from rest [OF False 1(2,3)] 1 es L L1 xs ne False show ?thesis
      by (auto simp: walk_matches_def word_zero_or_pos)
  qed
qed

lemma walk_match_rep:
  assumes "book_rep h b A" and "A sd = dn @ ls" and "h aggr = Some g"
    and "aggr \<notin> fst ` set (book_entries A)"
    and "abs_match (level_alloc algo) g (leaves_qty g) ls = (ls', r, tr)"
  shows "walk_matches algo sd aggr (map fst ls) (h, b, out) A (A(sd := dn @ ls')) (g\<lparr>leaves_qty := r\<rparr>) tr"
  using assms
proof (induction ls arbitrary: h b A dn g out ls' r tr)
  case Nil
  then show ?case by (auto simp: walk_matches_def fun_upd_idem)
next
  case (Cons l ls)
  obtain p xs where l: "l = (p, xs)" by (cases l)
  note A = Cons.prems(2) [unfolded l]
  let ?qs = "level_alloc algo (leaves_qty g) (leaves xs)"
  let ?A1 = "A(sd := dn @ (p, fill_queue xs ?qs) # ls)" and ?g1 = "g\<lparr>leaves_qty := leaves_qty g - sum_list ?qs\<rparr>"
  from Cons.prems(5) [unfolded l] show ?case
  proof (cases rule: abs_match_cases)
    case empty
    note A0 = A [unfolded empty(1)]
    note d = abook_wf_drop(2) [OF book_repD(2) [OF Cons.prems(1)] A0]
    have "walk_matches algo sd aggr (map fst ls) (h, drop_level sd p b, out) (A(sd := dn @ ls))
        ((A(sd := dn @ ls))(sd := dn @ ls')) (g\<lparr>leaves_qty := r\<rparr>) tr"
      by (rule Cons.IH [OF book_rep_drop [OF Cons.prems(1) A0] _ Cons.prems(3) _ empty(2)])
        (simp, simp only: d Cons.prems(4) not_False_eq_True)
    then show ?thesis unfolding l list.map fst_conv fun_upd_upd by (rule walk_matches_skip [OF Cons.prems(1) A0])
  next
    case stop
    have "A(sd := dn @ ls') = A" "g\<lparr>leaves_qty := r\<rparr> = g" using stop(3,4) A by (simp_all add: fun_upd_idem)
    with walk_matches_stop [OF Cons.prems(1) A stop(1) Cons.prems(3) stop(2)] stop(5) show ?thesis by (simp add: l)
  next
    case exact
    have z: "leaves_qty ?g1 = 0" using exact(4) by (simp del: right_minus_eq add: exact(4) [symmetric])
    have "walk_matches algo sd aggr (p # map fst ls) (h, b, out) A ?A1 ?g1 (fill_trades g p xs ?qs @ [])"
      by (rule walk_matches_fill [OF Cons.prems(1) A exact(1) Cons.prems(3,4) exact(2,3)]) (simp_all only: z not_True_eq_False simp_thms)
    moreover have "?g1 = g\<lparr>leaves_qty := r\<rparr>" using z exact(6) by simp
    ultimately show ?thesis unfolding exact(5,7) l list.map fst_conv by (simp only: append_Nil2)
  next
    case (more ls2 tr2)
    have "walk_matches algo sd aggr (map fst ls) (h1, b1, out @ fill_trades g p xs ?qs) ?A1
        (?A1(sd := (dn @ [(p, fill_queue xs ?qs)]) @ ls2)) (?g1\<lparr>leaves_qty := r\<rparr>) tr2"
      if "book_rep h1 b1 ?A1" "h1 aggr = Some ?g1" for h1 b1
      using that Cons.prems(4) book_addrs_fill [of A sd dn p xs ls ?qs, OF A] more(5)
      by (intro Cons.IH) (simp_all del: fun_upd_apply add: fun_upd_same)
    note rec = this
    have nz: "leaves_qty ?g1 \<noteq> 0" using more(4) by simp
    have "walk_matches algo sd aggr (p # map fst ls) (h, b, out) A
        (?A1(sd := (dn @ [(p, fill_queue xs ?qs)]) @ ls2)) (?g1\<lparr>leaves_qty := r\<rparr>) (fill_trades g p xs ?qs @ tr2)"
      by (rule walk_matches_fill [OF Cons.prems(1) A more(1) Cons.prems(3,4) more(2,3) rec]) (use nz in blast)+
    moreover have "?A1(sd := (dn @ [(p, fill_queue xs ?qs)]) @ ls2) = A(sd := dn @ ls')" by (simp add: more(6))
    ultimately show ?thesis unfolding more(7) l list.map fst_conv by (simp del: fun_upd_apply)
  qed
qed

section \<open>The sweep\<close>

abbreviation addrs :: "abook \<Rightarrow> addr set" where
  "addrs A \<equiv> fst ` set (book_entries A)"

text \<open>The orders a book gave up are freed, and all memory outside the book is kept.\<close>

definition released :: "heap \<Rightarrow> heap \<Rightarrow> abook \<Rightarrow> abook \<Rightarrow> bool" where
  "released h h' A A' \<longleftrightarrow> addrs A' \<subseteq> addrs A \<and>
     (\<forall>c. c \<notin> addrs A' \<longrightarrow> h' c = (if c \<in> addrs A then None else h c))"

lemma released_refl: "released h h A A"
  by (simp add: released_def)

lemma released_trans: "released h h1 A A1 \<Longrightarrow> released h1 h2 A1 A2 \<Longrightarrow> released h h2 A A2"
  unfolding released_def by (rule conjI, blast, simp, blast)

definition first_addr :: "entry list \<Rightarrow> addr option" where
  "first_addr xs = (case xs of [] \<Rightarrow> None | e # _ \<Rightarrow> Some (fst e))"

lemma lseg_first: "lseg h pr p xs ls None \<Longrightarrow> p = first_addr xs"
  by (cases xs) (auto simp: first_addr_def)

lemma level_rep_first: "level_rep h L xs \<Longrightarrow> head L = first_addr xs"
  unfolding level_rep_def by (blast dest: lseg_first)

lemma level_rep_next:
  assumes "level_rep h L (xs @ (a, v) # ys)"
  obtains w where "h a = Some w" "payload w = v" "nxt w = first_addr ys"
  using assms that by (auto simp: level_rep_def lseg_append dest: lseg_first)

abbreviation unfilled :: "entry list \<Rightarrow> entry list" where
  "unfilled xs \<equiv> filter (\<lambda>e. leaves_qty (snd e) \<noteq> 0) xs"

lemma remove_mid:
  assumes rep: "book_rep h b A" and A: "A sd = dn @ (p, ks @ (a, v) # ys) # ls"
  shows "\<exists>h' b'. remove h b a = Some (h', b') \<and>
     book_rep h' b' (A(sd := dn @ (p, ks @ ys) # ls)) \<and>
     released h h' A (A(sd := dn @ (p, ks @ ys) # ls))"
proof -
  note wf = book_repD(2) [OF rep]
  have mem: "(p, ks @ (a, v) # ys) \<in> set (A sd)" by (simp add: A)
  moreover have "(a, v) \<in> set (ks @ (a, v) # ys)" by simp
  ultimately have e: "(a, v) \<in> set (book_entries A)" unfolding book_entries_mem by blast
  have eq: "abs_remove a A = A(sd := dn @ (p, ks @ ys) # ls)"
    using abs_remove_put_queue [OF wf mem] put_queue_mid [OF wf A] by simp
  from remove_rep [OF rep e] obtain h' b' where 1: "remove h b a = Some (h', b')"
    "book_rep h' b' (abs_remove a A)" "\<forall>x. x \<notin> addrs A \<longrightarrow> h' x = h x" "h' a = None"
    by blast
  have "released h h' A (abs_remove a A)"
    using 1(3,4) e unfolding released_def book_entries_abs_remove by (auto simp: image_iff)
  with 1(1,2) show ?thesis unfolding eq by blast
qed

lemma sweep_loop_rep:
  assumes "book_rep h b A" and "A sd = dn @ (p, ks @ ys) # ls"
  shows "\<exists>h' b'. sweep_loop h b (first_addr ys) = Some (h', b') \<and>
     book_rep h' b' (A(sd := dn @ (p, ks @ unfilled ys) # ls)) \<and>
     released h h' A (A(sd := dn @ (p, ks @ unfilled ys) # ls))"
  using assms
proof (induction ys arbitrary: h b A ks)
  case Nil
  then have "A(sd := dn @ (p, ks @ unfilled []) # ls) = A" by (simp add: fun_upd_idem)
  then show ?case
    using Nil.prems(1) by (simp add: first_addr_def sweep_loop.simps released_refl)
next
  case (Cons e ys)
  obtain a v where e: "e = (a, v)" by (cases e)
  note A = Cons.prems(2) [unfolded e]
  obtain L where L: "level_rep h L (ks @ (a, v) # ys)"
    using Cons.prems(1) A by (rule book_rep_level)
  then obtain w where w: "h a = Some w" "payload w = v" "nxt w = first_addr ys"
    by (rule level_rep_next)
  have lv: "leaves_qty w = leaves_qty v" using w(2) by auto
  have fa: "first_addr (e # ys) = Some a" by (simp add: e first_addr_def)
  show ?case
  proof (cases "leaves_qty v = 0")
    case True
    define A1 where "A1 = A(sd := dn @ (p, ks @ ys) # ls)"
    have A1: "A1 sd = dn @ (p, ks @ ys) # ls"
      "A1(sd := dn @ (p, ks @ unfilled ys) # ls) = A(sd := dn @ (p, ks @ unfilled (e # ys)) # ls)"
      using True by (simp_all add: A1_def e)
    from remove_mid [of h b A sd dn p ks a v ys ls, OF Cons.prems(1) A] obtain h1 b1 where 1:
      "remove h b a = Some (h1, b1)" "book_rep h1 b1 A1" "released h h1 A A1"
      unfolding A1_def by blast
    from Cons.IH [OF 1(2) A1(1)] obtain h2 b2 where 2:
      "sweep_loop h1 b1 (first_addr ys) = Some (h2, b2)"
      "book_rep h2 b2 (A1(sd := dn @ (p, ks @ unfilled ys) # ls))"
      "released h1 h2 A1 (A1(sd := dn @ (p, ks @ unfilled ys) # ls))"
      by blast
    have "sweep_loop h b (first_addr (e # ys)) = Some (h2, b2)"
      unfolding fa using w True lv 1(1) 2(1) by (simp add: sweep_loop.simps [of h b "Some a"])
    then show ?thesis
      using 2(2) released_trans [OF 1(3) 2(3)] unfolding A1(2) by blast
  next
    case False
    have "A sd = dn @ (p, (ks @ [e]) @ ys) # ls" using Cons.prems(2) by simp
    from Cons.IH [OF Cons.prems(1) this] False show ?thesis
      unfolding fa using w lv by (simp add: sweep_loop.simps [of h b "Some a"] e)
  qed
qed

lemma sweep_rep:
  assumes rep: "book_rep h b A" and A: "A sd = dn @ (p, xs) # ls"
  shows "\<exists>h' b'. sweep sd p (h, b, out) = Some (True, (h', b', out)) \<and>
     book_rep h' b' (A(sd := dn @ (p, unfilled xs) # ls)) \<and>
     released h h' A (A(sd := dn @ (p, unfilled xs) # ls))"
proof -
  obtain L where L: "map_of (levels sd b) p = Some L" "level_rep h L xs"
    using rep A by (rule book_rep_level)
  from sweep_loop_rep [of h b A sd dn p "[]" xs ls] rep A obtain h' b' where
    "sweep_loop h b (first_addr xs) = Some (h', b')"
    "book_rep h' b' (A(sd := dn @ (p, unfilled xs) # ls))"
    "released h h' A (A(sd := dn @ (p, unfilled xs) # ls))"
    by auto
  then show ?thesis
    using L level_rep_first [OF L(2)] by (simp add: sweep_def)
qed

lemma sweep_levels_Nil [simp]: "sweep_levels [] = []"
  by (simp add: sweep_levels_def)

lemma sweep_levels_Cons:
  "sweep_levels ((p, xs) # ls) =
     (if unfilled xs = [] then sweep_levels ls else (p, unfilled xs) # sweep_levels ls)"
  by (simp add: sweep_levels_def)

lemma book_rep_drop_released:
  assumes "book_rep h b A" and "A sd = dn @ (p, []) # ls"
  shows "book_rep h (drop_level sd p b) (A(sd := dn @ ls))" "released h h A (A(sd := dn @ ls))"
  using book_rep_drop [OF assms] abook_wf_drop(2) [OF book_repD(2) [OF assms(1)] assms(2)]
  by (simp_all add: released_def)

definition walk_sweeps :: "BookSide \<Rightarrow> Price list \<Rightarrow> EventList bstate \<Rightarrow> abook \<Rightarrow> abook \<Rightarrow> bool" where
  "walk_sweeps sd ps s A A' \<longleftrightarrow> (case s of (h, b, out) \<Rightarrow>
     \<exists>h' b'. walk_from sd (sweep sd) ps (h, b, out) = Some (h', b', out) \<and> book_rep h' b' A' \<and> released h h' A A')"

lemma walk_sweeps_skip:
  assumes rep: "book_rep h b A" and A: "A sd = dn @ (p, []) # ls"
    and rest: "walk_sweeps sd ps (h, drop_level sd p b, out) (A(sd := dn @ ls)) A'"
  shows "walk_sweeps sd (p # ps) (h, b, out) A A'"
proof -
  obtain L where L: "map_of (levels sd b) p = Some L" "level_empty L"
    by (rule book_rep_level [OF rep A]) simp
  with rest released_trans [OF book_rep_drop_released(2) [OF rep A]] show ?thesis
    by (auto simp: walk_sweeps_def)
qed

lemma walk_sweeps_level:
  assumes rep: "book_rep h b A" and A: "A sd = dn @ (p, xs) # ls" and xs: "xs \<noteq> []"
  defines "A1 \<equiv> A(sd := dn @ (p, unfilled xs) # ls)"
  assumes rest: "\<And>h1 b1. book_rep h1 b1 A1 \<Longrightarrow>
      walk_sweeps sd ps (h1, if unfilled xs = [] then drop_level sd p b1 else b1, out) (if unfilled xs = [] then A(sd := dn @ ls) else A1) A'"
  shows "walk_sweeps sd (p # ps) (h, b, out) A A'"
proof -
  obtain L where L: "map_of (levels sd b) p = Some L" "\<not> level_empty L"
    by (rule book_rep_level [OF rep A]) (use xs in simp)
  from sweep_rep [of h b A sd dn p xs ls, OF rep A, of out] obtain h1 b1 where 1:
    "sweep sd p (h, b, out) = Some (True, (h1, b1, out))" "book_rep h1 b1 A1" "released h h1 A A1"
    unfolding A1_def by blast
  have A1: "A1 sd = dn @ (p, unfilled xs) # ls" by (simp add: A1_def)
  obtain L1 where L1: "map_of (levels sd b1) p = Some L1" "level_empty L1 \<longleftrightarrow> unfilled xs = []"
    using 1(2) A1 by (rule book_rep_level)
  show ?thesis
  proof (cases "unfilled xs = []")
    case True
    have "A1(sd := dn @ ls) = A(sd := dn @ ls)" by (simp add: A1_def)
    with book_rep_drop_released(2) [OF 1(2) A1 [unfolded True]] have "released h1 h1 A1 (A(sd := dn @ ls))" by simp
    from rest [OF 1(2)] True L L1 1(1) released_trans [OF released_trans [OF 1(3) this]] show ?thesis
      by (auto simp: walk_sweeps_def)
  next
    case False
    from rest [OF 1(2)] False L L1 1(1) released_trans [OF 1(3)] show ?thesis by (auto simp: walk_sweeps_def)
  qed
qed

lemma walk_sweep_rep:
  assumes "book_rep h b A" and "A sd = dn @ ls"
  shows "walk_sweeps sd (map fst ls) (h, b, out) A (A(sd := dn @ sweep_levels ls))"
  using assms
proof (induction ls arbitrary: h b A dn)
  case Nil
  then have "A(sd := dn @ sweep_levels []) = A" by (simp add: fun_upd_idem)
  then show ?case using Nil.prems(1) by (simp add: walk_sweeps_def released_refl)
next
  case (Cons l ls)
  obtain p xs where l: "l = (p, xs)" by (cases l)
  note A = Cons.prems(2) [unfolded l]
  have gone: "walk_sweeps sd (map fst ls) (h1, drop_level sd p b1, out) (A(sd := dn @ ls)) (A(sd := dn @ sweep_levels ls))"
    if "book_rep h1 b1 (A(sd := dn @ (p, []) # ls))" for h1 b1
    using Cons.IH [of h1 "drop_level sd p b1" "A(sd := dn @ ls)" dn] book_rep_drop [OF that, of sd dn p ls]
    by (simp del: fun_upd_apply add: fun_upd_same)
  have kept: "walk_sweeps sd (map fst ls) (h1, b1, out) (A(sd := dn @ (p, unfilled xs) # ls)) (A(sd := dn @ (p, unfilled xs) # sweep_levels ls))"
    if "book_rep h1 b1 (A(sd := dn @ (p, unfilled xs) # ls))" for h1 b1
    using Cons.IH [OF that, of "dn @ [(p, unfilled xs)]"] by (simp del: fun_upd_apply add: fun_upd_same)
  show ?case
  proof (cases "xs = []")
    case True
    have "A(sd := dn @ (p, []) # ls) = A" using A True by (simp add: fun_upd_idem)
    with gone [of h b] Cons.prems(1) walk_sweeps_skip [OF Cons.prems(1) A [unfolded True]] True show ?thesis
      by (simp add: l sweep_levels_Cons del: fun_upd_apply)
  next
    case False
    show ?thesis unfolding l list.map fst_conv
      by (rule walk_sweeps_level [OF Cons.prems(1) A False])
        (use gone kept in \<open>cases "unfilled xs = []"; simp add: sweep_levels_Cons del: fun_upd_apply\<close>)
  qed
qed

section \<open>Submission\<close>

lemma book_rep_frame:
  "book_rep h b A \<Longrightarrow> (\<And>c. c \<in> addrs A \<Longrightarrow> h' c = h c) \<Longrightarrow> book_rep h' b A"
  unfolding book_rep_def using levels_rep_frame by blast

lemma fill_trades_payload [simp]: "fill_trades (payload g) px xs qs = fill_trades g px xs qs"
  by (induction g px xs qs rule: fill_trades.induct) (auto simp: mk_trade_def)

lemma abs_match_payload [simp]: "abs_match al (payload g) r ls = abs_match al g r ls"
proof (induction ls arbitrary: r)
  case (Cons l ls)
  then show ?case by (cases l) (simp add: Let_def)
qed simp

text \<open>Matching keeps every order in its place; only quantities change.\<close>

abbreviation ident :: "entry \<Rightarrow> addr \<times> IndexKey" where
  "ident e \<equiv> (fst e, index_key (snd e))"

lemma abs_match_ident:
  "abs_match al g r ls = (ls', r', tr) \<Longrightarrow>
     map ident (concat (map snd ls')) = map ident (concat (map snd ls))"
proof (induction ls arbitrary: r ls' tr)
  case (Cons l ls)
  obtain p xs where l: "l = (p, xs)" by (cases l)
  have fq: "map ident (fill_queue xs qs) = map ident xs" for qs
    using same_order_maps(2) [OF same_order_fill_queue] .
  show ?case
    using Cons fq unfolding l
    by (auto simp: Let_def split: if_splits prod.splits)
qed simp

lemma book_ident_upd:
  assumes "map ident (concat (map snd ls')) = map ident (concat (map snd (A sd)))"
  shows "map ident (book_entries (A(sd := ls'))) = map ident (book_entries A)"
  using assms by (cases sd) (simp_all add: book_entries_def side_entries_def)

lemma addrs_ident: "addrs A = fst ` set (map ident (book_entries A))"
  by (force simp: image_iff)

lemma sweep_levels_sub:
  "set (concat (map snd (sweep_levels ls))) \<subseteq> set (concat (map snd ls))"
  by (induction ls) (auto simp: sweep_levels_def)

lemma book_entries_upd_sub:
  assumes "set (concat (map snd ls')) \<subseteq> set (concat (map snd (A sd)))"
  shows "set (book_entries (A(sd := ls'))) \<subseteq> set (book_entries A)"
  using assms by (cases sd) (auto simp: book_entries_def side_entries_def)

lemma match_aggressive_rep:
  assumes rep: "book_rep h b A" and v: "h a = Some v" and fresh: "a \<notin> addrs A"
    and m: "abs_match (level_alloc algo) v (leaves_qty v) (A (opposite (own_side v))) = (ls, r, tr)"
  shows "\<exists>h' b'. match_aggressive algo h b a out = Some (h', b', out @ tr) \<and>
     book_rep h' b' (A(opposite (own_side v) := ls)) \<and> h' a = Some (v\<lparr>leaves_qty := r\<rparr>) \<and>
     (\<forall>c. c \<noteq> a \<longrightarrow> c \<notin> addrs A \<longrightarrow> h' c = h c)"
proof -
  let ?sd = "opposite (own_side v)"
  have keys: "map fst (levels ?sd b) = map fst (A ?sd)"
    using book_repD(1) [OF rep] rel_map_keys unfolding levels_rep_def by blast
  have "match_aggressive algo h b a out =
      walk_from ?sd (on_level algo ?sd a) (map fst (A ?sd)) (h, b, out)"
    using v keys by (auto simp: match_aggressive_def walk_asks_def walk_bids_def walk_def own_side_def)
  with walk_match_rep [OF rep _ v fresh m, of ?sd "[]" out] show ?thesis by (auto simp: walk_matches_def)
qed

lemma sweep_walk_rep:
  assumes rep: "book_rep h b A"
  shows "\<exists>h' b'. walk sd (sweep sd) (h, b, out) = Some (h', b', out) \<and>
     book_rep h' b' (A(sd := sweep_levels (A sd))) \<and> released h h' A (A(sd := sweep_levels (A sd)))"
proof -
  have "map fst (levels sd b) = map fst (A sd)"
    using book_repD(1) [OF rep] rel_map_keys unfolding levels_rep_def by blast
  with walk_sweep_rep [OF rep, of sd "[]" "A sd" out] show ?thesis by (simp add: walk_def walk_sweeps_def)
qed

lemma submit_alt:
  "submit algo h b a out = do {
     v \<leftarrow> h a;
     (h, b, out) \<leftarrow> match_aggressive algo h b a
        (out @ [AckEv \<lparr>ack_id = order_id v, ack_clord_id = clord_id v\<rparr>]);
     w \<leftarrow> h a;
     (h, b, out) \<leftarrow> walk (opposite (own_side w)) (sweep (opposite (own_side w))) (h, b, out);
     w \<leftarrow> h a;
     if leaves_qty w > 0 then do { (h, b) \<leftarrow> rest h b a; Some (h, b, out) }
     else Some (h(a := None), b, out) }"
proof -
  have "(if side w = Buy then walk_asks (sweep Asks) s else walk_bids (sweep Bids) s) =
      walk (opposite (own_side w)) (sweep (opposite (own_side w))) s" for w and s :: "EventList bstate"
    by (simp add: own_side_def walk_asks_def walk_bids_def)
  then show ?thesis by (simp add: submit_def Let_def)
qed

text \<open>Up to the last step: the opposite side is matched and swept, and the order has its residual.\<close>

lemma submit_matched:
  assumes rep: "book_rep h b A" and v: "h a = Some v" and fresh: "a \<notin> addrs A" and key: "index b (index_key v) = None"
    and m: "abs_match (level_alloc algo) v (leaves_qty v) (A (opposite (own_side v))) = (ls, r, tr)"
  defines "A2 \<equiv> A(opposite (own_side v) := sweep_levels ls)"
    and "evs \<equiv> AckEv \<lparr>ack_id = order_id v, ack_clord_id = clord_id v\<rparr> # tr"
  shows "\<exists>h2 b2. submit algo h b a out = (if r > 0 then do { (h, b) \<leftarrow> rest h2 b2 a; Some (h, b, out @ evs) }
       else Some (h2(a := None), b2, out @ evs)) \<and> book_rep h2 b2 A2 \<and> h2 a = Some (v\<lparr>leaves_qty := r\<rparr>) \<and> a \<notin> addrs A2 \<and>
     index b2 (index_key v) = None \<and> (\<forall>c. c \<notin> addrs A2 \<longrightarrow> c \<noteq> a \<longrightarrow> h2 c = (if c \<in> addrs A then None else h c))"
proof -
  define sd where "sd = opposite (own_side v)"
  define A1 where "A1 = A(sd := ls)"
  from match_aggressive_rep [OF rep v fresh m, of "out @ [AckEv \<lparr>ack_id = order_id v, ack_clord_id = clord_id v\<rparr>]"]
  obtain h1 b1 where 1:
    "match_aggressive algo h b a (out @ [AckEv \<lparr>ack_id = order_id v, ack_clord_id = clord_id v\<rparr>]) = Some (h1, b1, out @ evs)"
    "book_rep h1 b1 A1" "h1 a = Some (v\<lparr>leaves_qty := r\<rparr>)" "\<forall>c. c \<noteq> a \<longrightarrow> c \<notin> addrs A \<longrightarrow> h1 c = h c"
    by (auto simp: A1_def sd_def evs_def)
  have id1: "map ident (book_entries A1) = map ident (book_entries A)"
    unfolding A1_def using abs_match_ident [OF m [folded sd_def]] by (rule book_ident_upd)
  have ad1: "addrs A1 = addrs A" by (simp only: addrs_ident id1)
  have A2: "A1(sd := sweep_levels (A1 sd)) = A2" by (simp add: A1_def A2_def sd_def)
  with sweep_walk_rep [OF 1(2), of sd "out @ evs"] obtain h2 b2 where
    2: "walk sd (sweep sd) (h1, b1, out @ evs) = Some (h2, b2, out @ evs)" "book_rep h2 b2 A2" "released h1 h2 A1 A2" by auto
  have fresh2: "a \<notin> addrs A2" using 2(3) fresh ad1 unfolding released_def by blast
  have a2: "h2 a = Some (v\<lparr>leaves_qty := r\<rparr>)" using 2(3) fresh fresh2 ad1 1(3) unfolding released_def by auto
  have "set (book_entries A2) \<subseteq> set (book_entries A1)"
    unfolding A2 [symmetric] by (rule book_entries_upd_sub [OF sweep_levels_sub])
  moreover have "index_rep (index b) (book_entries A1)" using book_repD(3) [OF rep] unfolding index_rep_alt id1 .
  then have "\<forall>e \<in> set (book_entries A1). index_key (snd e) \<noteq> index_key v" using index_rep_None key by blast
  ultimately have "index b2 (index_key v) = None" using index_rep_None [OF book_repD(3) [OF 2(2)]] by blast
  moreover have "\<forall>c. c \<notin> addrs A2 \<longrightarrow> c \<noteq> a \<longrightarrow> h2 c = (if c \<in> addrs A then None else h c)"
    using 2(3) 1(4) ad1 unfolding released_def by auto
  moreover have "submit algo h b a out = (if r > 0 then do { (h, b) \<leftarrow> rest h2 b2 a; Some (h, b, out @ evs) }
      else Some (h2(a := None), b2, out @ evs))"
    using v 1(1,3) 2(1) a2 by (simp add: submit_alt own_side_def sd_def)
  ultimately show ?thesis using 2(2) a2 fresh2 by blast
qed

lemma submit_rep:
  assumes rep: "book_rep h b A" and v: "h a = Some v" and fresh: "a \<notin> addrs A"
    and key: "index b (index_key v) = None"
    and abs: "abs_submit (level_alloc algo) a (payload v) A = (A', r, evs)"
  shows "\<exists>h' b'. submit algo h b a out = Some (h', b', out @ evs) \<and> book_rep h' b' A' \<and>
     (\<forall>c. c \<notin> addrs A' \<longrightarrow> h' c = (if c \<in> insert a (addrs A) then None else h c))"
proof -
  let ?sd = "opposite (own_side v)"
  obtain ls r' tr where m: "abs_match (level_alloc algo) v (leaves_qty v) (A ?sd) = (ls, r', tr)" by (rule prod_cases3)
  define A2 where "A2 = A(?sd := sweep_levels ls)"
  have r: "r' = r" and evs: "evs = AckEv \<lparr>ack_id = order_id v, ack_clord_id = clord_id v\<rparr> # tr"
    and A': "A' = (if r = 0 then A2 else abs_rest a ((payload v)\<lparr>leaves_qty := r\<rparr>) A2)"
    using abs m by (auto simp: abs_submit_def A2_def Let_def)
  from submit_matched [OF rep v fresh key m, of out, unfolded r, folded A2_def evs] obtain h2 b2 where
    sub: "submit algo h b a out = (if r > 0 then do { (h, b) \<leftarrow> rest h2 b2 a; Some (h, b, out @ evs) }
      else Some (h2(a := None), b2, out @ evs))"
    and 2: "book_rep h2 b2 A2" "h2 a = Some (v\<lparr>leaves_qty := r\<rparr>)" "a \<notin> addrs A2" "index b2 (index_key v) = None"
      "\<forall>c. c \<notin> addrs A2 \<longrightarrow> c \<noteq> a \<longrightarrow> h2 c = (if c \<in> addrs A then None else h c)" by blast
  show ?thesis
  proof (cases "r = 0")
    case True
    have "book_rep (h2(a := None)) b2 A2" using 2(1) by (rule book_rep_frame) (use 2(3) in auto)
    with True sub A' 2(5) show ?thesis by auto
  next
    case False
    have "index b2 (index_key (v\<lparr>leaves_qty := r\<rparr>)) = None" using 2(4) by (simp add: index_key_def)
    from rest_rep [OF 2(1,2,3) this] obtain h3 b3 where 3: "rest h2 b2 a = Some (h3, b3)"
      "book_rep h3 b3 A'" "\<forall>x. x \<noteq> a \<longrightarrow> x \<notin> addrs A2 \<longrightarrow> h3 x = h2 x"
      using False by (auto simp: A')
    have "addrs A' = insert a (addrs A2)"
      using False by (simp add: A' set_abs_rest [OF book_repD(2) [OF 2(1)]])
    then have "\<forall>c. c \<notin> addrs A' \<longrightarrow> h3 c = (if c \<in> insert a (addrs A) then None else h c)"
      using 3(3) 2(5) by auto
    with False sub 3(1,2) show ?thesis by (auto simp: word_zero_or_pos)
  qed
qed

end
