(* ===== verification/OB_Matching_Spec.thy ===== *)
theory OB_Matching_Spec
  imports OB_Matcher_Refinement
begin

text \<open>
  What matching promises, on abstract books. The locale \<open>allocator\<close> is the contract
  between the walk over the levels and the algorithm that fills one level; the lemmas in
  it hold for both algorithms of \<^verbatim>\<open>src/core/matcher.cpp\<close>: quantity is conserved, trades
  come in price order and only at crossing prices, better levels are exhausted first, and
  the book stays uncrossed. The interpretations discharge the contract for FIFO (always)
  and for pro-rata (when the level's total fits 64 bits).
\<close>

section \<open>Quantities\<close>

fun trade_qty_of :: "Event \<Rightarrow> nat" where
  "trade_qty_of (TradeEv t) = unat (trade_qty t)"
| "trade_qty_of _ = 0"

definition traded :: "EventList \<Rightarrow> nat" where
  "traded evs = sum_list (map trade_qty_of evs)"

definition volume :: "entry list \<Rightarrow> nat" where
  "volume xs = sum_list (map unat (leaves xs))"

definition live :: "abook \<Rightarrow> bool" where
  "live A \<longleftrightarrow> (\<forall>e \<in> set (book_entries A). leaves_qty (snd e) \<noteq> 0)"

definition uncrossed :: "abook \<Rightarrow> bool" where
  "uncrossed A \<longleftrightarrow> (\<forall>p xs q ys. (p, xs) \<in> set (A Bids) \<longrightarrow> xs \<noteq> [] \<longrightarrow>
     (q, ys) \<in> set (A Asks) \<longrightarrow> ys \<noteq> [] \<longrightarrow> p < q)"

lemma traded_simps [simp]:
  "traded [] = 0" "traded (e # evs) = trade_qty_of e + traded evs"
  "traded (evs @ evs') = traded evs + traded evs'"
  by (simp_all add: traded_def)

lemma volume_simps [simp]:
  "volume [] = 0" "volume (e # xs) = unat (leaves_qty (snd e)) + volume xs"
  "volume (xs @ ys) = volume xs + volume ys"
  by (simp_all add: volume_def)

lemma volume_filter_live: "volume (unfilled xs) = volume xs"
  by (induction xs) auto

lemma traded_fill_trades:
  "length qs = length xs \<Longrightarrow> traded (fill_trades g p xs qs) = sum_list (map unat qs)"
  by (induction g p xs qs rule: fill_trades.induct) (auto simp: mk_trade_def)

lemma volume_fill_queue:
  "list_all2 (\<le>) qs (leaves xs) \<Longrightarrow>
     volume (fill_queue xs qs) + sum_list (map unat qs) = volume xs"
proof (induction xs arbitrary: qs)
  case (Cons e xs)
  then obtain q ps where "qs = q # ps" "q \<le> leaves_qty (snd e)" "list_all2 (\<le>) ps (leaves xs)"
    by (auto simp: list_all2_Cons2)
  with Cons.IH [of ps] word_le_nat_alt [of q] show ?case by (simp add: unat_minus_le)
qed simp

lemma volume_zero: "volume xs = 0 \<longleftrightarrow> (\<forall>e \<in> set xs. leaves_qty (snd e) = 0)"
  by (induction xs) (auto simp: unat_eq_0)

lemma fill_trades_mem:
  "TradeEv t \<in> set (fill_trades g p xs qs) \<Longrightarrow>
     trade_price t = p \<and> trade_qty t \<noteq> 0 \<and> aggressor_id t = order_id g \<and> aggressor_side t = side g \<and>
     (\<exists>e \<in> set xs. resting_id t = order_id (snd e) \<and> resting_clord t = clord_id (snd e))"
  by (induction g p xs qs rule: fill_trades.induct) (auto simp: mk_trade_def split: if_splits)

lemma fill_trades_only: "e \<in> set (fill_trades g p xs qs) \<Longrightarrow> \<exists>t. e = TradeEv t"
  by (induction g p xs qs rule: fill_trades.induct) (auto simp: mk_trade_def split: if_splits)

text \<open>The prices of the levels a walk leaves behind.\<close>

lemma abs_match_prices: "abs_match al g r ls = (ls', r', tr) \<Longrightarrow> fst ` set ls' \<subseteq> fst ` set ls"
proof (induction ls arbitrary: r ls' tr)
  case (Cons l ls)
  obtain p xs where l: "l = (p, xs)" by (cases l)
  from Cons.prems [unfolded l] show ?case
  proof (cases rule: abs_match_cases)
    case empty
    with Cons.IH [OF empty(2)] show ?thesis by (auto simp: l)
  next
    case (more ls2 tr2)
    with Cons.IH [OF more(5)] show ?thesis by (auto simp: l)
  qed (simp_all add: l)
qed simp

section \<open>The contract of a level-filling algorithm\<close>

locale allocator =
  fixes al :: "u64 \<Rightarrow> u64 list \<Rightarrow> u64 list" and fits :: "u64 list \<Rightarrow> bool"
  assumes al_le: "list_all2 (\<le>) (al r qs) qs"
    and al_sum: "fits qs \<Longrightarrow> sum_list (map unat (al r qs)) = min (unat r) (sum_list (map unat qs))"
begin

lemma al_length: "length (al r qs) = length qs"
  using al_le by (rule list_all2_lengthD)

lemma unat_sum_al: "fits qs \<Longrightarrow> unat (sum_list (al r qs)) = min (unat r) (sum_list (map unat qs))"
  using al_sum [of qs r] unat_u64_lt [of r] by (simp add: unat_sum_list)

lemma sum_al_le: "fits qs \<Longrightarrow> sum_list (al r qs) \<le> r"
  by (simp add: word_le_nat_alt unat_sum_al)

lemma level_exhausted:
  assumes "fits (leaves xs)" and "r \<noteq> sum_list (al r (leaves xs))" and "e \<in> set (fill_queue xs (al r (leaves xs)))"
  shows "leaves_qty (snd e) = 0"
proof -
  let ?qs = "al r (leaves xs)"
  have "sum_list (map unat ?qs) = min (unat r) (volume xs)"
    using al_sum [OF assms(1)] by (simp add: volume_def)
  moreover have "unat r \<noteq> sum_list (map unat ?qs)"
    using assms(2) unat_sum_al [OF assms(1), of r] al_sum [OF assms(1), of r] by (metis unsigned_word_eqI)
  moreover have "volume (fill_queue xs ?qs) + sum_list (map unat ?qs) = volume xs"
    using al_le by (rule volume_fill_queue)
  ultimately have "volume (fill_queue xs ?qs) = 0" by auto
  with assms(3) show ?thesis by (simp add: volume_zero)
qed

lemma abs_match_conserves:
  assumes "abs_match al g r ls = (ls', r', tr)" and "\<forall>l \<in> set ls. fits (leaves (snd l))"
  shows "unat r = unat r' + traded tr \<and>
    volume (concat (map snd ls)) = volume (concat (map snd ls')) + traded tr"
  using assms
proof (induction ls arbitrary: r ls' tr)
  case (Cons l ls)
  obtain p xs where l: "l = (p, xs)" by (cases l)
  let ?qs = "al r (leaves xs)"
  have fit: "fits (leaves xs)" using Cons.prems(2) by (simp add: l)
  have t: "traded (fill_trades g p xs ?qs) = sum_list (map unat ?qs)"
    by (simp add: traded_fill_trades al_length)
  have v: "volume (fill_queue xs ?qs) + sum_list (map unat ?qs) = volume xs"
    using al_le by (rule volume_fill_queue)
  have u: "unat (sum_list ?qs) = sum_list (map unat ?qs)"
    using unat_sum_al [OF fit] al_sum [OF fit] by simp
  from Cons.prems(1) [unfolded l] show ?case
  proof (cases rule: abs_match_cases)
    case empty
    then show ?thesis using Cons.IH [OF empty(2)] Cons.prems(2) by (simp add: l)
  next
    case stop
    then show ?thesis by (simp add: l)
  next
    case exact
    then show ?thesis using t v u by (simp add: l)
  next
    case (more ls2 tr2)
    have "unat (r - sum_list ?qs) = unat r - unat (sum_list ?qs)"
      using sum_al_le [OF fit] by (rule unat_minus_le)
    moreover have "unat (sum_list ?qs) \<le> unat r"
      using sum_al_le [OF fit] by (simp add: word_le_nat_alt)
    ultimately show ?thesis
      using Cons.IH [OF more(5)] Cons.prems(2) t v u more(6,7) by (simp add: l)
  qed
qed simp

text \<open>Only trades are reported, each at the price of a crossing level.\<close>

lemma abs_match_trades:
  assumes "abs_match al g r ls = (ls', r', tr)" and "e \<in> set tr"
  shows "\<exists>t p xs. e = TradeEv t \<and> (p, xs) \<in> set ls \<and> trade_price t = p \<and>
     crosses (side g) (price g) p \<and> trade_qty t \<noteq> 0 \<and> aggressor_id t = order_id g \<and>
     aggressor_side t = side g \<and>
     (\<exists>x \<in> set xs. resting_id t = order_id (snd x) \<and> resting_clord t = clord_id (snd x))"
  using assms
proof (induction ls arbitrary: r ls' tr)
  case (Cons l ls)
  obtain p xs where l: "l = (p, xs)" by (cases l)
  let ?qs = "al r (leaves xs)"
  have here: ?case if "e \<in> set (fill_trades g p xs ?qs)" "crosses (side g) (price g) p"
  proof -
    from fill_trades_only [OF that(1)] obtain t where "e = TradeEv t" ..
    with fill_trades_mem [of t g p xs ?qs] that show ?thesis by (auto simp: l)
  qed
  from Cons.prems(1) [unfolded l] show ?case
  proof (cases rule: abs_match_cases)
    case empty
    then show ?thesis using Cons.IH [OF empty(2) Cons.prems(2)] by auto
  next
    case (more ls2 tr2)
    then show ?thesis
      using Cons.prems(2) here Cons.IH [OF more(5)] by auto
  next
    case stop
    then show ?thesis using Cons.prems(2) by simp
  next
    case exact
    then show ?thesis using Cons.prems(2) here by blast
  qed
qed simp

text \<open>Every level that a trade passed over, towards a worse price, is exhausted.\<close>

lemma abs_match_priority:
  assumes "abs_match al g r ls = (ls', r', tr)" and "\<forall>l \<in> set ls. fits (leaves (snd l))"
    and "sorted_wrt (price_before sd) (map fst ls)"
    and "TradeEv t \<in> set tr" and "(p, ys) \<in> set ls'" and "price_before sd p (trade_price t)"
    and "y \<in> set ys"
  shows "leaves_qty (snd y) = 0"
  using assms
proof (induction ls arbitrary: r ls' tr)
  case (Cons l ls)
  obtain p1 xs where l: "l = (p1, xs)" by (cases l)
  let ?qs = "al r (leaves xs)"
  have fit: "fits (leaves xs)" using Cons.prems(2) by (simp add: l)
  have later: "price_before sd p1 q" if "q \<in> fst ` set ls" for q
    using Cons.prems(3) that by (auto simp: l)
  have first: False if "p \<in> insert p1 (fst ` set ls)" "trade_price t = p1"
    using that later [of p] Cons.prems(6) price_order.lt_irrefl [of sd p1] price_order.lt_trans [of sd p1 p p1]
    by auto
  from Cons.prems(1) [unfolded l] show ?case
  proof (cases rule: abs_match_cases)
    case empty
    then show ?thesis
      using Cons.IH [OF empty(2)] Cons.prems by simp
  next
    case stop
    then show ?thesis using Cons.prems(4) by simp
  next
    case exact
    then have "trade_price t = p1" using Cons.prems(4) fill_trades_mem by blast
    moreover have "p \<in> insert p1 (fst ` set ls)" using Cons.prems(5) exact(5) by force
    ultimately show ?thesis using first by blast
  next
    case (more ls2 tr2)
    show ?thesis
    proof (cases "TradeEv t \<in> set tr2")
      case True
      show ?thesis
      proof (cases "(p, ys) \<in> set ls2")
        case False
        then have "ys = fill_queue xs ?qs" using Cons.prems(5) more(6) by auto
        with level_exhausted [OF fit more(4)] Cons.prems(7) show ?thesis by blast
      next
        case in2: True
        have "sorted_wrt (price_before sd) (map fst ls)" "\<forall>l \<in> set ls. fits (leaves (snd l))"
          using Cons.prems(2,3) by simp_all
        with Cons.IH [OF more(5)] True in2 Cons.prems(6,7) show ?thesis by blast
      qed
    next
      case False
      then have tp: "trade_price t = p1" using Cons.prems(4) fill_trades_mem more(7) by auto
      have "p \<in> insert p1 (fst ` set ls)"
        using Cons.prems(5) more(6) abs_match_prices [OF more(5)] by force
      with tp show ?thesis using first by blast
    qed
  qed
qed simp

text \<open>An aggressor with quantity left has exhausted every level it crosses.\<close>

lemma abs_match_exhausts:
  assumes "abs_match al g r ls = (ls', r', tr)" and "\<forall>l \<in> set ls. fits (leaves (snd l))"
    and "sorted_wrt (price_before (opposite (own_side g))) (map fst ls)"
    and "r' \<noteq> 0" and "(p, ys) \<in> set ls'" and "crosses (side g) (price g) p" and "y \<in> set ys"
  shows "leaves_qty (snd y) = 0"
  using assms
proof (induction ls arbitrary: r ls' tr)
  case (Cons l ls)
  obtain p1 xs where l: "l = (p1, xs)" by (cases l)
  let ?qs = "al r (leaves xs)"
  have fit: "fits (leaves xs)" "\<forall>l \<in> set ls. fits (leaves (snd l))"
    and srt: "sorted_wrt (price_before (opposite (own_side g))) (map fst ls)"
    using Cons.prems(2,3) by (simp_all add: l)
  from Cons.prems(1) [unfolded l] show ?case
  proof (cases rule: abs_match_cases)
    case empty
    then show ?thesis using Cons.IH [OF empty(2) fit(2) srt] Cons.prems(4-7) by blast
  next
    case stop
    have "p \<in> insert p1 (fst ` set ls)" using Cons.prems(5) stop(3) by force
    then have "\<not> price_before (opposite (own_side g)) p p1"
      using Cons.prems(3) price_order.lt_irrefl [of "opposite (own_side g)" p1]
        price_order.lt_trans [of "opposite (own_side g)" p1 p p1] by (auto simp: l)
    moreover have "\<not> crosses (side g) (price g) p1" using stop(2,4) Cons.prems(4) by simp
    ultimately have False using Cons.prems(6) by (auto simp: crosses_def own_side_def split: if_splits)
    then show ?thesis ..
  next
    case exact
    then show ?thesis using Cons.prems(4) by simp
  next
    case (more ls2 tr2)
    show ?thesis
    proof (cases "(p, ys) \<in> set ls2")
      case True
      then show ?thesis using Cons.IH [OF more(5) fit(2) srt] Cons.prems(4,6,7) by blast
    next
      case False
      then have "ys = fill_queue xs ?qs" using Cons.prems(5) more(6) by auto
      with level_exhausted [OF fit(1) more(4)] Cons.prems(7) show ?thesis by blast
    qed
  qed
qed simp

text \<open>A level of the result that holds an order comes from a level that held one.\<close>

lemma abs_match_nonempty:
  assumes "abs_match al g r ls = (ls', r', tr)" and "(p, ys) \<in> set ls'" and "ys \<noteq> []"
  shows "\<exists>xs. (p, xs) \<in> set ls \<and> xs \<noteq> []"
  using assms
proof (induction ls arbitrary: r ls' tr)
  case (Cons l ls)
  obtain p1 xs where l: "l = (p1, xs)" by (cases l)
  from Cons.prems(1) [unfolded l] show ?case
  proof (cases rule: abs_match_cases)
    case empty
    then show ?thesis using Cons.IH [OF empty(2)] Cons.prems(2,3) by auto
  next
    case (more ls2 tr2)
    then show ?thesis using Cons.IH [OF more(5)] Cons.prems(2,3) by (auto simp: l)
  qed (use Cons.prems(2,3) in \<open>auto simp: l\<close>)
qed simp

end

section \<open>The submission keeps the book uncrossed\<close>

lemma sweep_levels_mem:
  "(p, ys) \<in> set (sweep_levels ls) \<longleftrightarrow> ys \<noteq> [] \<and> (\<exists>xs. (p, xs) \<in> set ls \<and> ys = unfilled xs)"
  by (auto simp: sweep_levels_def)

lemma uncrossed_side:
  "uncrossed A \<longleftrightarrow> (\<forall>p xs q ys. (p, xs) \<in> set (A sd) \<longrightarrow> xs \<noteq> [] \<longrightarrow>
     (q, ys) \<in> set (A (opposite sd)) \<longrightarrow> ys \<noteq> [] \<longrightarrow> price_before (opposite sd) p q)"
  by (cases sd) (auto simp: uncrossed_def)

lemma uncrossed_empty: "uncrossed (\<lambda>_. [])" and live_empty: "live (\<lambda>_. [])"
  by (simp_all add: uncrossed_def live_def book_entries_def side_entries_def)

lemma not_crosses:
  "\<not> crosses (side g) (price g) p \<longleftrightarrow> price_before (opposite (own_side g)) (price g) p"
  by (auto simp: crosses_def own_side_def)

lemma opposite_neq: "opposite sd \<noteq> sd" "sd \<noteq> opposite sd"
  by (cases sd; simp)+

lemma live_alt:
  "live A \<longleftrightarrow> (\<forall>sd p xs e. (p, xs) \<in> set (A sd) \<longrightarrow> e \<in> set xs \<longrightarrow> leaves_qty (snd e) \<noteq> 0)"
  unfolding live_def Ball_def book_entries_mem by blast

lemma live_rest:
  assumes "live A" and "leaves_qty v \<noteq> 0"
  shows "live (abs_rest a v A)"
proof -
  have "leaves_qty (snd e) \<noteq> 0" if "e \<in> set (queue_at A sd p)" for sd p e
    using assms(1) queue_at_sub [OF that] by (simp add: live_def)
  with assms show ?thesis
    unfolding live_alt abs_rest_def put_queue_def by (auto split: if_splits dest!: map_put_mem)
qed

lemma uncrossed_rest:
  assumes "uncrossed A"
    and "\<And>q ys. (q, ys) \<in> set (A (opposite (own_side v))) \<Longrightarrow> ys \<noteq> [] \<Longrightarrow>
      \<not> crosses (side v) (price v) q"
  shows "uncrossed (abs_rest a v A)"
  unfolding uncrossed_side [of _ "own_side v"]
proof (intro allI impI)
  fix p xs q ys
  assume p: "(p, xs) \<in> set (abs_rest a v A (own_side v))" "xs \<noteq> []"
    and q: "(q, ys) \<in> set (abs_rest a v A (opposite (own_side v)))" "ys \<noteq> []"
  from q(1) have q1: "(q, ys) \<in> set (A (opposite (own_side v)))"
    by (simp add: abs_rest_def put_queue_def opposite_neq)
  from p(1) have "p = price v \<or> (p, xs) \<in> set (A (own_side v))"
    by (auto simp: abs_rest_def put_queue_def dest: map_put_mem)
  then show "price_before (opposite (own_side v)) p q"
  proof
    assume "p = price v"
    with assms(2) [OF q1 q(2)] show ?thesis by (simp add: not_crosses)
  next
    assume "(p, xs) \<in> set (A (own_side v))"
    with assms(1) p(2) q1 q(2) show ?thesis unfolding uncrossed_side [of _ "own_side v"] by blast
  qed
qed

lemma uncrossed_sub:
  assumes "uncrossed A" and "A' sd = A sd"
    and "\<And>q ys. (q, ys) \<in> set (A' (opposite sd)) \<Longrightarrow> ys \<noteq> [] \<Longrightarrow>
      \<exists>zs. (q, zs) \<in> set (A (opposite sd)) \<and> zs \<noteq> []"
  shows "uncrossed A'"
  unfolding uncrossed_side [of A' sd] using assms(1) [unfolded uncrossed_side [of A sd]] assms(2,3)
  by metis

context allocator
begin

lemma abs_submit_uncrossed:
  assumes sub: "abs_submit al a v A = (A', r, evs)" and wf: "abook_wf A"
    and inv: "live A" "uncrossed A"
    and fit: "\<forall>l \<in> set (A (opposite (own_side v))). fits (leaves (snd l))"
  shows "live A' \<and> uncrossed A'"
proof -
  define op where "op = opposite (own_side v)"
  obtain ls r' tr where m: "abs_match al v (leaves_qty v) (A op) = (ls, r', tr)"
    by (rule prod_cases3)
  define A1 where "A1 = A(op := sweep_levels ls)"
  have A': "A' = (if r = 0 then A1 else abs_rest a (v\<lparr>leaves_qty := r\<rparr>) A1)" and r: "r' = r"
    using sub m by (auto simp: abs_submit_def Let_def op_def [symmetric] A1_def)
  have "live A1"
    using inv(1) unfolding live_alt A1_def by (auto simp: sweep_levels_mem split: if_splits)
  moreover have "uncrossed A1"
  proof (rule uncrossed_sub [OF inv(2), of _ "own_side v"])
    fix q ys
    assume "(q, ys) \<in> set (A1 (opposite (own_side v)))" "ys \<noteq> []"
    then obtain xs where "(q, xs) \<in> set ls" "unfilled xs \<noteq> []"
      by (auto simp: A1_def op_def sweep_levels_mem)
    moreover from this have "xs \<noteq> []" by auto
    moreover note abs_match_nonempty [OF m]
    ultimately show "\<exists>zs. (q, zs) \<in> set (A (opposite (own_side v))) \<and> zs \<noteq> []"
      unfolding op_def by blast
  qed (simp add: A1_def op_def opposite_neq)
  moreover have "uncrossed (abs_rest a (v\<lparr>leaves_qty := r\<rparr>) A1)" if "r \<noteq> 0"
  proof (rule uncrossed_rest [OF \<open>uncrossed A1\<close>])
    fix q ys
    assume q: "(q, ys) \<in> set (A1 (opposite (own_side (v\<lparr>leaves_qty := r\<rparr>))))" "ys \<noteq> []"
    then obtain xs y where x: "(q, xs) \<in> set ls" "y \<in> set xs" "leaves_qty (snd y) \<noteq> 0"
      by (auto simp: A1_def op_def own_side_def sweep_levels_mem filter_empty_conv)
    have "leaves_qty (snd y) = 0" if "crosses (side v) (price v) q"
    proof (rule abs_match_exhausts [OF m _ _ _ x(1) that x(2)])
      show "\<forall>l \<in> set (A op). fits (leaves (snd l))" using fit by (simp add: op_def)
      show "sorted_wrt (price_before (opposite (own_side v))) (map fst (A op))"
        unfolding op_def using wf by (rule abook_wfD(1))
    qed (simp add: r \<open>r \<noteq> 0\<close>)
    with x(3) show "\<not> crosses (side (v\<lparr>leaves_qty := r\<rparr>)) (price (v\<lparr>leaves_qty := r\<rparr>)) q" by auto
  qed
  ultimately show ?thesis using live_rest [of A1 "v\<lparr>leaves_qty := r\<rparr>" a] by (simp add: A')
qed

end

section \<open>FIFO keeps the contract\<close>

lemma fifo_alloc_le: "list_all2 (\<le>) (fifo_alloc r qs) qs"
  by (induction r qs rule: fifo_alloc.induct) auto

lemma fifo_alloc_sum:
  "sum_list (map unat (fifo_alloc r qs)) = min (unat r) (sum_list (map unat qs))"
  by (induction r qs rule: fifo_alloc.induct) (auto simp: unat_min unat_minus_le)

text \<open>Time priority: an order is reached only when all the earlier ones are filled.\<close>

lemma fifo_alloc_priority:
  assumes "i < j" and "j < length qs" and "fifo_alloc r qs ! j \<noteq> 0"
  shows "fifo_alloc r qs ! i = qs ! i"
  using assms
proof (induction r qs arbitrary: i j rule: fifo_alloc.induct)
  case (2 r q qs)
  obtain j' where j: "j = Suc j'" using 2(2) by (cases j) auto
  have "r - min r q \<noteq> 0"
  proof
    assume "r - min r q = 0"
    then have "fifo_alloc (r - min r q) qs ! j' = 0" using 2(3) by (simp add: j fifo_alloc_zero)
    with 2(4) show False by (simp add: j)
  qed
  then have "min r q = q" by (auto simp: min_def split: if_splits)
  with 2 show ?case by (cases i) (simp_all add: j)
qed simp

interpretation fifo: allocator fifo_alloc "\<lambda>_. True"
  by unfold_locales (simp_all add: fifo_alloc_le fifo_alloc_sum)

section \<open>Pro-rata keeps the contract\<close>

definition fits_u64 :: "u64 list \<Rightarrow> bool" where
  "fits_u64 qs \<longleftrightarrow> sum_list (map unat qs) < 2 ^ 64"

lemma top_up_eq:
  "length bs = length qs \<Longrightarrow> top_up r qs bs = map2 (+) bs (fifo_alloc r (map2 (-) qs bs))"
proof (induction qs arbitrary: r bs)
  case (Cons q qs)
  then show ?case by (cases bs) (auto simp: min.commute)
qed simp

lemma top_up_le: "list_all2 (\<le>) bs qs \<Longrightarrow> list_all2 (\<le>) (top_up r qs bs) qs"
proof (induction qs arbitrary: r bs)
  case (Cons q qs)
  then obtain c cs where bs: "bs = c # cs" "c \<le> q" "list_all2 (\<le>) cs qs"
    by (auto simp: list_all2_Cons2)
  with Cons.IH show ?case by (simp add: word_le_add_min)
qed simp

lemma top_up_sum:
  "list_all2 (\<le>) bs qs \<Longrightarrow> sum_list (map unat (top_up r qs bs)) =
     sum_list (map unat bs) + min (unat r) (sum_list (map unat qs) - sum_list (map unat bs))"
proof (induction qs arbitrary: r bs)
  case (Cons q qs)
  then obtain c cs where bs: "bs = c # cs" "c \<le> q" "list_all2 (\<le>) cs qs"
    by (auto simp: list_all2_Cons2)
  let ?t = "min (q - c) r"
  have "c + ?t \<le> q" using bs(2) word_le_add_min [of c q r] by simp
  have cq: "unat c \<le> unat q" using bs(2) by (simp add: word_le_nat_alt)
  have t: "unat ?t = min (unat q - unat c) (unat r)" using bs(2) by (simp add: unat_min unat_minus_le)
  have "unat c + unat ?t < 2 ^ 64" using t cq unat_u64_lt [of q] by simp
  then have 1: "unat (c + ?t) = unat c + unat ?t" by (rule unat_plus_no_wrap)
  have 2: "unat (r - ?t) = unat r - unat ?t" by (rule unat_minus_le) simp
  have 3: "sum_list (map unat cs) \<le> sum_list (map unat qs)"
    using bs(3) by (induction rule: list_all2_induct) (auto simp: word_le_nat_alt)
  show ?case
    unfolding bs(1) top_up.simps list.map sum_list.Cons 1 Cons.IH [OF bs(3), of "r - ?t"] 2 t
    using 3 cq by linarith
qed simp

lemma share_le:
  fixes tf q tot :: u64
  assumes "tf \<le> tot"
  shows "unat (tf * q div tot) \<le> unat tf * unat q div unat tot" "tf * q div tot \<le> q"
proof -
  show 1: "unat (tf * q div tot) \<le> unat tf * unat q div unat tot"
    unfolding unat_div using unat_mult_le by (rule div_le_mono)
  have "unat tf * unat q div unat tot \<le> unat q"
  proof (cases "unat tot = 0")
    case False
    have "unat tf * unat q \<le> unat q * unat tot"
      using assms by (simp add: word_le_nat_alt)
    with False show ?thesis by (metis div_le_mono nonzero_mult_div_cancel_right)
  qed simp
  with 1 show "tf * q div tot \<le> q" by (simp add: word_le_nat_alt)
qed

text \<open>The floor shares of a whole never exceed it.\<close>

lemma sum_floor_le:
  "(\<Sum>q\<leftarrow>qs. (t * q) div T) \<le> (t * sum_list qs) div (T::nat)"
proof (induction qs)
  case (Cons q qs)
  have "t * q div T + t * sum_list qs div T \<le> (t * q + t * sum_list qs) div T"
    unfolding div_add1_eq [of "t * q" "t * sum_list qs" T] by simp
  with Cons show ?case by (simp add: distrib_left)
qed simp

lemma sum_floor_ge:
  assumes "0 < T"
  shows "(t * sum_list qs) div T \<le> (\<Sum>q\<leftarrow>qs. (t * q) div T) + (length qs - 1)"
proof (induction qs)
  case (Cons q qs)
  show ?case
  proof (cases "qs = []")
    case False
    have "(t * q + t * sum_list qs) div T \<le> t * q div T + t * sum_list qs div T + 1"
    proof -
      have "(t * q mod T + t * sum_list qs mod T) div T < 2"
        using mod_less_divisor [OF assms, of "t * q"] mod_less_divisor [OF assms, of "t * sum_list qs"]
        by (intro less_mult_imp_div_less) linarith
      then show ?thesis unfolding div_add1_eq [of "t * q" "t * sum_list qs" T] by simp
    qed
    with Cons.IH False show ?thesis by (cases qs) (simp_all add: distrib_left)
  qed simp
qed simp

definition prorata_base :: "u64 \<Rightarrow> u64 list \<Rightarrow> u64 list" where
  "prorata_base r qs = map (\<lambda>q. (min r (sum_list qs) * q) div sum_list qs) qs"

lemma prorata_alloc_cases:
  "prorata_alloc r qs = (if sum_list qs = 0 \<or> r = 0 then map (\<lambda>_. 0) qs
     else top_up (min r (sum_list qs) - sum_list (prorata_base r qs)) qs (prorata_base r qs))"
  by (simp add: prorata_alloc_def prorata_base_def Let_def)

lemma prorata_base_le: "list_all2 (\<le>) (prorata_base r qs) qs"
proof -
  have "list_all2 (\<le>) (map (\<lambda>q. (min r t * q) div t) qs) qs" for t
    by (induction qs) (simp_all add: share_le(2))
  then show ?thesis by (simp add: prorata_base_def)
qed

lemma prorata_alloc_le: "list_all2 (\<le>) (prorata_alloc r qs) qs"
proof -
  have "list_all2 (\<le>) (map (\<lambda>_. 0) qs) qs" by (induction qs) auto
  with top_up_le [OF prorata_base_le] show ?thesis by (simp add: prorata_alloc_cases)
qed

definition floor_shares :: "u64 \<Rightarrow> u64 list \<Rightarrow> nat list" where
  "floor_shares r qs =
     (let T = sum_list (map unat qs) in map (\<lambda>q. min (unat r) T * unat q div T) qs)"

lemma fits_tot: "fits_u64 qs \<Longrightarrow> unat (sum_list qs) = sum_list (map unat qs)"
  unfolding fits_u64_def by (rule unat_sum_list)

lemma prorata_base_floor:
  assumes "fits_u64 qs"
  shows "list_all2 (\<le>) (map unat (prorata_base r qs)) (floor_shares r qs)"
proof -
  have "list_all2 (\<le>) (map unat (map (\<lambda>q. (min r t * q) div t) qs))
      (map (\<lambda>q. min (unat r) (unat t) * unat q div unat t) qs)" for t
    by (induction qs) (simp_all add: order_trans [OF share_le(1)] unat_min)
  then show ?thesis by (simp add: prorata_base_def floor_shares_def Let_def fits_tot [OF assms, symmetric])
qed

lemma list_all2_sum_le: "list_all2 (\<le>) xs ys \<Longrightarrow> sum_list xs \<le> sum_list (ys :: nat list)"
  by (induction rule: list_all2_induct) auto

lemma sum_floor_shares_le: "sum_list (floor_shares r qs) \<le> min (unat r) (sum_list (map unat qs))"
proof -
  let ?T = "sum_list (map unat qs)"
  have "sum_list (floor_shares r qs) \<le> min (unat r) ?T * ?T div ?T"
    using sum_floor_le [of "min (unat r) ?T" ?T "map unat qs"]
    by (simp add: floor_shares_def Let_def comp_def)
  then show ?thesis by (cases "?T = 0") (auto simp del: sum_list_eq_0_iff)
qed

lemma sum_floor_shares_ge:
  "min (unat r) (sum_list (map unat qs)) \<le> sum_list (floor_shares r qs) + (length qs - 1)"
proof -
  let ?T = "sum_list (map unat qs)"
  show ?thesis
  proof (cases "?T = 0")
    case False
    then have "min (unat r) ?T * ?T div ?T \<le> sum_list (floor_shares r qs) + (length qs - 1)"
      using sum_floor_ge [of ?T "min (unat r) ?T" "map unat qs"]
      by (simp add: floor_shares_def Let_def comp_def del: sum_list_eq_0_iff)
    with False show ?thesis by (simp del: sum_list_eq_0_iff)
  qed (simp del: sum_list_eq_0_iff)
qed

lemma prorata_base_sum:
  assumes "fits_u64 qs"
  shows "sum_list (map unat (prorata_base r qs)) \<le> min (unat r) (sum_list (map unat qs))"
  using list_all2_sum_le [OF prorata_base_floor [OF assms]] sum_floor_shares_le by (rule order_trans)

lemma prorata_alloc_sum:
  assumes fit: "fits_u64 qs"
  shows "sum_list (map unat (prorata_alloc r qs)) = min (unat r) (sum_list (map unat qs))"
proof (cases "sum_list qs = 0 \<or> r = 0")
  case True
  then show ?thesis
    using fits_tot [OF fit] by (auto simp: prorata_alloc_cases comp_def simp del: sum_list_eq_0_iff)
next
  case False
  let ?T = "sum_list (map unat qs)" and ?b = "prorata_base r qs"
  note b = prorata_base_sum [OF fit, of r]
  have u: "unat (min r (sum_list qs)) = min (unat r) ?T" by (simp add: unat_min fits_tot [OF fit])
  have s: "unat (sum_list ?b) = sum_list (map unat ?b)"
    by (rule unat_sum_list) (use b unat_u64_lt [of r] in linarith)
  have "unat (min r (sum_list qs) - sum_list ?b) = min (unat r) ?T - sum_list (map unat ?b)"
    using b by (subst unat_minus_le) (simp_all add: word_le_nat_alt u s)
  then show ?thesis
    using False b top_up_sum [OF prorata_base_le [of r qs], of "min r (sum_list qs) - sum_list ?b"]
    by (simp add: prorata_alloc_cases)
qed

interpretation prorata: allocator prorata_alloc fits_u64
  by unfold_locales (simp_all add: prorata_alloc_le prorata_alloc_sum)

text \<open>The two as one contract, chosen by the configured algorithm.\<close>

definition level_fits :: "MatchAlgo \<Rightarrow> u64 list \<Rightarrow> bool" where
  "level_fits algo qs \<longleftrightarrow> algo = ProRata \<longrightarrow> fits_u64 qs"

interpretation matching: allocator "level_alloc algo" "level_fits algo" for algo
  by unfold_locales
    (auto simp: level_alloc_def level_fits_def fifo.al_le prorata.al_le fifo.al_sum prorata.al_sum)

section \<open>Submission keeps abstract books well-formed and conserves quantity\<close>

lemma abs_match_sorted:
  "abs_match al g r ls = (ls', r', tr) \<Longrightarrow> sorted_wrt lt (map fst ls) \<Longrightarrow> sorted_wrt lt (map fst ls')"
proof (induction ls arbitrary: r ls' tr)
  case (Cons l ls)
  obtain p xs where l: "l = (p, xs)" by (cases l)
  from Cons.prems(1) [unfolded l] show ?case
  proof (cases rule: abs_match_cases)
    case empty
    then show ?thesis using Cons.IH [OF empty(2)] Cons.prems(2) by simp
  next
    case (more ls2 tr2)
    have "\<forall>q \<in> fst ` set ls. lt p q" using Cons.prems(2) by (simp add: l)
    then have "\<forall>q \<in> fst ` set ls2. lt p q" using abs_match_prices [OF more(5)] by blast
    then show ?thesis
      using Cons.IH [OF more(5)] Cons.prems(2) by (simp add: l more(6))
  qed (use Cons.prems(2) in \<open>simp_all add: l\<close>)
qed simp

lemma abs_match_same_order:
  "abs_match al g r ls = (ls', r', tr) \<Longrightarrow> (p, ys) \<in> set ls' \<Longrightarrow> y \<in> set ys \<Longrightarrow>
     \<exists>xs x. (p, xs) \<in> set ls \<and> x \<in> set xs \<and> same_order x y"
proof (induction ls arbitrary: r ls' tr)
  case (Cons l ls)
  obtain p1 xs where l: "l = (p1, xs)" by (cases l)
  let ?ys = "fill_queue xs (al r (leaves xs))"
  have refl: "same_order y y" by (simp add: same_order_def)
  have here: ?case if "(p, ys) = (p1, ?ys)"
  proof -
    have "y \<in> set ?ys" using Cons.prems(3) that by simp
    with same_order_fill_queue obtain x where "x \<in> set xs" "same_order x y"
      by (rule same_order_mem [THEN bexE])
    then show ?thesis using that by (intro exI [of _ xs] exI [of _ x]) (simp add: l)
  qed
  have there: ?case if "(p, ys) \<in> set ls"
    using that Cons.prems(3) refl by (intro exI [of _ ys] exI [of _ y]) simp
  from Cons.prems(1) [unfolded l] show ?case
  proof (cases rule: abs_match_cases)
    case empty
    then show ?thesis using Cons.IH [OF empty(2) Cons.prems(2,3)] by auto
  next
    case stop
    then show ?thesis using Cons.prems(2,3) refl unfolding l by blast
  next
    case exact
    then have "(p, ys) = (p1, ?ys) \<or> (p, ys) \<in> set ls" using Cons.prems(2) by auto
    then show ?thesis using here there by blast
  next
    case (more ls2 tr2)
    then have "(p, ys) = (p1, ?ys) \<or> (p, ys) \<in> set ls2" using Cons.prems(2) by auto
    then show ?thesis
    proof
      assume "(p, ys) \<in> set ls2"
      from Cons.IH [OF more(5) this Cons.prems(3)] show ?thesis by auto
    qed (rule here)
  qed
qed simp

lemma concat_sweep: "concat (map snd (sweep_levels ls)) = unfilled (concat (map snd ls))"
  by (induction ls) (auto simp: sweep_levels_def)

lemma sweep_levels_sorted:
  "sorted_wrt lt (map fst ls) \<Longrightarrow> sorted_wrt lt (map fst (sweep_levels ls))"
proof (induction ls)
  case (Cons l ls)
  have "fst ` set (sweep_levels ls) \<subseteq> fst ` set ls" by (force simp: sweep_levels_def)
  with Cons show ?case by (cases l) (auto simp: sweep_levels_def)
qed (simp add: sweep_levels_def)

lemma distinct_book_sweep:
  assumes "distinct (map fst (book_entries (A(sd := ls))))"
  shows "distinct (map fst (book_entries (A(sd := sweep_levels ls))))"
  using assms
  by (cases sd) (auto simp: book_entries_def side_entries_def concat_sweep distinct_map_filter)

lemma abook_wf_match_sweep:
  assumes wf: "abook_wf A" and m: "abs_match al g r (A sd) = (ls, r', tr)"
  shows "abook_wf (A(sd := sweep_levels ls))"
proof -
  have srt: "sorted_wrt (price_before sd) (map fst (sweep_levels ls))"
    using abs_match_sorted [OF m abook_wfD(1) [OF wf]] by (rule sweep_levels_sorted)
  have "map ident (book_entries (A(sd := ls))) = map ident (book_entries A)"
    using abs_match_ident [OF m] by (rule book_ident_upd)
  then have "map fst (map ident (book_entries (A(sd := ls)))) = map fst (map ident (book_entries A))"
    by (rule arg_cong)
  then have "distinct (map fst (book_entries (A(sd := ls))))"
    using abook_wfD(2) [OF wf] by (simp add: comp_def)
  moreover have "price (snd e) = p \<and> own_side (snd e) = sd"
    if "(p, xs) \<in> set (sweep_levels ls)" "e \<in> set xs" for p xs e
  proof -
    from that obtain ys where "(p, ys) \<in> set ls" "e \<in> set ys" by (auto simp: sweep_levels_mem)
    from abs_match_same_order [OF m this] obtain zs x
      where "(p, zs) \<in> set (A sd)" "x \<in> set zs" "same_order x e" by blast
    with abook_wfD(3,4) [OF wf, of p zs sd x] show ?thesis by (simp add: same_order_def)
  qed
  ultimately show ?thesis
    using wf srt distinct_book_sweep unfolding abook_wf_def by (auto split: if_splits)
qed

lemma volume_mset: "volume xs = (\<Sum>e \<in># mset xs. unat (leaves_qty (snd e)))"
  by (induction xs) auto

lemma volume_book_upd:
  "volume (book_entries (A(sd := ls))) + volume (concat (map snd (A sd))) =
     volume (book_entries A) + volume (concat (map snd ls))"
  by (cases sd) (simp_all add: book_entries_def side_entries_def)

lemma volume_rest:
  assumes "abook_wf A"
  shows "volume (book_entries (abs_rest a v A)) = volume (book_entries A) + unat (leaves_qty v)"
  by (simp add: volume_mset mset_abs_rest [OF assms])

context allocator
begin

lemma abs_submit_conserves:
  assumes sub: "abs_submit al a v A = (A', r, evs)" and wf: "abook_wf A"
    and fit: "\<forall>l \<in> set (A (opposite (own_side v))). fits (leaves (snd l))"
  shows "unat (leaves_qty v) = unat r + traded evs"
    "volume (book_entries A') + traded evs = volume (book_entries A) + unat r"
proof -
  define op where "op = opposite (own_side v)"
  obtain ls r' tr where m: "abs_match al v (leaves_qty v) (A op) = (ls, r', tr)"
    by (rule prod_cases3)
  define A1 where "A1 = A(op := sweep_levels ls)"
  have A': "A' = (if r = 0 then A1 else abs_rest a (v\<lparr>leaves_qty := r\<rparr>) A1)" and r: "r' = r"
    and evs: "traded evs = traded tr"
    using sub m by (auto simp: abs_submit_def Let_def op_def [symmetric] A1_def)
  note c = abs_match_conserves [OF m fit [folded op_def]]
  show "unat (leaves_qty v) = unat r + traded evs" using c r evs by simp
  have wf1: "abook_wf A1" unfolding A1_def using wf m by (rule abook_wf_match_sweep)
  have "volume (book_entries A1) + traded tr = volume (book_entries A)"
    using volume_book_upd [of A op "sweep_levels ls"] c
    by (simp add: A1_def concat_sweep volume_filter_live)
  then show "volume (book_entries A') + traded evs = volume (book_entries A) + unat r"
    using volume_rest [OF wf1] by (simp add: A' evs)
qed

end

section \<open>Filling one level\<close>

lemma top_up_ge:
  "list_all2 (\<le>) bs qs \<Longrightarrow> list_all2 (\<le>) (map unat bs) (map unat (top_up r qs bs))"
proof (induction qs arbitrary: r bs)
  case (Cons q qs)
  then obtain c cs where bs: "bs = c # cs" "c \<le> q" "list_all2 (\<le>) cs qs"
    by (auto simp: list_all2_Cons2)
  have "unat c + unat (min (q - c) r) < 2 ^ 64"
    using bs(2) unat_u64_lt [of q] by (simp add: unat_min unat_minus_le word_le_nat_alt)
  then have "unat (c + min (q - c) r) = unat c + unat (min (q - c) r)" by (rule unat_plus_no_wrap)
  with Cons.IH [OF bs(3)] show ?case by (simp add: bs(1))
qed simp

text \<open>The residual goes to the front: an order topped up has only full orders before it.\<close>

lemma top_up_priority:
  assumes "i < j" and "j < length qs" and "length bs = length qs"
    and "top_up r qs bs ! j \<noteq> bs ! j"
  shows "top_up r qs bs ! i = qs ! i"
proof -
  let ?cs = "map2 (-) qs bs"
  have "fifo_alloc r ?cs ! j \<noteq> 0" using assms by (auto simp: top_up_eq)
  then have "fifo_alloc r ?cs ! i = ?cs ! i" using assms(1-3) by (intro fifo_alloc_priority) auto
  with assms(1-3) show ?thesis by (simp add: top_up_eq)
qed

text \<open>Without 64-bit overflow in the products the shares are the documented floors.\<close>

definition shares_fit :: "u64 \<Rightarrow> u64 list \<Rightarrow> bool" where
  "shares_fit r qs \<longleftrightarrow> fits_u64 qs \<and>
     (\<forall>q \<in> set qs. min (unat r) (sum_list (map unat qs)) * unat q < 2 ^ 64)"

lemma prorata_base_exact:
  assumes "shares_fit r qs"
  shows "map unat (prorata_base r qs) = floor_shares r qs"
proof -
  let ?t = "sum_list qs"
  have fit: "fits_u64 qs" using assms by (simp add: shares_fit_def)
  have "unat (min r ?t * q div ?t) = min (unat r) (unat ?t) * unat q div unat ?t" if "q \<in> set qs" for q
  proof -
    have "unat (min r ?t) * unat q < 2 ^ 64"
      using assms that by (simp add: shares_fit_def unat_min fits_tot [OF fit])
    then have "unat (min r ?t * q) = unat (min r ?t) * unat q" by (rule unat_mult_no_wrap)
    then show ?thesis by (simp add: unat_div unat_min)
  qed
  then show ?thesis
    by (simp add: prorata_base_def floor_shares_def Let_def fits_tot [OF fit, symmetric])
qed

lemma floor_shares_zero:
  assumes "fits_u64 qs" and "sum_list qs = 0 \<or> r = 0"
  shows "floor_shares r qs = map (\<lambda>_. 0) qs"
  using assms fits_tot [OF assms(1)] by (auto simp: floor_shares_def Let_def simp del: sum_list_eq_0_iff)

lemma prorata_alloc_floor:
  assumes "shares_fit r qs"
  shows "list_all2 (\<le>) (floor_shares r qs) (map unat (prorata_alloc r qs))"
proof (cases "sum_list qs = 0 \<or> r = 0")
  case True
  have "fits_u64 qs" using assms by (simp add: shares_fit_def)
  from floor_shares_zero [OF this True] True show ?thesis
    by (simp add: prorata_alloc_cases list_all2_same comp_def)
next
  case False
  with top_up_ge [OF prorata_base_le [of r qs]] show ?thesis
    by (simp add: prorata_alloc_cases prorata_base_exact [OF assms, symmetric])
qed

lemma prorata_alloc_excess:
  assumes "shares_fit r qs"
  shows "sum_list (map unat (prorata_alloc r qs)) \<le> sum_list (floor_shares r qs) + (length qs - 1)"
  using prorata_alloc_sum [of qs r] sum_floor_shares_ge [of r qs] assms by (simp add: shares_fit_def)

lemma prorata_alloc_priority:
  assumes fit: "shares_fit r qs" and ij: "i < j" "j < length qs"
    and more: "floor_shares r qs ! j < unat (prorata_alloc r qs ! j)"
  shows "prorata_alloc r qs ! i = qs ! i"
proof -
  have "\<not> (sum_list qs = 0 \<or> r = 0)"
  proof
    assume "sum_list qs = 0 \<or> r = 0"
    with more ij show False by (simp add: prorata_alloc_cases)
  qed
  moreover have len: "length (prorata_base r qs) = length qs" by (simp add: prorata_base_def)
  moreover have "unat (prorata_base r qs ! j) = floor_shares r qs ! j"
    using prorata_base_exact [OF fit] len ij(2) by (metis nth_map)
  ultimately show ?thesis
    using top_up_priority [OF ij len, of "min r (sum_list qs) - sum_list (prorata_base r qs)"] more
    by (simp add: prorata_alloc_cases) (metis less_irrefl)
qed

lemma unat_filled:
  "level_fits algo qs \<Longrightarrow> unat (sum_list (level_alloc algo r qs)) = min (unat r) (sum_list (map unat qs))"
  by (rule matching.unat_sum_al)

end
