(* ===== verification/OB_Engine.thy ===== *)
theory OB_Engine
  imports OB_Matching_Spec
begin

text \<open>
  The engine as a transition system: memory and one book, changed by
  \<^verbatim>\<open>Matcher::submit\<close> of a freshly allocated order and by \<^verbatim>\<open>OrderBook::cancel\<close>, the two
  calls \<^verbatim>\<open>src/net/tcp_server.cpp\<close> makes. Every reachable state represents a live,
  uncrossed abstract book, the allocated orders are exactly the resting ones, and no call
  is ever stuck.

  A step submits an order only when its (session, ClOrdID) is not resting (what happens
  otherwise is \<open>rest_duplicate\<close>), and under pro-rata only while the resting quantity fits
  64 bits.
\<close>

type_synonym engine = "heap \<times> OrderBook"

definition heap_volume :: "heap \<Rightarrow> nat" where
  "heap_volume h = (\<Sum>a \<in> dom h. unat (leaves_qty (the (h a))))"

definition admits :: "MatchAlgo \<Rightarrow> heap \<Rightarrow> Order \<Rightarrow> bool" where
  "admits algo h v \<longleftrightarrow> (algo = ProRata \<longrightarrow> heap_volume h + unat (leaves_qty v) < 2 ^ 64)"

inductive engine_step :: "MatchAlgo \<Rightarrow> engine \<Rightarrow> engine \<Rightarrow> bool" for algo :: MatchAlgo where
  submit_step: "h a = None \<Longrightarrow> find b (session v) (clord_id v) = None \<Longrightarrow> admits algo h v \<Longrightarrow>
    submit algo (h(a \<mapsto> v)) b a [] = Some (h', b', evs) \<Longrightarrow> engine_step algo (h, b) (h', b')"
| cancel_step: "cancel h b s c = Some ((h', b'), res) \<Longrightarrow> engine_step algo (h, b) (h', b')"

inductive reachable :: "MatchAlgo \<Rightarrow> engine \<Rightarrow> bool" for algo :: MatchAlgo where
  start: "reachable algo (Map.empty, new_book sy)"
| step: "reachable algo s \<Longrightarrow> engine_step algo s s' \<Longrightarrow> reachable algo s'"

inductive_cases engine_stepE: "engine_step algo (h, b) s"

definition engine_rep :: "MatchAlgo \<Rightarrow> engine \<Rightarrow> abook \<Rightarrow> bool" where
  "engine_rep algo s A \<longleftrightarrow> book_rep (fst s) (snd s) A \<and> live A \<and> uncrossed A \<and>
     dom (fst s) = addrs A \<and> (algo = ProRata \<longrightarrow> volume (book_entries A) < 2 ^ 64)"

lemma engine_repD:
  assumes "engine_rep algo (h, b) A"
  shows "book_rep h b A" "live A" "uncrossed A" "dom h = addrs A"
    "algo = ProRata \<Longrightarrow> volume (book_entries A) < 2 ^ 64"
  using assms by (simp_all add: engine_rep_def)

lemma heap_volume_rep:
  assumes "book_rep h b A" and "dom h = addrs A"
  shows "heap_volume h = volume (book_entries A)"
proof -
  have "heap_volume h = (\<Sum>a\<leftarrow>map fst (book_entries A). unat (leaves_qty (the (h a))))"
    using abook_wfD(2) [OF book_repD(2) [OF assms(1)]] assms(2)
    by (simp add: heap_volume_def sum.distinct_set_conv_list [symmetric] del: map_map)
  also have "\<dots> = volume (book_entries A)"
  proof -
    have "unat (leaves_qty (the (h (fst e)))) = unat (leaves_qty (snd e))"
      if "e \<in> set (book_entries A)" for e
      using book_rep_mem [OF assms(1), of "fst e" "snd e"] that by (auto dest!: sym [of "payload _"])
    then show ?thesis by (auto simp: volume_def comp_def intro: arg_cong [where f = sum_list])
  qed
  finally show ?thesis .
qed

lemma level_volume: "(p, xs) \<in> set (A sd) \<Longrightarrow> volume xs \<le> volume (book_entries A)"
proof -
  assume "(p, xs) \<in> set (A sd)"
  then obtain l1 l2 where "A sd = l1 @ (p, xs) # l2" by (meson split_list)
  then show ?thesis by (cases sd) (simp_all add: book_entries_def side_entries_def)
qed

lemma engine_fits:
  assumes "engine_rep algo (h, b) A"
  shows "\<forall>l \<in> set (A sd). level_fits algo (leaves (snd l))"
  using engine_repD(5) [OF assms] level_volume [of _ _ A sd]
  by (fastforce simp: level_fits_def fits_u64_def volume_def)

lemma engine_start: "engine_rep algo (Map.empty, new_book sy) (\<lambda>_. [])"
  by (simp add: engine_rep_def book_rep_new uncrossed_empty live_empty book_entries_def side_entries_def)

text \<open>A submission returns, and the engine afterwards represents the abstract submission.\<close>

lemma engine_submit:
  assumes E: "engine_rep algo (h, b) A" and a: "h a = None"
    and key: "find b (session v) (clord_id v) = None" and adm: "admits algo h v"
    and sub: "abs_submit (level_alloc algo) a (payload v) A = (A', r, evs)"
  shows "\<exists>h' b'. submit algo (h(a \<mapsto> v)) b a [] = Some (h', b', evs) \<and> engine_rep algo (h', b') A'"
proof -
  note rep = engine_repD(1) [OF E]
  have fresh: "a \<notin> addrs A" using a engine_repD(4) [OF E] by blast
  have "book_rep (h(a \<mapsto> v)) b A"
    using rep by (rule book_rep_frame) (use fresh in auto)
  moreover have "index b (index_key v) = None" using key by (simp add: find_def index_key_def)
  ultimately obtain h' b' where s: "submit algo (h(a \<mapsto> v)) b a [] = Some (h', b', evs)"
    and rep': "book_rep h' b' A'"
    and out: "\<forall>c. c \<notin> addrs A' \<longrightarrow> h' c = (if c \<in> insert a (addrs A) then None else (h(a \<mapsto> v)) c)"
    using submit_rep [of "h(a \<mapsto> v)" b A a v algo A' r evs "[]"] fresh sub by auto
  have "h c = None" if "c \<notin> addrs A" for c using that engine_repD(4) [OF E] by blast
  with out have "dom h' \<subseteq> addrs A'" by (auto split: if_splits)
  then have dom: "dom h' = addrs A'" using book_rep_alloc [OF rep'] by blast
  have wf: "abook_wf A" using rep by (rule book_repD)
  have side: "own_side (payload v) = own_side v" by (simp add: own_side_def)
  have "live A' \<and> uncrossed A'"
    using sub wf engine_repD(2,3) [OF E] engine_fits [OF E]
    by (rule matching.abs_submit_uncrossed)
  moreover have "volume (book_entries A') < 2 ^ 64" if "algo = ProRata"
    using matching.abs_submit_conserves [OF sub wf engine_fits [OF E]] adm that
      heap_volume_rep [OF rep engine_repD(4) [OF E]]
    by (simp add: admits_def)
  ultimately have "engine_rep algo (h', b') A'" using rep' dom by (simp add: engine_rep_def)
  with s show ?thesis by blast
qed

lemma uncrossed_remove: "uncrossed A \<Longrightarrow> uncrossed (abs_remove a A)"
  unfolding uncrossed_def abs_remove_def by (fastforce simp: filter_empty_conv)

lemma volume_remove: "volume (filter P xs) \<le> volume xs"
  by (induction xs) auto

lemma engine_cancel:
  assumes E: "engine_rep algo (h, b) A" and e: "(a, v) \<in> set (book_entries A)"
    and k: "index_key v = (s, clord_value c)"
  shows "\<exists>h' b'. cancel h b s c = Some ((h', b'), \<lparr>ok = True, reason = ''''\<rparr>) \<and>
     engine_rep algo (h', b') (abs_remove a A)"
proof -
  from cancel_rep [OF engine_repD(1) [OF E] e k] obtain h' b' where
    1: "cancel h b s c = Some ((h', b'), \<lparr>ok = True, reason = ''''\<rparr>)"
      "book_rep h' b' (abs_remove a A)" "dom h' = dom h - {a}" by blast
  have "dom h' = addrs (abs_remove a A)"
    using 1(3) engine_repD(4) [OF E] by (auto simp: book_entries_abs_remove)
  moreover have "live (abs_remove a A)"
    using engine_repD(2) [OF E] by (simp add: live_def book_entries_abs_remove)
  moreover have "volume (book_entries (abs_remove a A)) \<le> volume (book_entries A)"
    unfolding book_entries_abs_remove by (rule volume_remove)
  ultimately have "engine_rep algo (h', b') (abs_remove a A)"
    using 1(2) uncrossed_remove [OF engine_repD(3) [OF E], of a] engine_repD(5) [OF E]
    by (auto simp: engine_rep_def)
  with 1(1) show ?thesis by blast
qed

lemma engine_cancel_total:
  assumes E: "engine_rep algo (h, b) A"
  shows "\<exists>h' b' res A'. cancel h b s c = Some ((h', b'), res) \<and> engine_rep algo (h', b') A' \<and>
    (ok res \<longleftrightarrow> find b s c \<noteq> None) \<and> find b' s c = None"
proof (cases "index b (s, clord_value c)")
  case None
  with cancel_unknown [OF None, of h] E show ?thesis by (auto simp: find_def)
next
  case (Some a)
  then obtain v where v: "(a, v) \<in> set (book_entries A)" "index_key v = (s, clord_value c)"
    using index_repD [OF book_repD(3) [OF engine_repD(1) [OF E]]] by blast
  from engine_cancel [OF E v] obtain h' b' where
    1: "cancel h b s c = Some ((h', b'), \<lparr>ok = True, reason = ''''\<rparr>)"
      "engine_rep algo (h', b') (abs_remove a A)" by blast
  have "index_key w \<noteq> (s, clord_value c)" if "(a', w) \<in> set (book_entries A)" "a' \<noteq> a" for a' w
    using that Some index_repD [OF book_repD(3) [OF engine_repD(1) [OF E]]] by (metis option.inject)
  then have "index b' (s, clord_value c) = None"
    unfolding index_rep_None [OF book_repD(3) [OF engine_repD(1) [OF 1(2)]]]
    by (auto simp: book_entries_abs_remove)
  with 1 Some show ?thesis by (fastforce simp: find_def)
qed

lemma engine_step_rep:
  assumes "engine_step algo s s'" and "engine_rep algo s A"
  shows "\<exists>A'. engine_rep algo s' A'"
  using assms
proof cases
  case (submit_step h a b v h' b' evs)
  obtain A' r evs' where "abs_submit (level_alloc algo) a (payload v) A = (A', r, evs')"
    by (rule prod_cases3)
  from engine_submit [OF _ submit_step(3-5) this] submit_step assms(2) show ?thesis by auto
next
  case (cancel_step h b s c h' b' res)
  with engine_cancel_total [of algo h b A s c] assms(2) show ?thesis by auto
qed

lemma reachable_rep: "reachable algo s \<Longrightarrow> \<exists>A. engine_rep algo s A"
proof (induction rule: reachable.induct)
  case (start sy)
  then show ?case using engine_start by blast
next
  case (step s s')
  then show ?case using engine_step_rep by blast
qed

lemma best_prices:
  assumes "book_rep h b A"
  shows "first_nonempty (levels sd b) = Some p \<Longrightarrow> \<exists>xs. (p, xs) \<in> set (A sd) \<and> xs \<noteq> [] \<and>
    (\<forall>q ys. (q, ys) \<in> set (A sd) \<longrightarrow> ys \<noteq> [] \<longrightarrow> q = p \<or> price_before sd p q)"
proof -
  assume "first_nonempty (levels sd b) = Some p"
  moreover have "rel_map (\<lambda>p. level_rep h) (levels sd b) (A sd)"
    using book_repD(1) [OF assms] by (simp add: levels_rep_def)
  ultimately obtain xs where "List.find (\<lambda>l. snd l \<noteq> []) (A sd) = Some (p, xs)"
    by (auto simp: first_nonempty_rel)
  with first_nonempty_best [OF abook_wfD(1) [OF book_repD(2) [OF assms]]] show ?thesis by blast
qed

lemma reachable_uncrossed:
  assumes "reachable algo (h, b)" and "best_bid b = Some p" and "best_ask b = Some q"
  shows "p < q"
proof -
  obtain A where E: "engine_rep algo (h, b) A" using reachable_rep [OF assms(1)] by blast
  from best_prices [OF engine_repD(1) [OF E], of Bids p] best_prices [OF engine_repD(1) [OF E], of Asks q]
    assms(2,3) engine_repD(3) [OF E]
  show ?thesis by (auto simp: best_bid_def best_ask_def uncrossed_def)
qed

section \<open>What one submission does\<close>

text \<open>The engine after a submission, from the result the code returned.\<close>

lemma submitted:
  assumes E: "engine_rep algo (h, b) A" and a: "h a = None"
    and key: "find b (session v) (clord_id v) = None" and adm: "admits algo h v"
    and s: "submit algo (h(a \<mapsto> v)) b a [] = Some (h', b', evs)"
  obtains A' r where "abs_submit (level_alloc algo) a (payload v) A = (A', r, evs)"
    "engine_rep algo (h', b') A'"
proof -
  obtain A' r evs' where abs: "abs_submit (level_alloc algo) a (payload v) A = (A', r, evs')"
    by (rule prod_cases3)
  from engine_submit [OF E a key adm this] s abs that show thesis by auto
qed

lemma engine_mem:
  assumes E: "engine_rep algo (h, b) A" and w: "h c = Some w"
  obtains p xs where "(p, xs) \<in> set (A (own_side w))" "(c, payload w) \<in> set xs" "p = price w"
proof -
  have "c \<in> addrs A" using w engine_repD(4) [OF E] by blast
  then obtain u where u: "(c, u) \<in> set (book_entries A)" by auto
  then have "u = payload w" using book_rep_mem [OF engine_repD(1) [OF E] u] w by auto
  with u obtain sd p xs where x: "(p, xs) \<in> set (A sd)" "(c, payload w) \<in> set xs"
    by (auto simp: book_entries_mem)
  with abook_wfD(3,4) [OF book_repD(2) [OF engine_repD(1) [OF E]] x] that show thesis
    by (auto simp: own_side_def)
qed

lemma abs_submit_opposite:
  assumes "abs_submit al a v A = (A', r, evs)"
    and "abs_match al v (leaves_qty v) (A (opposite (own_side v))) = (ls, r', tr)"
  shows "A' (opposite (own_side v)) = sweep_levels ls" "TradeEv t \<in> set evs \<longleftrightarrow> TradeEv t \<in> set tr" "r' = r"
  using assms
  by (auto simp: abs_submit_def Let_def abs_rest_def put_queue_def own_side_def opposite_neq)

text \<open>No trade-through: nothing better than a traded price is left on the other side.\<close>

lemma submit_priority:
  assumes E: "engine_rep algo (h, b) A" and a: "h a = None"
    and key: "find b (session v) (clord_id v) = None" and adm: "admits algo h v"
    and s: "submit algo (h(a \<mapsto> v)) b a [] = Some (h', b', evs)" and t: "TradeEv t \<in> set evs"
  shows "crosses (side v) (price v) (trade_price t)"
    "h' c = Some w \<Longrightarrow> own_side w = opposite (own_side v) \<Longrightarrow>
       \<not> price_before (own_side w) (price w) (trade_price t)"
proof -
  define op where "op = opposite (own_side v)"
  obtain A' r where abs: "abs_submit (level_alloc algo) a (payload v) A = (A', r, evs)"
    and E': "engine_rep algo (h', b') A'" using submitted [OF E a key adm s] .
  obtain ls r' tr where m: "abs_match (level_alloc algo) (payload v) (leaves_qty v) (A op) = (ls, r', tr)"
    by (rule prod_cases3)
  have own: "own_side (payload v) = own_side v" by (simp add: own_side_def)
  have A': "A' op = sweep_levels ls" and t': "TradeEv t \<in> set tr"
    using abs_submit_opposite [OF abs, of ls r' tr] m t by (simp_all add: own op_def)
  show "crosses (side v) (price v) (trade_price t)"
    using matching.abs_match_trades [OF m t'] by auto
  assume w: "h' c = Some w" "own_side w = opposite (own_side v)"
  from engine_mem [OF E' w(1)] obtain ys where y: "(price w, ys) \<in> set (A' op)" "(c, payload w) \<in> set ys"
    using w(2) by (auto simp: op_def)
  then obtain xs where x: "(price w, xs) \<in> set ls" "(c, payload w) \<in> set xs" "leaves_qty w \<noteq> 0"
    unfolding A' by (auto simp: sweep_levels_mem)
  show "\<not> price_before (own_side w) (price w) (trade_price t)"
  proof
    assume better: "price_before (own_side w) (price w) (trade_price t)"
    have "leaves_qty (snd (c, payload w)) = 0"
      using m engine_fits [OF E] abook_wfD(1) [OF book_repD(2) [OF engine_repD(1) [OF E]]] t' x(1)
        better [unfolded w(2), folded op_def] x(2)
      by (rule matching.abs_match_priority)
    with x(3) show False by simp
  qed
qed

lemma submit_conserves:
  assumes E: "engine_rep algo (h, b) A" and a: "h a = None"
    and key: "find b (session v) (clord_id v) = None" and adm: "admits algo h v"
  shows "\<exists>h' b' evs r. submit algo (h(a \<mapsto> v)) b a [] = Some (h', b', evs) \<and>
     unat (leaves_qty v) = unat r + traded evs \<and>
     heap_volume h' + traded evs = heap_volume h + unat r \<and>
     (r \<noteq> 0 \<longrightarrow> (\<exists>w. h' a = Some w \<and> leaves_qty w = r))"
proof -
  obtain A' r evs where abs: "abs_submit (level_alloc algo) a (payload v) A = (A', r, evs)"
    by (rule prod_cases3)
  from engine_submit [OF E a key adm abs] obtain h' b' where
    s: "submit algo (h(a \<mapsto> v)) b a [] = Some (h', b', evs)" and E': "engine_rep algo (h', b') A'"
    by blast
  note c = matching.abs_submit_conserves [OF abs book_repD(2) [OF engine_repD(1) [OF E]] engine_fits [OF E]]
  have "heap_volume h = volume (book_entries A)" "heap_volume h' = volume (book_entries A')"
    using heap_volume_rep engine_repD(1,4) [OF E] engine_repD(1,4) [OF E'] by blast+
  moreover have "\<exists>w. h' a = Some w \<and> leaves_qty w = r" if "r \<noteq> 0"
  proof -
    obtain ls r' tr where m:
      "abs_match (level_alloc algo) v (leaves_qty v) (A (opposite (own_side v))) = (ls, r', tr)"
      by (rule prod_cases3)
    have own: "own_side (payload v) = own_side v" by (simp add: own_side_def)
    let ?A1 = "A(opposite (own_side v) := sweep_levels ls)"
    have "A' = abs_rest a ((payload v)\<lparr>leaves_qty := r\<rparr>) ?A1"
      using abs m that by (auto simp: abs_submit_def Let_def own)
    moreover have "abook_wf ?A1"
      using book_repD(2) [OF engine_repD(1) [OF E]] m by (rule abook_wf_match_sweep)
    ultimately have "(a, (payload v)\<lparr>leaves_qty := r\<rparr>) \<in> set (book_entries A')"
      by (simp add: set_abs_rest)
    from book_rep_mem [OF engine_repD(1) [OF E'] this] obtain w
      where "h' a = Some w" "payload w = (payload v)\<lparr>leaves_qty := r\<rparr>" by blast
    then have "leaves_qty (payload w) = r" by simp
    with \<open>h' a = Some w\<close> show ?thesis by simp
  qed
  ultimately show ?thesis using s c by auto
qed

end
