(* ===== verification/OB_Examples.thy ===== *)
theory OB_Examples
  imports OB_Engine
begin

text \<open>
  Concrete engine states, computed from the definitions: a book with one resting sell of
  10 at 100, and the submission of a buy of 4 at 101 against it. The properties of the
  engine are instantiated on them.
\<close>

definition sample_order :: "u64 \<Rightarrow> Side \<Rightarrow> Price \<Rightarrow> u64 \<Rightarrow> string \<Rightarrow> Order" where
  "sample_order i sd p q c = \<lparr>order_id = i, session = 0, clord_id = \<lparr>clord_value = c\<rparr>, side = sd,
     ord_type = Limit, price = p, orig_qty = q, leaves_qty = q, ts = 0, prv = None, nxt = None\<rparr>"

definition sell_10 :: Order where
  "sell_10 = sample_order 1 Sell 100 10 ''S1''"

definition buy_4 :: Order where
  "buy_4 = sample_order 2 Buy 101 4 ''B1''"

definition ask_book :: "u64 \<Rightarrow> OrderBook" where
  "ask_book q = (new_book ''ACME'')\<lparr>asks := [(100, \<lparr>head = Some 0, tail = Some 0, count = 1, total_qty = q\<rparr>)],
     index := [(0, ''S1'') \<mapsto> 0]\<rparr>"

definition ask_abook :: abook where
  "ask_abook sd = (if sd = Asks then [(100, [(0, sell_10)])] else [])"

definition sample_ack :: "Order \<Rightarrow> Event" where
  "sample_ack v = AckEv \<lparr>ack_id = order_id v, ack_clord_id = clord_id v\<rparr>"

definition sample_trade :: Event where
  "sample_trade = mk_trade buy_4 100 (0, sell_10) 4"

lemmas sample_defs = sample_order_def sell_10_def buy_4_def ask_book_def sample_ack_def sample_trade_def

lemmas run_defs = submit_def match_aggressive_def walk_asks_def walk_bids_def walk_def on_level_def
  new_book_def rest_def push_back_def level_at_def index_key_def new_level_def level_empty_def
  sweep_def sweep_loop.simps fill_level_fifo_def fifo_loop.simps crosses_def emit_trade_def
  put_level_def note_qty_delta_def find_def mk_trade_def Buy_def Sell_def

lemma sample_rest:
  "submit algo [0 \<mapsto> sell_10] (new_book ''ACME'') 0 [] =
     Some ([0 \<mapsto> sell_10], ask_book 10, [sample_ack sell_10])"
  by (simp add: run_defs sample_defs)

lemma sample_match:
  "submit Fifo [0 \<mapsto> sell_10, 1 \<mapsto> buy_4] (ask_book 10) 1 [] =
     Some ([0 \<mapsto> sell_10\<lparr>leaves_qty := 6\<rparr>], ask_book 6, [sample_ack buy_4, sample_trade])"
  by (simp add: run_defs sample_defs fun_upd_twist)

lemma reachable_ask_book: "reachable algo ([0 \<mapsto> sell_10], ask_book 10)"
proof (rule reachable.step [OF reachable.start])
  show "engine_step algo (Map.empty, new_book ''ACME'') ([0 \<mapsto> sell_10], ask_book 10)"
    by (rule submit_step [OF _ _ _ sample_rest])
      (simp_all add: find_def new_book_def admits_def heap_volume_def sample_defs)
qed

lemma engine_ask_book: "engine_rep algo ([0 \<mapsto> sell_10], ask_book 10) ask_abook"
proof -
  have "abs_submit (level_alloc algo) 0 (payload sell_10) (\<lambda>_. []) =
      (ask_abook, 10, [sample_ack sell_10])"
    by (simp add: abs_submit_def Let_def own_side_def sample_defs sweep_levels_def abs_rest_def
        put_queue_def queue_at_def ask_abook_def fun_eq_iff payload_def Buy_def Sell_def)
  from engine_submit [OF engine_start _ _ _ this, of "''ACME''"] show ?thesis
    using sample_rest
    by (simp add: find_def new_book_def admits_def heap_volume_def sample_defs)
qed
lemma ask_book_addrs: "addrs ask_abook = {0}"
  by (simp add: ask_abook_def book_entries_def side_entries_def)

lemma ask_book_rep: "book_rep [0 \<mapsto> sell_10, 1 \<mapsto> buy_4] (ask_book 10) ask_abook"
  using engine_repD(1) [OF engine_ask_book] by (rule book_rep_frame) (simp add: ask_book_addrs)

lemma reachable_after_match: "reachable Fifo ([0 \<mapsto> sell_10\<lparr>leaves_qty := 6\<rparr>], ask_book 6)"
proof (rule reachable.step [OF reachable_ask_book])
  show "engine_step Fifo ([0 \<mapsto> sell_10], ask_book 10) ([0 \<mapsto> sell_10\<lparr>leaves_qty := 6\<rparr>], ask_book 6)"
    by (rule submit_step [OF _ _ _ sample_match])
      (simp_all add: find_def new_book_def admits_def sample_defs)
qed

definition buy_low :: Order where
  "buy_low = sample_order 3 Buy 99 5 ''B2''"

definition two_sided :: OrderBook where
  "two_sided = (ask_book 10)\<lparr>bids := [(99, \<lparr>head = Some 1, tail = Some 1, count = 1, total_qty = 5\<rparr>)],
     index := [(0, ''S1'') \<mapsto> 0, (0, ''B2'') \<mapsto> 1]\<rparr>"

lemma reachable_two_sided: "reachable Fifo ([0 \<mapsto> sell_10, 1 \<mapsto> buy_low], two_sided)"
proof (rule reachable.step [OF reachable_ask_book])
  have "submit Fifo [0 \<mapsto> sell_10, 1 \<mapsto> buy_low] (ask_book 10) 1 [] =
      Some ([0 \<mapsto> sell_10, 1 \<mapsto> buy_low], two_sided, [sample_ack buy_low])"
    by (simp add: run_defs sample_defs buy_low_def two_sided_def)
  then show "engine_step Fifo ([0 \<mapsto> sell_10], ask_book 10) ([0 \<mapsto> sell_10, 1 \<mapsto> buy_low], two_sided)"
    by (rule submit_step [rotated -1])
      (simp_all add: find_def new_book_def admits_def sample_defs buy_low_def)
qed

section \<open>One level with two orders\<close>

definition pair_heap :: "u64 \<Rightarrow> u64 \<Rightarrow> u64 \<Rightarrow> heap" where
  "pair_heap p q r =
     [0 \<mapsto> (sample_order 1 Sell 100 p ''S1'')\<lparr>nxt := Some 1\<rparr>,
      1 \<mapsto> (sample_order 2 Sell 100 q ''S2'')\<lparr>prv := Some 0\<rparr>,
      2 \<mapsto> sample_order 3 Buy 100 r ''B1'']"

definition pair_level :: "u64 \<Rightarrow> u64 \<Rightarrow> PriceLevel" where
  "pair_level p q = \<lparr>head = Some 0, tail = Some 1, count = 2, total_qty = p + q\<rparr>"

definition pair_queue :: "u64 \<Rightarrow> u64 \<Rightarrow> entry list" where
  "pair_queue p q = [(0, sample_order 1 Sell 100 p ''S1''), (1, sample_order 2 Sell 100 q ''S2'')]"

lemma pair_level_rep: "level_rep (pair_heap p q r) (pair_level p q) (pair_queue p q)"
  by (simp add: level_rep_def pair_heap_def pair_level_def pair_queue_def sample_order_def payload_def)

lemma pair_aggressor: "pair_heap p q r 2 = Some (sample_order 3 Buy 100 r ''B1'')"
  "2 \<notin> fst ` set (pair_queue p q)"
  by (simp_all add: pair_heap_def pair_queue_def)

lemma pair_leaves: "leaves (pair_queue p q) = [p, q]"
  by (simp add: pair_queue_def sample_order_def)

lemmas prorata_run_defs = fill_level_prorata_def snapshot.simps note_qty_delta_def emit_trade_def
  pair_heap_def pair_level_def sample_order_def

end
