(* ===== verification/FIX_Decimal.thy ===== *)
theory FIX_Decimal
  imports OB_Types
begin

text \<open>
  The standard library's number conversions the FIX code relies on:
  \<^verbatim>\<open>std::to_string\<close> for signed and unsigned integers, \<^verbatim>\<open>std::stoull\<close> and \<^verbatim>\<open>std::stoll\<close>
  with the exceptions they throw. The round trips between them are the arithmetic behind
  every sequence number, quantity and price on the wire.
\<close>

section \<open>Digits\<close>

definition is_digit :: "char \<Rightarrow> bool" where
  "is_digit c \<longleftrightarrow> 48 \<le> (of_char c :: nat) \<and> (of_char c :: nat) \<le> 57"

definition digit_val :: "char \<Rightarrow> nat" where
  "digit_val c = of_char c - 48"

definition digit_char :: "nat \<Rightarrow> char" where
  "digit_char d = char_of (48 + d)"

definition digits_val :: "string \<Rightarrow> nat" where
  "digits_val s = fold (\<lambda>c n. n * 10 + digit_val c) s 0"

fun show_nat :: "nat \<Rightarrow> string" where
  "show_nat n = (if n < 10 then [digit_char n] else show_nat (n div 10) @ [digit_char (n mod 10)])"

declare show_nat.simps [simp del]

definition show_u64 :: "u64 \<Rightarrow> string" where
  "show_u64 w = show_nat (unat w)"

definition show_int :: "int \<Rightarrow> string" where
  "show_int i = (if i < 0 then CHR ''-'' # show_nat (nat (- i)) else show_nat (nat i))"

section \<open>Conversions that throw\<close>

datatype exn = InvalidArgument | OutOfRange

definition is_space :: "char \<Rightarrow> bool" where
  "is_space c \<longleftrightarrow> (of_char c :: nat) = 32 \<or> 9 \<le> (of_char c :: nat) \<and> (of_char c :: nat) \<le> 13"

fun sign_split :: "string \<Rightarrow> bool \<times> string" where
  "sign_split (c # s) = (if c = CHR ''-'' then (True, s) else if c = CHR ''+'' then (False, s) else (False, c # s))"
| "sign_split [] = (False, [])"

definition stoull :: "string \<Rightarrow> exn + u64" where
  "stoull s =
     (let (neg, t) = sign_split (dropWhile is_space s); ds = takeWhile is_digit t in
      if ds = [] then Inl InvalidArgument
      else if digits_val ds \<ge> 2 ^ 64 then Inl OutOfRange
      else Inr (if neg then - of_nat (digits_val ds) else of_nat (digits_val ds)))"

definition stoll :: "string \<Rightarrow> exn + int" where
  "stoll s =
     (let (neg, t) = sign_split (dropWhile is_space s); ds = takeWhile is_digit t in
      if ds = [] then Inl InvalidArgument
      else let i = (if neg then - int (digits_val ds) else int (digits_val ds)) in
        if i < - (2 ^ 63) \<or> i \<ge> 2 ^ 63 then Inl OutOfRange else Inr i)"

section \<open>Round trips\<close>

lemma of_char_digit [simp]: "d < 10 \<Longrightarrow> (of_char (digit_char d) :: nat) = 48 + d"
  by (simp add: digit_char_def)

lemma is_digit_char [simp]: "d < 10 \<Longrightarrow> is_digit (digit_char d)"
  by (simp add: is_digit_def)

lemma digit_val_char [simp]: "d < 10 \<Longrightarrow> digit_val (digit_char d) = d"
  by (simp add: digit_val_def)

lemma show_nat_nonempty [simp]: "show_nat n \<noteq> []"
  by (subst show_nat.simps) simp

lemma show_nat_digits: "c \<in> set (show_nat n) \<Longrightarrow> is_digit c"
proof (induction n rule: show_nat.induct)
  case (1 n)
  then show ?case by (subst (asm) (2) show_nat.simps) (auto split: if_splits)
qed

lemma digits_val_append: "digits_val (s @ [c]) = digits_val s * 10 + digit_val c"
  by (simp add: digits_val_def)

lemma digits_val_show [simp]: "digits_val (show_nat n) = n"
proof (induction n rule: show_nat.induct)
  case (1 n)
  show ?case
  proof (cases "n < 10")
    case True
    then show ?thesis by (subst show_nat.simps) (simp add: digits_val_def)
  next
    case False
    with 1 show ?thesis by (subst show_nat.simps) (simp add: digits_val_append)
  qed
qed

lemma takeWhile_show: "(\<And>c cs. s = c # cs \<Longrightarrow> \<not> is_digit c) \<Longrightarrow> takeWhile is_digit (show_nat n @ s) = show_nat n"
  by (cases s) (auto simp: takeWhile_append2 show_nat_digits)

lemma takeWhile_show_nat [simp]: "takeWhile is_digit (show_nat n) = show_nat n"
  by (simp add: show_nat_digits)

lemma show_nat_hd:
  obtains c cs where "show_nat n = c # cs" "is_digit c"
  using show_nat_digits [of _ n] by (cases "show_nat n") auto

lemma is_digit_not_special:
  assumes "is_digit c"
  shows "\<not> is_space c" "c \<noteq> CHR ''-''" "c \<noteq> CHR ''+''" "c \<noteq> CHR ''=''"
  using assms by (auto simp: is_digit_def is_space_def)

lemma sign_split_show: "sign_split (dropWhile is_space (show_nat n @ s)) = (False, show_nat n @ s)"
proof -
  obtain c cs where "show_nat n = c # cs" "is_digit c" by (rule show_nat_hd)
  then show ?thesis by (simp add: is_digit_not_special)
qed

text \<open>Reading back a number stops at the first character that is not a digit.\<close>

lemma stoull_show:
  assumes "\<And>c cs. s = c # cs \<Longrightarrow> \<not> is_digit c" and "n < 2 ^ 64"
  shows "stoull (show_nat n @ s) = Inr (of_nat n)"
  using takeWhile_show [of s n] assms by (simp add: stoull_def sign_split_show)

lemma stoull_show_u64 [simp]: "stoull (show_u64 w) = Inr w"
  using stoull_show [of "[]" "unat w"] unat_u64_lt [of w] by (simp add: show_u64_def)

lemma stoll_show_int:
  assumes "- (2 ^ 63) \<le> i" and "i < 2 ^ 63"
  shows "stoll (show_int i) = Inr i"
proof (cases "i < 0")
  case True
  have "\<not> is_space CHR ''-''" by (simp add: is_space_def)
  with True assms show ?thesis
    by (simp add: stoll_def show_int_def Let_def del: takeWhile_eq_all_conv)
next
  case False
  with assms sign_split_show [of "nat i" "[]"] show ?thesis
    by (simp add: stoll_def show_int_def Let_def del: takeWhile_eq_all_conv)
qed

text \<open>The exceptions: no digits, and a magnitude that does not fit.\<close>

lemma set_sign_split: "set (snd (sign_split s)) \<subseteq> set s"
  by (cases s) auto

lemma stoull_invalid: "(\<And>c. c \<in> set s \<Longrightarrow> \<not> is_digit c) \<Longrightarrow> stoull s = Inl InvalidArgument"
proof -
  assume a: "\<And>c. c \<in> set s \<Longrightarrow> \<not> is_digit c"
  obtain neg t where t: "sign_split (dropWhile is_space s) = (neg, t)" by fastforce
  then have "set t \<subseteq> set (dropWhile is_space s)"
    using set_sign_split [of "dropWhile is_space s"] by simp
  then have "set t \<subseteq> set s" by (meson set_dropWhileD subset_iff)
  with a have "takeWhile is_digit t = []" by (cases t) auto
  with t show ?thesis by (simp add: stoull_def)
qed

lemma stoull_range: "n \<ge> 2 ^ 64 \<Longrightarrow> stoull (show_nat n) = Inl OutOfRange"
  using sign_split_show [of n "[]"] by (simp add: stoull_def Let_def del: takeWhile_eq_all_conv)

text \<open>The contract of an encoding and its decoding, and what it gives.\<close>

locale codec =
  fixes enc :: "'a \<Rightarrow> string" and dec :: "string \<Rightarrow> 'a option" and valid :: "'a \<Rightarrow> bool"
  assumes dec_enc: "valid x \<Longrightarrow> dec (enc x) = Some x"
begin

lemma enc_inj: "valid x \<Longrightarrow> valid y \<Longrightarrow> enc x = enc y \<Longrightarrow> x = y"
  by (metis dec_enc option.inject)

lemma enc_inj_on: "inj_on enc (Collect valid)"
  using enc_inj by (auto intro: inj_onI)

end

definition right :: "'e + 'a \<Rightarrow> 'a option" where
  "right r = (case r of Inl _ \<Rightarrow> None | Inr x \<Rightarrow> Some x)"

interpretation u64_codec: codec show_u64 "right \<circ> stoull" "\<lambda>_. True"
  by unfold_locales (simp add: right_def)

interpretation i64_codec: codec show_int "right \<circ> stoll" "\<lambda>i. - (2 ^ 63) \<le> i \<and> i < 2 ^ 63"
  by unfold_locales (simp add: right_def stoll_show_int)

lemma length_show_nat: "n < 10 ^ Suc k \<Longrightarrow> length (show_nat n) \<le> Suc k"
proof (induction k arbitrary: n)
  case 0
  then show ?case by (simp add: show_nat.simps)
next
  case (Suc k)
  then have "n div 10 < 10 ^ Suc k" by (simp add: less_mult_imp_div_less mult.commute)
  with Suc.IH show ?case by (subst show_nat.simps) simp
qed

lemma length_show_u64: "length (show_u64 w) \<le> 20"
  unfolding show_u64_def
  using length_show_nat [of "unat w" 19] unsigned_less [of w, where 'a=nat] by simp

lemma length_show_int64:
  assumes "- (2 ^ 63) \<le> i" and "i < 2 ^ 63"
  shows "length (show_int i) \<le> 20"
proof -
  have "nat \<bar>i\<bar> < 10 ^ Suc 18" using assms by simp
  then have "length (show_nat (nat \<bar>i\<bar>)) \<le> 19" using length_show_nat by fastforce
  then show ?thesis by (simp add: show_int_def abs_if split: if_splits)
qed

lemma length_show_int:
  assumes "\<bar>i\<bar> < 2 ^ 31"
  shows "length (show_int i) \<le> 11"
proof -
  have "nat \<bar>i\<bar> < 2147483648" using assms by simp
  then have "length (show_nat (nat \<bar>i\<bar>)) \<le> 10" using length_show_nat [of "nat \<bar>i\<bar>" 9] by simp
  then show ?thesis by (simp add: show_int_def abs_if split: if_splits)
qed

end
