(* ===== verification/FIX_Messages.thy ===== *)
theory FIX_Messages
  imports FIX_Decimal
begin

text \<open>
  \<^verbatim>\<open>src/fix/messages.h\<close>: tag numbers, message types and the parsed message. The map from
  tags to values is an association list in insertion order; the code only looks values up
  and, in the resend path, iterates in an order the standard leaves open (a parameter
  there).
\<close>

abbreviation tag_BeginString :: int where "tag_BeginString \<equiv> 8"
abbreviation tag_BodyLength :: int where "tag_BodyLength \<equiv> 9"
abbreviation tag_MsgType :: int where "tag_MsgType \<equiv> 35"
abbreviation tag_SenderCompID :: int where "tag_SenderCompID \<equiv> 49"
abbreviation tag_TargetCompID :: int where "tag_TargetCompID \<equiv> 56"
abbreviation tag_MsgSeqNum :: int where "tag_MsgSeqNum \<equiv> 34"
abbreviation tag_SendingTime :: int where "tag_SendingTime \<equiv> 52"
abbreviation tag_CheckSum :: int where "tag_CheckSum \<equiv> 10"
abbreviation tag_HeartBtInt :: int where "tag_HeartBtInt \<equiv> 108"
abbreviation tag_TestReqID :: int where "tag_TestReqID \<equiv> 112"
abbreviation tag_RefSeqNum :: int where "tag_RefSeqNum \<equiv> 45"
abbreviation tag_Text :: int where "tag_Text \<equiv> 58"
abbreviation tag_BeginSeqNo :: int where "tag_BeginSeqNo \<equiv> 7"
abbreviation tag_EndSeqNo :: int where "tag_EndSeqNo \<equiv> 16"
abbreviation tag_PossDupFlag :: int where "tag_PossDupFlag \<equiv> 43"
abbreviation tag_OrigSendingTime :: int where "tag_OrigSendingTime \<equiv> 122"
abbreviation tag_NewSeqNo :: int where "tag_NewSeqNo \<equiv> 36"
abbreviation tag_GapFillFlag :: int where "tag_GapFillFlag \<equiv> 123"
abbreviation tag_ClOrdID :: int where "tag_ClOrdID \<equiv> 11"
abbreviation tag_OrigClOrdID :: int where "tag_OrigClOrdID \<equiv> 41"
abbreviation tag_Symbol :: int where "tag_Symbol \<equiv> 55"
abbreviation tag_Side :: int where "tag_Side \<equiv> 54"
abbreviation tag_OrdType :: int where "tag_OrdType \<equiv> 40"
abbreviation tag_OrderQty :: int where "tag_OrderQty \<equiv> 38"
abbreviation tag_Price :: int where "tag_Price \<equiv> 44"
abbreviation tag_TransactTime :: int where "tag_TransactTime \<equiv> 60"
abbreviation tag_OrderID :: int where "tag_OrderID \<equiv> 37"
abbreviation tag_ExecID :: int where "tag_ExecID \<equiv> 17"
abbreviation tag_ExecType :: int where "tag_ExecType \<equiv> 150"
abbreviation tag_OrdStatus :: int where "tag_OrdStatus \<equiv> 39"
abbreviation tag_LeavesQty :: int where "tag_LeavesQty \<equiv> 151"
abbreviation tag_CumQty :: int where "tag_CumQty \<equiv> 14"
abbreviation tag_AvgPx :: int where "tag_AvgPx \<equiv> 6"
abbreviation tag_LastPx :: int where "tag_LastPx \<equiv> 31"
abbreviation tag_LastQty :: int where "tag_LastQty \<equiv> 32"

abbreviation msgtype_Heartbeat :: string where "msgtype_Heartbeat \<equiv> ''0''"
abbreviation msgtype_TestRequest :: string where "msgtype_TestRequest \<equiv> ''1''"
abbreviation msgtype_ResendRequest :: string where "msgtype_ResendRequest \<equiv> ''2''"
abbreviation msgtype_Reject :: string where "msgtype_Reject \<equiv> ''3''"
abbreviation msgtype_SequenceReset :: string where "msgtype_SequenceReset \<equiv> ''4''"
abbreviation msgtype_Logout :: string where "msgtype_Logout \<equiv> ''5''"
abbreviation msgtype_ExecutionReport :: string where "msgtype_ExecutionReport \<equiv> ''8''"
abbreviation msgtype_Logon :: string where "msgtype_Logon \<equiv> ''A''"
abbreviation msgtype_NewOrderSingle :: string where "msgtype_NewOrderSingle \<equiv> ''D''"
abbreviation msgtype_OrderCancelRequest :: string where "msgtype_OrderCancelRequest \<equiv> ''F''"
abbreviation msgtype_OrderCancelReplace :: string where "msgtype_OrderCancelReplace \<equiv> ''G''"

type_synonym Fields = "(int \<times> string) list"

record Message =
  msg_fields :: Fields

definition get :: "Message \<Rightarrow> int \<Rightarrow> string option" where
  "get m t = map_of (msg_fields m) t"

definition msg_type :: "Message \<Rightarrow> string" where
  "msg_type m = (case map_of (msg_fields m) tag_MsgType of None \<Rightarrow> '''' | Some s \<Rightarrow> s)"

definition seq :: "Message \<Rightarrow> exn + SeqNum" where
  "seq m = (case map_of (msg_fields m) tag_MsgSeqNum of None \<Rightarrow> Inr 0 | Some s \<Rightarrow> stoull s)"

text \<open>\<^verbatim>\<open>unordered_map::emplace\<close>: inserts unless the key is there; says whether it did.\<close>

definition emplace :: "int \<Rightarrow> string \<Rightarrow> Fields \<Rightarrow> Fields \<times> bool" where
  "emplace t v fs = (if t \<in> fst ` set fs then (fs, False) else (fs @ [(t, v)], True))"

lemma emplace_distinct: "distinct (map fst fs) \<Longrightarrow> distinct (map fst (fst (emplace t v fs)))"
  by (simp add: emplace_def)

lemma emplace_get: "map_of (fst (emplace t v fs)) t' =
    (if t' = t \<and> map_of fs t = None then Some v else map_of fs t')"
  by (cases "map_of fs t") (auto simp: emplace_def map_add_def domIff [symmetric] dom_map_of_conv_image_fst weak_map_of_SomeI split: option.splits
      dest: weak_map_of_SomeI)

end
