(* ===== verification/FIX_Parser.thy ===== *)
theory FIX_Parser
  imports FIX_Messages
begin

unbundle bit_operations_syntax

text \<open>
  \<^verbatim>\<open>src/fix/parser.{h,cpp}\<close>: the checksum and the framing parser. A buffer is a string;
  positions are naturals, and where the untrusted body length enters them the size_t
  arithmetic wraps modulo 2^64 as in the code. A result of \<^const>\<open>None\<close> is a read outside
  the buffer.
\<close>

abbreviation kSohWire :: char where "kSohWire \<equiv> CHR 0x01"
abbreviation kSohText :: char where "kSohText \<equiv> CHR ''|''"

datatype ParseError = PE_None | Incomplete | BadHeader | BadBodyLength | BadCheckSum
  | MalformedField | DuplicateField

record ParseResult =
  err :: ParseError
  consumed :: nat
  msg :: Message

definition checksum :: "string \<Rightarrow> 32 word" where
  "checksum bytes = fold (\<lambda>c s. s + of_char c) bytes 0 AND 0xFF"

definition format_checksum :: "32 word \<Rightarrow> string" where
  "format_checksum v = (let n = unat (v AND 0xFF) in
     [digit_char (n div 100), digit_char (n div 10 mod 10), digit_char (n mod 10)])"

definition parse_uint :: "string \<Rightarrow> u64 option" where
  "parse_uint s =
     (if s = [] then None
      else fold (\<lambda>c r. case r of None \<Rightarrow> None
             | Some v \<Rightarrow> if \<not> is_digit c then None else Some (v * 10 + of_nat (digit_val c))) s (Some 0))"

text \<open>\<^verbatim>\<open>string_view::find(c, i)\<close>, \<^verbatim>\<open>substr\<close> and element access.\<close>

definition find_from :: "char \<Rightarrow> string \<Rightarrow> nat \<Rightarrow> nat option" where
  "find_from c s i =
     (let n = length (takeWhile (\<lambda>x. x \<noteq> c) (drop i s)) in
      if i + n < length s then Some (i + n) else None)"

definition substr :: "string \<Rightarrow> nat \<Rightarrow> nat \<Rightarrow> string" where
  "substr s i n = take n (drop i s)"

definition char_at :: "string \<Rightarrow> nat \<Rightarrow> char option" where
  "char_at s i = (if i < length s then Some (s ! i) else None)"

definition size_add :: "nat \<Rightarrow> nat \<Rightarrow> nat" where
  "size_add a b = (a + b) mod 2 ^ 64"

definition to_int32 :: "u64 \<Rightarrow> int" where
  "to_int32 w = sint (ucast w :: 32 word)"

definition parse_fail :: "ParseError \<Rightarrow> ParseResult" where
  "parse_fail e = \<lparr>err = e, consumed = 0, msg = \<lparr>msg_fields = []\<rparr>\<rparr>"

lemma find_from_Some:
  "find_from c s i = Some j \<longleftrightarrow>
     i \<le> j \<and> j < length s \<and> s ! j = c \<and> (\<forall>k. i \<le> k \<longrightarrow> k < j \<longrightarrow> s ! k \<noteq> c)"
proof -
  define n where "n = length (takeWhile (\<lambda>x. x \<noteq> c) (drop i s))"
  have below: "s ! (i + k) \<noteq> c" if "k < n" for k
  proof -
    have "takeWhile (\<lambda>x. x \<noteq> c) (drop i s) ! k = drop i s ! k"
      using that by (simp add: n_def takeWhile_nth)
    moreover have "takeWhile (\<lambda>x. x \<noteq> c) (drop i s) ! k \<noteq> c"
      using that nth_mem set_takeWhileD unfolding n_def by fastforce
    moreover have "i \<le> length s" using that by (cases "i \<le> length s") (auto simp: n_def)
    ultimately show ?thesis by simp
  qed
  have at: "s ! (i + n) = c" if "i + n < length s"
    using nth_length_takeWhile [of "\<lambda>x. x \<noteq> c" "drop i s"] that by (simp add: n_def)
  show ?thesis
  proof
    assume "find_from c s i = Some j"
    then have "j = i + n" "i + n < length s" by (auto simp: find_from_def n_def Let_def split: if_splits)
    then show "i \<le> j \<and> j < length s \<and> s ! j = c \<and> (\<forall>k. i \<le> k \<longrightarrow> k < j \<longrightarrow> s ! k \<noteq> c)"
      using below at by (metis le_add1 le_add_diff_inverse nat_add_left_cancel_less)
  next
    assume j: "i \<le> j \<and> j < length s \<and> s ! j = c \<and> (\<forall>k. i \<le> k \<longrightarrow> k < j \<longrightarrow> s ! k \<noteq> c)"
    have "n \<le> j - i"
    proof (rule ccontr)
      assume "\<not> n \<le> j - i"
      with below [of "j - i"] j show False by simp
    qed
    moreover from this j have "\<not> i + n < j" using at by auto
    ultimately have "j = i + n" using conjunct1 [OF j] by linarith
    then show "find_from c s i = Some j" using j by (simp add: find_from_def n_def Let_def)
  qed
qed

lemma find_from_ge: "find_from c s i = Some j \<Longrightarrow> i \<le> j"
  by (simp add: find_from_Some)

text \<open>The loop over header and body fields.\<close>

function parse_fields :: "char \<Rightarrow> string \<Rightarrow> nat \<Rightarrow> nat \<Rightarrow> Fields \<Rightarrow> ParseError \<times> Fields" where
  "parse_fields soh buf body_end i fs =
     (if \<not> i < body_end then (PE_None, fs)
      else case find_from (CHR ''='') buf i of
        None \<Rightarrow> (MalformedField, fs)
      | Some eq \<Rightarrow>
          if eq \<ge> body_end then (MalformedField, fs)
          else case parse_uint (substr buf i (eq - i)) of
            None \<Rightarrow> (MalformedField, fs)
          | Some tag \<Rightarrow>
              (case find_from soh buf (eq + 1) of
                 None \<Rightarrow> (MalformedField, fs)
               | Some soh_at \<Rightarrow>
                   if soh_at > body_end then (MalformedField, fs)
                   else let val = substr buf (eq + 1) (soh_at - (eq + 1));
                            (fs', inserted) = emplace (to_int32 tag) val fs
                        in if \<not> inserted then (DuplicateField, fs)
                           else parse_fields soh buf body_end (soh_at + 1) fs'))"
  by pat_completeness auto
termination
  by (relation "measure (\<lambda>(soh, buf, body_end, i, fs). body_end - i)")
    (auto dest!: find_from_ge)

declare parse_fields.simps [simp del]

definition kBegin :: string where
  "kBegin = ''8=FIX.4.4''"

definition parse_body :: "char \<Rightarrow> string \<Rightarrow> nat \<Rightarrow> ParseResult option" where
  "parse_body soh buf body_end = do {
     c0 \<leftarrow> char_at buf body_end;
     if c0 \<noteq> CHR ''1'' then Some (parse_fail BadCheckSum) else do {
     c1 \<leftarrow> char_at buf (size_add body_end 1);
     if c1 \<noteq> CHR ''0'' then Some (parse_fail BadCheckSum) else do {
     c2 \<leftarrow> char_at buf (size_add body_end 2);
     if c2 \<noteq> CHR ''='' then Some (parse_fail BadCheckSum) else
     (case parse_uint (substr buf (size_add body_end 3) 3) of
        None \<Rightarrow> Some (parse_fail BadCheckSum)
      | Some cs \<Rightarrow> do {
          c6 \<leftarrow> char_at buf (size_add body_end 6);
          if c6 \<noteq> soh then Some (parse_fail BadCheckSum) else
          let want = (ucast cs :: 32 word); got = checksum (substr buf 0 body_end) in
          if want \<noteq> got then Some (parse_fail BadCheckSum) else
          let (e, fs) = parse_fields soh buf body_end 0 [] in
          if e \<noteq> PE_None then Some \<lparr>err = e, consumed = 0, msg = \<lparr>msg_fields = fs\<rparr>\<rparr>
          else Some \<lparr>err = PE_None, consumed = size_add body_end 7,
                 msg = \<lparr>msg_fields = fst (emplace tag_CheckSum (format_checksum want) fs)\<rparr>\<rparr> }) } } }"

definition parse_one :: "char \<Rightarrow> string \<Rightarrow> ParseResult option" where
  "parse_one soh buf =
     (if length buf < 20 then Some (parse_fail Incomplete)
      else if substr buf 0 9 \<noteq> kBegin then Some (parse_fail BadHeader)
      else if 9 \<ge> length buf \<or> buf ! 9 \<noteq> soh then Some (parse_fail BadHeader)
      else if 10 + 2 \<ge> length buf \<or> buf ! 10 \<noteq> CHR ''9'' \<or> buf ! 11 \<noteq> CHR ''=''
        then Some (parse_fail BadHeader)
      else case find_from soh buf 12 of
        None \<Rightarrow> Some (parse_fail Incomplete)
      | Some body_len_end \<Rightarrow>
          (case parse_uint (substr buf 12 (body_len_end - 12)) of
             None \<Rightarrow> Some (parse_fail BadBodyLength)
           | Some body_len \<Rightarrow>
               let pos = body_len_end + 1 in
               if size_add (size_add pos (unat body_len)) 7 > length buf
               then Some (parse_fail Incomplete)
               else parse_body soh buf (size_add pos (unat body_len))))"

section \<open>Numbers\<close>

lemma parse_uint_fold:
  "(\<forall>c \<in> set s. is_digit c) \<Longrightarrow>
     fold (\<lambda>c r. case r of None \<Rightarrow> None
       | Some v \<Rightarrow> if \<not> is_digit c then None else Some (v * 10 + of_nat (digit_val c))) s
       (Some (of_nat n :: u64)) = Some (of_nat (fold (\<lambda>c n. n * 10 + digit_val c) s n))"
proof (induction s arbitrary: n)
  case (Cons c s)
  then show ?case using Cons.IH [of "n * 10 + digit_val c"] by simp
qed simp

lemma parse_uint_digits:
  assumes "s \<noteq> []" and "\<forall>c \<in> set s. is_digit c"
  shows "parse_uint s = Some (of_nat (digits_val s))"
  using assms parse_uint_fold [OF assms(2), of 0] by (simp add: parse_uint_def digits_val_def)

lemma parse_uint_None_fold:
  "fold (\<lambda>c r. case r of None \<Rightarrow> None
       | Some v \<Rightarrow> if \<not> is_digit c then None else Some (v * 10 + of_nat (digit_val c))) s
       (None :: u64 option) = None"
  by (induction s) auto

lemma parse_uint_nondigit:
  assumes "c \<in> set s" and "\<not> is_digit c"
  shows "parse_uint s = None"
proof -
  from assms have "fold (\<lambda>c r. case r of None \<Rightarrow> None
       | Some v \<Rightarrow> if \<not> is_digit c then None else Some (v * 10 + of_nat (digit_val c))) s r = None"
    for r :: "u64 option"
    by (induction s arbitrary: r) (auto simp: parse_uint_None_fold split: option.splits)
  then show ?thesis by (simp add: parse_uint_def)
qed

lemma parse_uint_show [simp]: "parse_uint (show_nat n) = Some (of_nat n)"
  by (simp add: parse_uint_digits show_nat_digits)

lemma parse_uint_Some:
  "parse_uint s = Some v \<longleftrightarrow> s \<noteq> [] \<and> (\<forall>c \<in> set s. is_digit c) \<and> v = of_nat (digits_val s)"
proof (cases "s \<noteq> [] \<and> (\<forall>c \<in> set s. is_digit c)")
  case True
  then show ?thesis using parse_uint_digits [of s] by auto
next
  case False
  then have "parse_uint s = None"
    using parse_uint_nondigit [of _ s] by (cases "s = []") (auto simp: parse_uint_def [of "[]"])
  with False show ?thesis by auto
qed

interpretation uint_codec: codec show_u64 parse_uint "\<lambda>_. True"
  by unfold_locales (simp add: show_u64_def)

lemma ucast_of_nat_small:
  assumes "n < 2 ^ 32"
  shows "(ucast (of_nat n :: u64) :: 32 word) = of_nat n"
proof -
  have "unat (ucast (of_nat n :: u64) :: 32 word) = unat (of_nat n :: 32 word)"
    using assms by (simp add: unsigned_ucast_eq take_bit_eq_mod unat_of_nat)
  then show ?thesis by (rule unsigned_word_eqI)
qed

lemma to_int32_small:
  assumes "0 \<le> t" and "t < 2 ^ 31"
  shows "to_int32 (of_nat (nat t)) = t"
proof -
  have "(ucast (of_nat (nat t) :: u64) :: 32 word) = of_nat (nat t)"
    using assms by (intro ucast_of_nat_small) simp
  with assms show ?thesis by (simp add: to_int32_def signed_of_int signed_take_bit_int_eq_self_iff)
qed

section \<open>Positions\<close>

lemma find_from_append:
  assumes "c \<notin> set x"
  shows "find_from c (p @ x @ c # q) (length p) = Some (length p + length x)"
proof -
  have "takeWhile (\<lambda>y. y \<noteq> c) (x @ c # q) = x"
    using assms by (induction x) auto
  then show ?thesis by (simp add: find_from_def)
qed

lemma find_from_absent: "c \<notin> set x \<Longrightarrow> find_from c (p @ x) (length p) = None"
proof -
  assume "c \<notin> set x"
  then have "takeWhile (\<lambda>y. y \<noteq> c) x = x" by (induction x) auto
  then show ?thesis by (simp add: find_from_def Let_def del: takeWhile_eq_all_conv)
qed

lemma substr_append [simp]: "substr (p @ x @ q) (length p) (length x) = x"
  by (simp add: substr_def)

lemma size_add_small: "a + b < 2 ^ 64 \<Longrightarrow> size_add a b = a + b"
  by (simp add: size_add_def)

lemma char_at_append: "char_at (p @ c # q) (length p) = Some c"
  by (simp add: char_at_def)

section \<open>What the parser reads and what it accepts\<close>

definition header_ok :: "char \<Rightarrow> string \<Rightarrow> bool" where
  "header_ok soh buf \<longleftrightarrow> 20 \<le> length buf \<and> substr buf 0 9 = kBegin \<and> buf ! 9 = soh \<and>
     buf ! 10 = CHR ''9'' \<and> buf ! 11 = CHR ''=''"

text \<open>The position after the header and the body length it declares.\<close>

definition declared :: "char \<Rightarrow> string \<Rightarrow> (nat \<times> u64) option" where
  "declared soh buf = (if header_ok soh buf then do {
     e \<leftarrow> find_from soh buf 12;
     n \<leftarrow> parse_uint (substr buf 12 (e - 12));
     Some (e + 1, n) } else None)"

lemma parse_one_cases:
  obtains (fail) e where "parse_one soh buf = Some (parse_fail e)" "e \<noteq> PE_None" "declared soh buf = None"
  | (framed) pos n where "declared soh buf = Some (pos, n)" "header_ok soh buf" "pos \<le> length buf" "12 < pos"
      "parse_one soh buf =
         (if size_add (size_add pos (unat n)) 7 > length buf then Some (parse_fail Incomplete)
          else parse_body soh buf (size_add pos (unat n)))"
proof (cases "header_ok soh buf")
  case False
  then have "\<exists>e. parse_one soh buf = Some (parse_fail e) \<and> e \<noteq> PE_None"
    by (auto simp: parse_one_def header_ok_def)
  with False fail show thesis by (auto simp: declared_def)
next
  case True
  then have one: "parse_one soh buf = (case find_from soh buf 12 of
      None \<Rightarrow> Some (parse_fail Incomplete)
    | Some body_len_end \<Rightarrow>
        (case parse_uint (substr buf 12 (body_len_end - 12)) of
           None \<Rightarrow> Some (parse_fail BadBodyLength)
         | Some body_len \<Rightarrow>
             if size_add (size_add (body_len_end + 1) (unat body_len)) 7 > length buf
             then Some (parse_fail Incomplete)
             else parse_body soh buf (size_add (body_len_end + 1) (unat body_len))))"
    by (simp add: parse_one_def header_ok_def Let_def split: option.split)
  show thesis
  proof (cases "find_from soh buf 12")
    case None
    with True one show thesis by (intro fail [of Incomplete]) (simp_all add: declared_def)
  next
    case (Some e)
    then have e: "12 \<le> e" "e < length buf" by (simp_all add: find_from_Some)
    show thesis
    proof (cases "parse_uint (substr buf 12 (e - 12))")
      case None
      with True one Some show thesis by (intro fail [of BadBodyLength]) (simp_all add: declared_def)
    next
      case (Some n)
      with True one \<open>find_from soh buf 12 = Some e\<close> e show thesis
        by (intro framed [of "e + 1" n]) (simp_all add: declared_def)
    qed
  qed
qed

lemma parse_body_in_bounds:
  assumes "body_end + 7 \<le> length buf" and "length buf < 2 ^ 64"
  shows "parse_body soh buf body_end \<noteq> None"
proof -
  have "size_add body_end k = body_end + k" if "k \<le> 7" for k
    using assms that by (intro size_add_small) simp
  with assms show ?thesis
    by (auto simp: parse_body_def char_at_def Let_def split: option.splits prod.splits)
qed

lemma parse_body_out_of_bounds: "length buf \<le> body_end \<Longrightarrow> parse_body soh buf body_end = None"
  by (simp add: parse_body_def char_at_def)

text \<open>Exactly when the parser reads outside its buffer.\<close>

lemma parse_one_None_iff:
  assumes len: "length buf < 2 ^ 63"
  shows "parse_one soh buf = None \<longleftrightarrow>
    (\<exists>pos n. declared soh buf = Some (pos, n) \<and> 2 ^ 64 - 7 \<le> pos + unat n \<and> pos + unat n < 2 ^ 64)"
proof (cases rule: parse_one_cases [of soh buf])
  case (fail e)
  then show ?thesis by simp
next
  case (framed pos n)
  have n: "unat n < 2 ^ 64" by (rule unat_u64_lt)
  have l20: "20 \<le> length buf" using framed(2) by (simp add: header_ok_def)
  consider (low) "pos + unat n < 2 ^ 64 - 7" | (mid) "2 ^ 64 - 7 \<le> pos + unat n" "pos + unat n < 2 ^ 64"
    | (high) "2 ^ 64 \<le> pos + unat n" by linarith
  then show ?thesis
  proof cases
    case low
    then have "size_add pos (unat n) = pos + unat n" "size_add (pos + unat n) 7 = pos + unat n + 7"
      by (simp_all add: size_add_small)
    with parse_body_in_bounds [of "pos + unat n" buf soh] len low framed(1,5) show ?thesis by auto
  next
    case mid
    have a: "size_add pos (unat n) = pos + unat n" using mid by (simp add: size_add_small)
    have "size_add (pos + unat n) 7 = pos + unat n + 7 - 2 ^ 64"
      using mid unfolding size_add_def by (subst mod_if) (simp add: mod_if)
    then have "size_add (pos + unat n) 7 \<le> length buf" using mid l20 by simp
    moreover have "length buf \<le> pos + unat n" using mid(1) len by simp
    ultimately show ?thesis using framed(1,5) mid a by (auto simp: parse_body_out_of_bounds)
  next
    case high
    have "pos < 2 ^ 63 + 1" using framed(3) len by simp
    then have a: "size_add pos (unat n) = pos + unat n - 2 ^ 64"
      using high n unfolding size_add_def by (subst mod_if) (simp add: mod_if)
    have "size_add (pos + unat n - 2 ^ 64) 7 = pos + unat n - 2 ^ 64 + 7"
      using n \<open>pos < 2 ^ 63 + 1\<close> by (intro size_add_small) simp
    then have "parse_one soh buf \<noteq> None"
      using framed(5) a parse_body_in_bounds [of "pos + unat n - 2 ^ 64" buf soh] len by auto
    with high framed(1) show ?thesis by auto
  qed
qed

lemma parse_fields_cases:
  assumes "parse_fields soh buf be i fs = (e, fs')"
  obtains (stop) "fs' = fs" "e = PE_None \<longleftrightarrow> be \<le> i"
  | (field) t v j where "i < j" "i < be" "t \<notin> fst ` set fs" "soh \<notin> set v \<and> length v \<le> length buf"
      "parse_fields soh buf be j (fs @ [(t, v)]) = (e, fs')"
proof -
  consider "be \<le> i" | "i < be" "find_from (CHR ''='') buf i = None"
    | eq where "i < be" "find_from (CHR ''='') buf i = Some eq" by force
  then show thesis
  proof cases
    case 1
    with assms show thesis by (subst (asm) parse_fields.simps) (simp add: stop)
  next
    case 2
    with assms show thesis by (subst (asm) parse_fields.simps) (auto intro: stop)
  next
    case (3 eq)
    let ?n = "parse_uint (substr buf i (eq - i))" and ?j = "find_from soh buf (eq + 1)"
    show thesis
    proof (cases "eq \<ge> be \<or> ?n = None \<or> ?j = None \<or> the ?j > be")
      case True
      with 3 assms show thesis
        by (subst (asm) parse_fields.simps) (auto intro: stop split: option.splits if_splits)
    next
      case False
      then obtain n j where n: "?n = Some n" and j: "?j = Some j" by auto
      define v where "v = substr buf (eq + 1) (j - (eq + 1))"
      have "soh \<notin> set v"
        using j by (auto simp: v_def substr_def find_from_Some in_set_conv_nth)
      then have v: "soh \<notin> set v \<and> length v \<le> length buf" by (simp add: v_def substr_def)
      have ge: "i < j + 1" using find_from_ge [OF 3(2)] find_from_ge [OF j] by simp
      from assms 3 False n j have "(if to_int32 n \<in> fst ` set fs then (DuplicateField, fs)
          else parse_fields soh buf be (j + 1) (fs @ [(to_int32 n, v)])) = (e, fs')"
        by (subst (asm) parse_fields.simps) (simp add: emplace_def v_def split: if_splits)
      with 3(1) ge v show thesis
        by (cases "to_int32 n \<in> fst ` set fs") (auto intro: stop field [of "j + 1" "to_int32 n" v])
    qed
  qed
qed

lemma parse_fields_distinct:
  "parse_fields soh buf be i fs = (e, fs') \<Longrightarrow> distinct (map fst fs) \<Longrightarrow> distinct (map fst fs')"
proof (induction "be - i" arbitrary: i fs rule: less_induct)
  case less
  from less.prems(1) show ?case
  proof (cases rule: parse_fields_cases)
    case stop
    with less.prems(2) show ?thesis by simp
  next
    case (field t v j)
    with less.hyps [OF _ field(5)] less.prems(2) show ?thesis by simp
  qed
qed

text \<open>The shape of an accepted message.\<close>

lemma parse_body_accepts:
  assumes "parse_body soh buf be = Some r" and "err r = PE_None"
    and "be + 7 \<le> length buf" and "length buf < 2 ^ 64"
  shows "consumed r = be + 7" "checksum (take be buf) = ucast (the (parse_uint (substr buf (be + 3) 3)))"
    "\<exists>fs. parse_fields soh buf be 0 [] = (PE_None, fs) \<and>
       msg_fields (msg r) = fst (emplace tag_CheckSum (format_checksum (checksum (take be buf))) fs)"
proof -
  have add: "size_add be k = be + k" if "k \<le> 7" for k
    using assms that by (intro size_add_small) simp
  obtain e fs where pf: "parse_fields soh buf be 0 [] = (e, fs)" by fastforce
  have sub: "substr buf 0 be = take be buf" by (simp add: substr_def)
  show "consumed r = be + 7" "checksum (take be buf) = ucast (the (parse_uint (substr buf (be + 3) 3)))"
    "\<exists>fs. parse_fields soh buf be 0 [] = (PE_None, fs) \<and>
       msg_fields (msg r) = fst (emplace tag_CheckSum (format_checksum (checksum (take be buf))) fs)"
    using assms(1,2) unfolding parse_body_def
    by (auto simp: add pf sub char_at_def Let_def parse_fail_def split: option.splits if_splits)
qed

lemma parse_one_frame:
  assumes "parse_one soh buf = Some r" and "err r = PE_None" and len: "length buf < 2 ^ 63"
  shows "\<exists>be fs. be + 7 \<le> length buf \<and> header_ok soh buf \<and> consumed r = be + 7 \<and>
    checksum (take be buf) = ucast (the (parse_uint (substr buf (be + 3) 3))) \<and>
    parse_fields soh buf be 0 [] = (PE_None, fs) \<and>
    msg_fields (msg r) = fst (emplace tag_CheckSum (format_checksum (checksum (take be buf))) fs)"
proof -
  obtain be where d: "header_ok soh buf" "parse_body soh buf be = Some r" "size_add be 7 \<le> length buf"
  proof (cases rule: parse_one_cases [of soh buf])
    case (fail e)
    with assms(1,2) show thesis by (auto simp: parse_fail_def)
  next
    case (framed pos n)
    with assms(1,2) that [of "size_add pos (unat n)"] show thesis
      by (auto simp: parse_fail_def split: if_splits)
  qed
  have "be < length buf" using d(2) parse_body_out_of_bounds [of buf be soh]
    by (cases "be < length buf") auto
  then have "size_add be 7 = be + 7" using len by (intro size_add_small) simp
  then have b: "be + 7 \<le> length buf" using d(3) by simp
  then show ?thesis using parse_body_accepts [OF d(2) assms(2)] d(1) len by auto
qed

lemma parse_one_accepts:
  assumes "parse_one soh buf = Some r" and "err r = PE_None" and len: "length buf < 2 ^ 63"
  shows "7 \<le> consumed r" "consumed r \<le> length buf" "take 10 buf = kBegin @ [soh]"
    "distinct (map fst (msg_fields (msg r)))"
    "checksum (take (consumed r - 7) buf) = ucast (the (parse_uint (substr buf (consumed r - 4) 3)))"
proof -
  from parse_one_frame [OF assms] obtain be fs where f: "be + 7 \<le> length buf" "header_ok soh buf"
    "consumed r = be + 7" "checksum (take be buf) = ucast (the (parse_uint (substr buf (be + 3) 3)))"
    "parse_fields soh buf be 0 [] = (PE_None, fs)"
    "msg_fields (msg r) = fst (emplace tag_CheckSum (format_checksum (checksum (take be buf))) fs)"
    by blast
  show "7 \<le> consumed r" "consumed r \<le> length buf" using f(1,3) by simp_all
  show "checksum (take (consumed r - 7) buf) = ucast (the (parse_uint (substr buf (consumed r - 4) 3)))"
    using f(3,4) by (simp add: add.commute)
  have "10 \<le> length buf" using f(2) by (simp add: header_ok_def)
  then have "take 10 buf = take 9 buf @ [buf ! 9]" using take_Suc_conv_app_nth [of 9 buf] by simp
  then show "take 10 buf = kBegin @ [soh]" using f(2) by (simp add: header_ok_def substr_def)
  show "distinct (map fst (msg_fields (msg r)))"
    unfolding f(6) by (rule emplace_distinct) (use parse_fields_distinct [OF f(5)] in simp)
qed

lemma parse_one_rejects:
  "parse_one soh buf = Some r \<Longrightarrow> err r \<noteq> PE_None \<Longrightarrow> consumed r = 0"
proof -
  assume r: "parse_one soh buf = Some r" "err r \<noteq> PE_None"
  have "consumed r' = 0" if "parse_body soh buf be = Some r'" "err r' \<noteq> PE_None" for be r'
  proof -
    obtain e fs where "parse_fields soh buf be 0 [] = (e, fs)" by fastforce
    with that show ?thesis unfolding parse_body_def
      by (auto simp: char_at_def Let_def parse_fail_def split: option.splits if_splits)
  qed
  with r show ?thesis
    by (cases rule: parse_one_cases [of soh buf]) (auto simp: parse_fail_def split: if_splits)
qed

lemma parse_fields_values:
  "parse_fields soh buf be i fs = (e, fs') \<Longrightarrow>
     \<forall>f \<in> set fs. soh \<notin> set (snd f) \<and> length (snd f) \<le> length buf \<Longrightarrow>
     \<forall>f \<in> set fs'. soh \<notin> set (snd f) \<and> length (snd f) \<le> length buf"
proof (induction "be - i" arbitrary: i fs rule: less_induct)
  case less
  from less.prems(1) show ?case
  proof (cases rule: parse_fields_cases)
    case stop
    with less.prems(2) show ?thesis by simp
  next
    case (field t v j)
    with less.hyps [OF _ field(5)] less.prems(2) show ?thesis by simp
  qed
qed

end
