(* ===== verification/FIX_Serializer.thy ===== *)
theory FIX_Serializer
  imports FIX_Parser
begin

text \<open>
  \<^verbatim>\<open>src/fix/serializer.{h,cpp}\<close>: building wire bytes from a list of fields. The lemmas
  relate it to the parser: what is built is parsed back, whatever bytes follow it, and
  every proper prefix of it is reported as incomplete.
\<close>

fun build_body :: "char \<Rightarrow> Fields \<Rightarrow> string" where
  "build_body soh [] = []"
| "build_body soh ((t, v) # fs) = show_int t @ CHR ''='' # v @ soh # build_body soh fs"

definition build_header :: "char \<Rightarrow> nat \<Rightarrow> string" where
  "build_header soh n = kBegin @ soh # ''9='' @ show_nat n @ [soh]"

definition build :: "char \<Rightarrow> Fields \<Rightarrow> string" where
  "build soh body =
     (let b = build_body soh body; out = build_header soh (length b) @ b in
      out @ ''10='' @ format_checksum (checksum out) @ [soh])"

section \<open>Checksum\<close>

lemma fold_bytes: "fold (\<lambda>c s. s + of_char c) bytes (a :: 32 word) = a + of_nat (\<Sum>c\<leftarrow>bytes. of_char c)"
  by (induction bytes arbitrary: a) (simp_all add: of_nat_of_char)

lemma checksum_mod: "unat (checksum bytes) = (\<Sum>c\<leftarrow>bytes. of_char c) mod 256"
proof -
  let ?n = "\<Sum>c\<leftarrow>bytes. of_char c :: nat"
  have "checksum bytes = take_bit 8 (of_nat ?n)"
    by (simp add: checksum_def fold_bytes take_bit_eq_mask mask_eq_exp_minus_1)
  then have "unat (checksum bytes) = take_bit 8 (?n mod 2 ^ 32)"
    by (simp add: unsigned_take_bit_eq unat_of_nat del: take_bit_of_nat)
  also have "\<dots> = ?n mod 256" by (simp add: take_bit_eq_mod mod_mod_cancel)
  finally show ?thesis .
qed

lemma checksum_lt: "unat (checksum bytes) < 256"
  by (simp add: checksum_mod)

lemma and_255: "unat v < 256 \<Longrightarrow> v AND 0xFF = v" for v :: "32 word"
proof -
  assume "unat v < 256"
  have "unat (take_bit 8 v) = take_bit 8 (unat v)" by (rule unsigned_take_bit_eq)
  with \<open>unat v < 256\<close> have "unat (take_bit 8 v) = unat v"
    using take_bit_eq_mod [of 8 "unat v"] by simp
  then have "take_bit 8 v = v" by (rule unsigned_word_eqI)
  then show ?thesis by (simp add: take_bit_eq_mask mask_eq_exp_minus_1)
qed

lemma format_checksum_digits:
  assumes "unat v < 256"
  shows "length (format_checksum v) = 3" "\<forall>c \<in> set (format_checksum v). is_digit c"
    "digits_val (format_checksum v) = unat v"
proof -
  let ?n = "unat v"
  have d: "?n div 100 < 10" "?n div 10 mod 10 < 10" "?n mod 10 < 10" using assms by simp_all
  have f: "format_checksum v = [digit_char (?n div 100), digit_char (?n div 10 mod 10), digit_char (?n mod 10)]"
    by (simp add: format_checksum_def and_255 [OF assms] Let_def)
  show "length (format_checksum v) = 3" by (simp add: f)
  show "\<forall>c \<in> set (format_checksum v). is_digit c" using d by (simp add: f)
  have "?n div 100 * 10 + ?n div 10 mod 10 = ?n div 10"
    using div_mult_mod_eq [of "?n div 10" 10] by (simp add: div_mult2_eq [symmetric])
  then have "(?n div 100 * 10 + ?n div 10 mod 10) * 10 + ?n mod 10 = ?n" by simp
  then show "digits_val (format_checksum v) = unat v" using d by (simp add: f digits_val_def)
qed

lemma parse_format_checksum:
  assumes "unat v < 256"
  shows "\<exists>w. parse_uint (format_checksum v) = Some w \<and> (ucast w :: 32 word) = v"
proof -
  note f = format_checksum_digits [OF assms]
  have "format_checksum v \<noteq> []" using f(1) by auto
  from parse_uint_digits [OF this f(2)] have "parse_uint (format_checksum v) = Some (of_nat (unat v))"
    by (simp add: f(3))
  moreover have "(ucast (of_nat (unat v) :: u64) :: 32 word) = v"
    using ucast_of_nat_small [of "unat v"] assms by (simp del: word_of_nat_eq_0_iff)
  ultimately show ?thesis by blast
qed

section \<open>Parsing what was built\<close>

definition sep_ok :: "char \<Rightarrow> bool" where
  "sep_ok soh \<longleftrightarrow> \<not> is_digit soh \<and> soh \<notin> set ''FIX.4.4''"

definition field_ok :: "char \<Rightarrow> int \<times> string \<Rightarrow> bool" where
  "field_ok soh f \<longleftrightarrow> 0 \<le> fst f \<and> fst f < 2 ^ 31 \<and> soh \<notin> set (snd f)"

lemma sep_ok_wire: "sep_ok kSohWire" and sep_ok_text: "sep_ok kSohText"
  by (simp_all add: sep_ok_def is_digit_def)

lemma parse_fields_build:
  assumes "list_all (field_ok soh) fs" and "distinct (map fst (acc @ fs))"
  shows "parse_fields soh (p @ build_body soh fs @ q) (length p + length (build_body soh fs)) (length p) acc =
     (PE_None, acc @ fs)"
  using assms
proof (induction fs arbitrary: p acc)
  case Nil
  then show ?case by (simp add: parse_fields.simps)
next
  case (Cons f fs)
  obtain t v where f: "f = (t, v)" by (cases f)
  have t: "0 \<le> t" "t < 2 ^ 31" "soh \<notin> set v" using Cons.prems(1) by (simp_all add: f field_ok_def)
  let ?n = "show_nat (nat t)" and ?r = "build_body soh fs"
  let ?buf = "p @ build_body soh (f # fs) @ q" and ?fin = "length p + length (build_body soh (f # fs))"
  have buf: "?buf = p @ ?n @ CHR ''='' # v @ soh # ?r @ q" using t(1) by (simp add: f show_int_def)
  have 1: "find_from (CHR ''='') ?buf (length p) = Some (length p + length ?n)"
    unfolding buf by (rule find_from_append) (use show_nat_digits is_digit_not_special in blast)
  have 2: "substr ?buf (length p) (length ?n) = ?n" unfolding buf by simp
  have 3: "find_from soh ?buf (length p + length ?n + 1) = Some (length p + length ?n + 1 + length v)"
    using find_from_append [OF t(3), of "p @ ?n @ [CHR ''='']" "?r @ q"] unfolding buf by simp
  have 4: "substr ?buf (length p + length ?n + 1) (length v) = v"
    using substr_append [of "p @ ?n @ [CHR ''='']" v "soh # ?r @ q"] unfolding buf by simp
  have len: "?fin = length p + length ?n + 1 + length v + 1 + length ?r" using t(1) by (simp add: f show_int_def)
  have 5: "emplace t v acc = (acc @ [(t, v)], True)" using Cons.prems(2) by (auto simp: emplace_def f)
  have "parse_fields soh ?buf ?fin (length p) acc =
      parse_fields soh ?buf ?fin (length p + length ?n + 1 + length v + 1) (acc @ [(t, v)])"
    by (subst parse_fields.simps) (simp add: len 1 2 3 [simplified] 4 [simplified] 5 to_int32_small [OF t(1,2)])
  also have "\<dots> = (PE_None, acc @ f # fs)"
    using Cons.IH [of "acc @ [(t, v)]" "p @ ?n @ CHR ''='' # v @ [soh]"] Cons.prems len buf
    by (simp add: f add.assoc)
  finally show ?case .
qed

text \<open>A buffer that starts with a well-formed header.\<close>

lemma header_prefix:
  fixes soh :: char
  defines "p \<equiv> kBegin @ soh # ''9=''"
  shows "length p = 12" "substr (p @ q) 0 9 = kBegin" "(p @ q) ! 9 = soh"
    "(p @ q) ! 10 = CHR ''9''" "(p @ q) ! 11 = CHR ''=''"
  by (simp_all add: p_def kBegin_def substr_def nth_append)

lemma build_header_split: "build_header soh n = (kBegin @ soh # ''9='') @ show_nat n @ [soh]"
  by (simp add: build_header_def)

lemma length_build_header: "length (build_header soh n) = 13 + length (show_nat n)"
  by (simp add: build_header_def kBegin_def)

lemma digit_free: "\<not> is_digit soh \<Longrightarrow> soh \<notin> set (show_nat n)"
  using show_nat_digits by blast

lemma parse_one_header:
  assumes "\<not> is_digit soh" and "n < 2 ^ 64" and "20 \<le> length (build_header soh n @ q)"
  shows "parse_one soh (build_header soh n @ q) =
    (let body_end = size_add (length (build_header soh n)) n in
     if size_add body_end 7 > length (build_header soh n @ q) then Some (parse_fail Incomplete)
     else parse_body soh (build_header soh n @ q) body_end)"
proof -
  let ?p = "kBegin @ soh # ''9=''" and ?buf = "build_header soh n @ q"
  have buf: "?buf = ?p @ show_nat n @ soh # q" by (simp add: build_header_def)
  have find: "find_from soh ?buf 12 = Some (12 + length (show_nat n))"
    using find_from_append [OF digit_free [OF assms(1)], of ?p n q] unfolding buf header_prefix(1) .
  have num: "substr ?buf 12 (length (show_nat n)) = show_nat n"
    using substr_append [of ?p "show_nat n" "soh # q"] unfolding buf header_prefix(1) .
  have un: "unat (of_nat n :: u64) = n" using assms(2) by (simp add: unat_of_nat)
  note h = header_prefix(2-5) [of soh "show_nat n @ soh # q", folded buf]
  have "length (build_header soh n) = 12 + length (show_nat n) + 1" by (simp add: length_build_header)
  then show ?thesis
    using assms(3) h by (simp add: parse_one_def find num un Let_def del: length_append)
qed

lemma show_8_9: "show_int 8 = ''8''" "show_int 9 = ''9''"
  by (simp_all add: show_int_def show_nat.simps digit_char_def) code_simp+

definition wire_fields :: "char \<Rightarrow> Fields \<Rightarrow> Fields" where
  "wire_fields soh body =
     (tag_BeginString, ''FIX.4.4'') # (tag_BodyLength, show_nat (length (build_body soh body))) # body"

lemma build_header_body:
  "build_header soh (length (build_body soh body)) @ build_body soh body = build_body soh (wire_fields soh body)"
  by (simp add: build_header_def wire_fields_def kBegin_def show_8_9)

lemma build_alt:
  "build soh body = (let out = build_body soh (wire_fields soh body) in
     out @ ''10='' @ format_checksum (checksum out) @ [soh])"
  by (simp add: build_def build_header_body [symmetric] Let_def)

lemma length_build: "length (build soh body) =
    length (build_header soh (length (build_body soh body))) + length (build_body soh body) + 7"
  by (simp add: build_def Let_def format_checksum_digits(1) checksum_lt)

lemma length_build_le:
  assumes "length (build_body soh body) < 10 ^ 20"
  shows "length (build soh body) \<le> length (build_body soh body) + 40"
  using length_show_nat [of "length (build_body soh body)" 19] assms
  by (simp add: length_build length_build_header)

definition fields_ok :: "char \<Rightarrow> Fields \<Rightarrow> bool" where
  "fields_ok soh body \<longleftrightarrow> list_all (field_ok soh) body \<and> distinct (map fst body) \<and>
     {8, 9, 10} \<inter> fst ` set body = {}"

definition body_ok :: "char \<Rightarrow> Fields \<Rightarrow> bool" where
  "body_ok soh body \<longleftrightarrow> fields_ok soh body \<and> length (build soh body) < 2 ^ 64"

lemma body_ok_len:
  assumes "body_ok soh body"
  shows "length (build_header soh (length (build_body soh body))) + length (build_body soh body) + 7 < 2 ^ 64"
  using assms by (simp add: body_ok_def length_build)

lemma wire_fields_ok:
  assumes "sep_ok soh" and "body_ok soh body"
  shows "list_all (field_ok soh) (wire_fields soh body)" "distinct (map fst (wire_fields soh body))"
  using assms by (auto simp: wire_fields_def body_ok_def fields_ok_def field_ok_def sep_ok_def digit_free)

text \<open>The trailer: the checks on it succeed and the fields are those of the body.\<close>

lemma parse_body_trailer:
  assumes "length out + 7 < 2 ^ 64"
    and buf: "buf = out @ ''10='' @ format_checksum (checksum out) @ soh # q"
    and pf: "parse_fields soh buf (length out) 0 [] = (PE_None, fs)"
  shows "parse_body soh buf (length out) = Some \<lparr>err = PE_None, consumed = length out + 7,
    msg = \<lparr>msg_fields = fst (emplace tag_CheckSum (format_checksum (checksum out)) fs)\<rparr>\<rparr>"
proof -
  let ?cs = "format_checksum (checksum out)"
  have len: "length ?cs = 3" by (rule format_checksum_digits(1)) (rule checksum_lt)
  have at: "char_at buf (length out) = Some CHR ''1''" "char_at buf (Suc (length out)) = Some CHR ''0''"
    "char_at buf (Suc (Suc (length out))) = Some CHR ''=''" "char_at buf (length out + 6) = Some soh"
    using len by (simp_all add: buf char_at_def nth_append nth_Cons')
  have sub: "substr buf (length out + 3) 3 = ?cs" "substr buf 0 (length out) = out"
    using len by (simp_all add: buf substr_def)
  obtain w where w: "parse_uint ?cs = Some w" "(ucast w :: 32 word) = checksum out"
    using parse_format_checksum [OF checksum_lt] by blast
  have add: "size_add (length out) k = length out + k" if "k \<le> 7" for k
    using assms that by (intro size_add_small) simp
  show ?thesis
    unfolding parse_body_def using w by (simp add: add at sub pf)
qed

lemma parse_build:
  assumes sep: "sep_ok soh" and ok: "body_ok soh body"
  shows "parse_one soh (build soh body @ q) =
    Some \<lparr>err = PE_None, consumed = length (build soh body),
      msg = \<lparr>msg_fields = wire_fields soh body @
        [(tag_CheckSum, format_checksum (checksum (build_body soh (wire_fields soh body))))]\<rparr>\<rparr>"
proof -
  let ?b = "build_body soh body" and ?w = "wire_fields soh body"
  let ?h = "build_header soh (length ?b)" and ?out = "build_body soh ?w"
  let ?cs = "format_checksum (checksum ?out)"
  note small = body_ok_len [OF ok]
  have out: "?out = ?h @ ?b" by (simp add: build_header_body)
  have buf: "build soh body @ q = ?h @ (?b @ ''10='' @ ?cs @ soh # q)"
    by (simp add: build_alt out Let_def)
  have buf2: "build soh body @ q = ?out @ ''10='' @ ?cs @ soh # q" by (simp add: build_alt Let_def)
  have len: "length (build soh body @ q) \<ge> length ?out + 7" "length (build soh body) = length ?out + 7"
    by (simp_all add: length_build out)
  have "20 \<le> length (build soh body @ q)" using len length_build_header [of soh "length ?b"]
    by (cases "show_nat (length ?b)") (simp_all add: out)
  moreover have "length ?b < 2 ^ 64" using small by simp
  ultimately have 1: "parse_one soh (build soh body @ q) =
      parse_body soh (build soh body @ q) (length ?out)"
    using parse_one_header [of soh "length ?b" "?b @ ''10='' @ ?cs @ soh # q"] sep len(1) small
    unfolding buf [symmetric]
    by (simp add: sep_ok_def size_add_small out Let_def del: length_append) (simp add: len out)
  have "parse_fields soh (build soh body @ q) (length ?out) 0 [] = (PE_None, ?w)"
    using parse_fields_build [of soh ?w "[]" "[]" "''10='' @ ?cs @ soh # q"] wire_fields_ok [OF sep ok]
    unfolding buf2 by simp
  moreover have "tag_CheckSum \<notin> fst ` set ?w" using ok by (auto simp: wire_fields_def body_ok_def fields_ok_def)
  moreover have "length ?out + 7 < 2 ^ 64" using small by (simp add: out)
  ultimately show ?thesis
    using 1 parse_body_trailer [OF _ buf2] by (simp add: emplace_def len(2))
qed

section \<open>Proper prefixes\<close>

lemma parse_short_header:
  assumes "soh \<notin> set q"
  shows "parse_one soh ((kBegin @ soh # ''9='') @ q) = Some (parse_fail Incomplete)"
proof (cases "length ((kBegin @ soh # ''9='') @ q) < 20")
  case False
  let ?p = "kBegin @ soh # ''9=''"
  have "find_from soh (?p @ q) 12 = None"
    using find_from_absent [OF assms, of ?p] unfolding header_prefix(1) .
  with False header_prefix(2-5) [of soh q] show ?thesis by (simp add: parse_one_def del: length_append)
qed (simp add: parse_one_def)

lemma parse_prefix_incomplete:
  assumes sep: "sep_ok soh" and ok: "body_ok soh body" and k: "k < length (build soh body)"
  shows "parse_one soh (take k (build soh body)) = Some (parse_fail Incomplete)"
proof -
  let ?b = "build_body soh body" and ?p = "kBegin @ soh # ''9=''"
  let ?h = "build_header soh (length ?b)"
  obtain t where t: "build soh body = ?h @ t" by (simp add: build_def Let_def)
  note small = body_ok_len [OF ok]
  consider (tiny) "k < 20" | (header) "20 \<le> k" "k < length ?h" | (body) "20 \<le> k" "length ?h \<le> k" by linarith
  then show ?thesis
  proof cases
    case tiny
    then have "length (take k (build soh body)) < 20" by simp
    then show ?thesis unfolding parse_one_def by (simp only: if_True)
  next
    case header
    have "take k (p @ x @ soh # t) = p @ take (k - 12) x" if "length p = 12" "k < 13 + length x" for p x
      using that header(1) by simp
    from this [of ?p "show_nat (length ?b)"] header(2)
    have "take k (build soh body) = ?p @ take (k - 12) (show_nat (length ?b))"
      unfolding header_prefix(1) length_build_header by (simp add: t build_header_def)
    moreover have "soh \<notin> set (take (k - 12) (show_nat (length ?b)))"
      using digit_free [of soh] sep by (auto simp: sep_ok_def dest: in_set_takeD)
    ultimately show ?thesis using parse_short_header by simp
  next
    case body
    then have tk: "take k (build soh body) = ?h @ take (k - length ?h) t" by (simp add: t)
    have len: "length (?h @ take (k - length ?h) t) = k" using k tk by (simp add: t min_def)
    have "k < length ?h + length ?b + 7" using k by (simp add: length_build)
    then show ?thesis
      using parse_one_header [of soh "length ?b" "take (k - length ?h) t"] sep body small
      unfolding tk len by (simp add: sep_ok_def size_add_small Let_def)
  qed
qed

section \<open>A stream of messages\<close>

text \<open>The contract of a self-delimiting encoding, and what it gives for a stream.\<close>

locale framing =
  fixes enc :: "'a \<Rightarrow> string" and dec :: "string \<Rightarrow> ('a \<times> nat) option" and valid :: "'a \<Rightarrow> bool"
  assumes dec_enc: "valid x \<Longrightarrow> dec (enc x @ s) = Some (x, length (enc x))"
    and dec_prefix: "valid x \<Longrightarrow> k < length (enc x) \<Longrightarrow> dec (take k (enc x)) = None"
begin

lemma enc_prefix_free:
  assumes "valid x" and "valid y" and "enc x @ s = enc y @ s'"
  shows "x = y" "s = s'"
proof -
  have "dec (enc x @ s) = dec (enc y @ s')" by (simp only: assms(3))
  then show "x = y" using assms(1,2) by (simp add: dec_enc)
  with assms(3) show "s = s'" by simp
qed

end

text \<open>Repeated decoding: the messages found and the bytes left over.\<close>

fun frames :: "(string \<Rightarrow> ('a \<times> nat) option) \<Rightarrow> nat \<Rightarrow> string \<Rightarrow> 'a list \<times> string" where
  "frames dec 0 s = ([], s)"
| "frames dec (Suc n) s =
     (case dec s of None \<Rightarrow> ([], s) | Some (x, k) \<Rightarrow> (let (xs, t) = frames dec n (drop k s) in (x # xs, t)))"

context framing
begin

lemma frames_stream:
  assumes "list_all valid xs" and "dec t = None" and "length xs < n"
  shows "frames dec n (concat (map enc xs) @ t) = (xs, t)"
  using assms
proof (induction xs arbitrary: n)
  case Nil
  then show ?case by (cases n) simp_all
next
  case (Cons x xs)
  then obtain m where "n = Suc m" by (cases n) auto
  with Cons show ?case by (simp add: dec_enc)
qed

lemma concat_inj:
  assumes "list_all valid xs" and "list_all valid ys" and "dec t = None"
    and "concat (map enc xs) @ t = concat (map enc ys) @ t"
  shows "xs = ys"
proof -
  define n where "n = Suc (length xs + length ys)"
  have "frames dec n (concat (map enc xs) @ t) = (xs, t)"
    using assms(1,3) by (rule frames_stream) (simp add: n_def)
  moreover have "frames dec n (concat (map enc ys) @ t) = (ys, t)"
    using assms(2,3) by (rule frames_stream) (simp add: n_def)
  ultimately have "(xs, t) = (ys, t)" unfolding assms(4) by (rule box_equals [OF refl])
  then show ?thesis by simp
qed

end

text \<open>What a caller of the parser gets: the body fields and the number of bytes.\<close>

definition body_of :: "Message \<Rightarrow> Fields" where
  "body_of m = filter (\<lambda>f. fst f \<notin> {tag_BeginString, tag_BodyLength, tag_CheckSum}) (msg_fields m)"

definition decode_one :: "char \<Rightarrow> string \<Rightarrow> (Fields \<times> nat) option" where
  "decode_one soh buf =
     (case parse_one soh buf of
        None \<Rightarrow> None
      | Some r \<Rightarrow> if err r = PE_None then Some (body_of (msg r), consumed r) else None)"

lemma decode_build:
  assumes "sep_ok soh" and "body_ok soh body"
  shows "decode_one soh (build soh body @ q) = Some (body, length (build soh body))"
proof -
  have "filter (\<lambda>f. fst f \<notin> {8, 9, 10}) body = body"
    using assms(2) by (auto simp: body_ok_def fields_ok_def filter_id_conv)
  with parse_build [OF assms] show ?thesis
    by (simp add: decode_one_def body_of_def wire_fields_def)
qed

lemma decode_prefix:
  assumes "sep_ok soh" and "body_ok soh body" and "k < length (build soh body)"
  shows "decode_one soh (take k (build soh body)) = None"
  by (simp add: decode_one_def parse_prefix_incomplete [OF assms] parse_fail_def)

interpretation wire: framing "build kSohWire" "decode_one kSohWire" "body_ok kSohWire"
  by unfold_locales (simp_all add: decode_build decode_prefix sep_ok_wire)

interpretation readable: framing "build kSohText" "decode_one kSohText" "body_ok kSohText"
  by unfold_locales (simp_all add: decode_build decode_prefix sep_ok_text)

section \<open>What the checksum catches\<close>

lemma add_mod_cancel:
  fixes a b n s :: nat
  assumes "a < n" and "b < n" and "(s + a) mod n = (s + b) mod n"
  shows "a = b"
  using assms
proof (induction a b rule: linorder_wlog)
  case (le a b)
  then have "n dvd (s + b) - (s + a)" by (metis mod_eq_dvd_iff_nat add_le_cancel_left)
  then have "n dvd b - a" by simp
  with le show ?case by (metis dvd_imp_le less_imp_diff_less not_less zero_less_diff antisym)
qed simp

lemma checksum_substitution:
  "checksum (xs @ c # ys) = checksum (xs @ d # ys) \<longleftrightarrow> c = d"
proof
  let ?s = "\<Sum>c\<leftarrow>xs @ ys. of_char c :: nat"
  assume "checksum (xs @ c # ys) = checksum (xs @ d # ys)"
  then have "unat (checksum (xs @ c # ys)) = unat (checksum (xs @ d # ys))" by simp
  then have "(?s + of_char c) mod 256 = (?s + of_char d) mod 256"
    by (simp add: checksum_mod ac_simps)
  moreover have "(of_char x :: nat) < 256" for x
    using of_char_mod_256 [of x] by (metis mod_less_divisor zero_less_numeral)
  ultimately have "(of_char c :: nat) = of_char d" by (metis add_mod_cancel)
  then show "c = d" by simp
qed simp

lemma parse_one_values:
  assumes "parse_one soh buf = Some r" and "err r = PE_None" and "length buf < 2 ^ 63" and "\<not> is_digit soh"
  shows "\<forall>f \<in> set (msg_fields (msg r)). soh \<notin> set (snd f) \<and> length (snd f) \<le> length buf"
proof -
  from parse_one_frame [OF assms(1-3)] obtain be fs where
    fs: "parse_fields soh buf be 0 [] = (PE_None, fs)" "be + 7 \<le> length buf"
    "msg_fields (msg r) = fst (emplace tag_CheckSum (format_checksum (checksum (take be buf))) fs)" by blast
  have "soh \<notin> set (format_checksum (checksum (take be buf)))"
    using format_checksum_digits(2) [OF checksum_lt] assms(4) by blast
  moreover have "length (format_checksum (checksum (take be buf))) \<le> length buf"
    using format_checksum_digits(1) [OF checksum_lt, of "take be buf"] fs(2) by simp
  ultimately show ?thesis using parse_fields_values [OF fs(1)] by (auto simp: fs(3) emplace_def)
qed

end
