(* ===== verification/FIX_Session.thy ===== *)
theory FIX_Session
  imports FIX_Serializer
begin

text \<open>
  \<^verbatim>\<open>src/fix/session.{h,cpp}\<close>: the FIX session state machine. The members of
  \<^verbatim>\<open>Session\<close> are the record \<open>Session\<close>; every member function takes the session and
  returns it updated. What the code gets from outside is the record \<open>Env\<close>: the wall-clock
  text and the steady clock (each read gives the next value of a sequence, and the session
  counts its reads) and the order in which a \<^verbatim>\<open>std::unordered_map\<close> is iterated.

  A result of \<^const>\<open>None\<close> is a read outside a buffer or a loop that does not end, and
  \<^term>\<open>Inl e\<close> an exception that leaves the function.
\<close>

datatype SessionState = Disconnected | LogonSent | LoggedIn | LogoutSent

record SessionConfig =
  sender_comp_id :: string
  target_comp_id :: string
  heartbeat_secs :: int
  reset_on_logon :: bool
  outbound_history_size :: nat

type_synonym WireOut = string

type_synonym AppMessage = Message

record SessionStep =
  step_out :: "WireOut list"
  step_app :: "AppMessage list"
  step_disconnect :: bool

record OutboundRecord =
  rec_seq :: SeqNum
  rec_sending_time :: string
  rec_bytes :: string

text \<open>Time points are nanoseconds.\<close>

type_synonym time_point = int

record Env =
  env_now :: "nat \<Rightarrow> string"
  env_clock :: "nat \<Rightarrow> time_point"
  env_iter :: "Fields \<Rightarrow> Fields"

record Session =
  cfg :: SessionConfig
  soh :: char
  state :: SessionState
  in_seq :: SeqNum
  out_seq :: SeqNum
  in_buf :: string
  history :: "OutboundRecord list"
  last_inbound :: time_point
  last_outbound :: time_point
  test_request_at :: time_point
  timers_armed :: bool
  test_request_outstanding :: bool
  now_reads :: nat
  clock_reads :: nat

definition new_session :: "SessionConfig \<Rightarrow> char \<Rightarrow> Session" where
  "new_session c sep = \<lparr>cfg = c, soh = sep, state = Disconnected, in_seq = 0, out_seq = 0,
     in_buf = [], history = [], last_inbound = 0, last_outbound = 0, test_request_at = 0,
     timers_armed = False, test_request_outstanding = False, now_reads = 0, clock_reads = 0\<rparr>"

definition no_step :: SessionStep where
  "no_step = \<lparr>step_out = [], step_app = [], step_disconnect = False\<rparr>"

text \<open>
  The text \<^verbatim>\<open>utc_now\<close> formats from what \<^verbatim>\<open>gmtime_r\<close> returns and the milliseconds; it is
  what the wall clock gives when no provider is set. The buffer holds 31 characters.
\<close>

record tm =
  tm_year :: int
  tm_mon :: int
  tm_mday :: int
  tm_hour :: int
  tm_min :: int
  tm_sec :: int

definition pad_int :: "nat \<Rightarrow> int \<Rightarrow> string" where
  "pad_int w i =
     (let ds = show_nat (nat \<bar>i\<bar>); sg = (if i < 0 then ''-'' else '''') in
      sg @ replicate (w - length sg - length ds) (CHR ''0'') @ ds)"

definition utc_now :: "tm \<Rightarrow> int \<Rightarrow> string" where
  "utc_now t ms = take 31 (pad_int 4 (tm_year t + 1900) @ pad_int 2 (tm_mon t + 1) @ pad_int 2 (tm_mday t) @
     ''-'' @ pad_int 2 (tm_hour t) @ '':'' @ pad_int 2 (tm_min t) @ '':'' @ pad_int 2 (tm_sec t) @
     ''.'' @ pad_int 3 ms)"

definition default_now :: "Env \<Rightarrow> Session \<Rightarrow> string \<times> Session" where
  "default_now E s = (env_now E (now_reads s), s\<lparr>now_reads := Suc (now_reads s)\<rparr>)"

definition steady_now_from :: "Env \<Rightarrow> Session \<Rightarrow> time_point \<times> Session" where
  "steady_now_from E s = (env_clock E (clock_reads s), s\<lparr>clock_reads := Suc (clock_reads s)\<rparr>)"

definition reset_seq :: "Session \<Rightarrow> Session" where
  "reset_seq s = s\<lparr>in_seq := 0, out_seq := 0\<rparr>"

definition retain_outbound :: "SeqNum \<Rightarrow> string \<Rightarrow> string \<Rightarrow> Session \<Rightarrow> Session" where
  "retain_outbound sq sending_time bytes s =
     (let hs = history s @ [\<lparr>rec_seq = sq, rec_sending_time = sending_time, rec_bytes = bytes\<rparr>]
      in s\<lparr>history := drop (length hs - outbound_history_size (cfg s)) hs\<rparr>)"

section \<open>Building messages\<close>

text \<open>The position of the last \<^verbatim>\<open>MsgType\<close> field, and the fields without that position.\<close>

definition msg_type_pos :: "Fields \<Rightarrow> nat option" where
  "msg_type_pos body =
     (let ps = filter (\<lambda>i. fst (body ! i) = tag_MsgType) [0..<length body] in
      if ps = [] then None else Some (last ps))"

definition without_pos :: "nat option \<Rightarrow> Fields \<Rightarrow> Fields" where
  "without_pos p body = (case p of None \<Rightarrow> body | Some i \<Rightarrow> take i body @ drop (Suc i) body)"

definition seen :: "int \<Rightarrow> Fields \<Rightarrow> bool" where
  "seen t body \<longleftrightarrow> t \<in> fst ` set body"

definition build_message :: "Env \<Rightarrow> Fields \<Rightarrow> Session \<Rightarrow> WireOut \<times> Session" where
  "build_message E body s =
     (let p = msg_type_pos body;
          b = (case p of None \<Rightarrow> [] | Some i \<Rightarrow> [body ! i]);
          b = b @ (if seen tag_SenderCompID body then [] else [(tag_SenderCompID, sender_comp_id (cfg s))]);
          b = b @ (if seen tag_TargetCompID body then [] else [(tag_TargetCompID, target_comp_id (cfg s))]);
          (assigned_seq, b, s) =
            (if seen tag_MsgSeqNum body then (0, b, s)
             else let s = s\<lparr>out_seq := out_seq s + 1\<rparr>
                  in (out_seq s, b @ [(tag_MsgSeqNum, show_u64 (out_seq s))], s));
          (sending_time, b, s) =
            (if seen tag_SendingTime body then ([], b, s)
             else let (n, s) = default_now E s in (n, b @ [(tag_SendingTime, n)], s));
          b = b @ without_pos p body;
          bytes = build (soh s) b;
          (c, s) = steady_now_from E s;
          s = s\<lparr>last_outbound := c\<rparr>;
          s = (if assigned_seq \<noteq> 0 \<and> outbound_history_size (cfg s) > 0
               then let st = (if sending_time = []
                              then (case map_of b tag_SendingTime of None \<Rightarrow> [] | Some t \<Rightarrow> t)
                              else sending_time)
                    in retain_outbound assigned_seq st bytes s
               else s)
      in (bytes, s))"

definition initiate_logon :: "Env \<Rightarrow> Session \<Rightarrow> WireOut \<times> Session" where
  "initiate_logon E s = build_message E
     [(tag_MsgType, msgtype_Logon), (108, show_int (heartbeat_secs (cfg s)))]
     (s\<lparr>state := LogonSent\<rparr>)"

definition build_resend_request :: "Env \<Rightarrow> SeqNum \<Rightarrow> Session \<Rightarrow> WireOut \<times> Session" where
  "build_resend_request E from_seq s = build_message E
     [(tag_MsgType, msgtype_ResendRequest), (tag_BeginSeqNo, show_u64 from_seq), (tag_EndSeqNo, ''0'')] s"

definition build_reject :: "Env \<Rightarrow> SeqNum \<Rightarrow> string \<Rightarrow> Session \<Rightarrow> WireOut \<times> Session" where
  "build_reject E ref reason s = build_message E
     [(tag_MsgType, msgtype_Reject), (tag_RefSeqNum, show_u64 ref), (tag_Text, reason)] s"

definition send_heartbeat :: "Env \<Rightarrow> Session \<Rightarrow> WireOut \<times> Session" where
  "send_heartbeat E s = build_message E [(tag_MsgType, msgtype_Heartbeat)] s"

definition send_logout :: "Env \<Rightarrow> string \<Rightarrow> Session \<Rightarrow> WireOut \<times> Session" where
  "send_logout E txt s = build_message E
     [(tag_MsgType, msgtype_Logout), (tag_Text, txt)] (s\<lparr>state := LogoutSent\<rparr>)"

definition send_execution_report :: "Env \<Rightarrow> Fields \<Rightarrow> Session \<Rightarrow> WireOut \<times> Session" where
  "send_execution_report E body s = build_message E ((tag_MsgType, msgtype_ExecutionReport) # body) s"

section \<open>Resending\<close>

definition gap_fill :: "Env \<Rightarrow> SeqNum \<Rightarrow> SeqNum \<Rightarrow> Session \<Rightarrow> WireOut \<times> Session" where
  "gap_fill E cursor new_seq_no s =
     (let (n, s) = default_now E s in
      (build (soh s)
        [(tag_MsgType, msgtype_SequenceReset),
         (tag_SenderCompID, sender_comp_id (cfg s)),
         (tag_TargetCompID, target_comp_id (cfg s)),
         (tag_MsgSeqNum, show_u64 cursor),
         (tag_SendingTime, n),
         (tag_GapFillFlag, ''Y''),
         (tag_PossDupFlag, ''Y''),
         (tag_NewSeqNo, show_u64 new_seq_no)], s))"

definition resend_skips :: "int set" where
  "resend_skips = {tag_BeginString, tag_BodyLength, tag_CheckSum, tag_MsgType, tag_PossDupFlag,
     tag_OrigSendingTime, tag_SendingTime}"

definition replay_body :: "Env \<Rightarrow> Fields \<Rightarrow> string \<Rightarrow> string \<Rightarrow> Fields" where
  "replay_body E fs now_text orig_time =
     (case map_of fs tag_MsgType of None \<Rightarrow> [] | Some mt \<Rightarrow> [(tag_MsgType, mt)]) @
     filter (\<lambda>kv. fst kv \<notin> resend_skips) (env_iter E fs) @
     [(tag_SendingTime, now_text), (tag_OrigSendingTime, orig_time), (tag_PossDupFlag, ''Y'')]"

fun replay ::
  "Env \<Rightarrow> SeqNum \<Rightarrow> SeqNum \<Rightarrow> OutboundRecord list \<Rightarrow> WireOut list \<Rightarrow> Session \<Rightarrow> (WireOut list \<times> Session) option"
where
  "replay E cursor last_seq [] out s = Some (out, s)"
| "replay E cursor last_seq (r # rs) out s =
     (if rec_seq r < cursor then replay E cursor last_seq rs out s
      else if rec_seq r > last_seq then Some (out, s)
      else do {
        pr \<leftarrow> parse_one (soh s) (rec_bytes r);
        if err pr \<noteq> PE_None then replay E cursor last_seq rs out s
        else let (n, s) = default_now E s;
                 body = replay_body E (msg_fields (msg pr)) n (rec_sending_time r)
             in replay E cursor last_seq rs (out @ [build (soh s) body]) s })"

definition handle_resend_request ::
  "Env \<Rightarrow> SeqNum \<Rightarrow> SeqNum \<Rightarrow> WireOut list \<Rightarrow> Session \<Rightarrow> (WireOut list \<times> Session) option"
where
  "handle_resend_request E begin_seq end_seq out s =
     (let end_seq = (if end_seq = 0 then out_seq s else end_seq) in
      if begin_seq = 0 \<or> begin_seq > end_seq \<or> begin_seq > out_seq s then Some (out, s)
      else
        let oldest_retained = (case history s of [] \<Rightarrow> out_seq s + 1 | r # _ \<Rightarrow> rec_seq r);
            (cursor, out, s) =
              (if begin_seq < oldest_retained
               then let new_seq_no = min oldest_retained (end_seq + 1);
                        (w, s) = gap_fill E begin_seq new_seq_no s
                    in (new_seq_no, out @ [w], s)
               else (begin_seq, out, s))
        in if cursor > end_seq then Some (out, s)
           else replay E cursor end_seq (history s) out s)"

section \<open>Handling one message\<close>

definition out_step :: "WireOut \<times> Session \<Rightarrow> SessionStep \<times> Session" where
  "out_step r = (no_step\<lparr>step_out := [fst r]\<rparr>, snd r)"

definition disconnected :: "SessionStep \<times> Session \<Rightarrow> SessionStep \<times> Session" where
  "disconnected r = ((fst r)\<lparr>step_disconnect := True\<rparr>, snd r)"

definition handle_logon :: "Env \<Rightarrow> Message \<Rightarrow> SeqNum \<Rightarrow> Session \<Rightarrow> SessionStep \<times> Session" where
  "handle_logon E m sq s =
     (if msg_type m \<noteq> msgtype_Logon then disconnected (no_step, s)
      else
        let s = (if reset_on_logon (cfg s) then s\<lparr>in_seq := 0, out_seq := 0, history := []\<rparr> else s);
            (c, s) = steady_now_from E s; s = s\<lparr>last_inbound := c\<rparr>;
            (c, s) = steady_now_from E s; s = s\<lparr>last_outbound := c\<rparr>;
            s = s\<lparr>test_request_outstanding := False, timers_armed := True\<rparr>;
            target = get m tag_TargetCompID;
            sender = get m tag_SenderCompID
        in if target \<noteq> None \<and> the target \<noteq> sender_comp_id (cfg s) then disconnected (no_step, s)
           else
             let s = (case sender of None \<Rightarrow> s
                      | Some t \<Rightarrow> s\<lparr>cfg := (cfg s)\<lparr>target_comp_id := t\<rparr>\<rparr>);
                 s = s\<lparr>in_seq := sq, state := LoggedIn\<rparr>
             in out_step (build_message E
                  [(tag_MsgType, msgtype_Logon), (108, show_int (heartbeat_secs (cfg s)))] s))"

definition opt_stoull :: "string option \<Rightarrow> exn + SeqNum" where
  "opt_stoull f = (case f of None \<Rightarrow> Inr 0 | Some t \<Rightarrow> stoull t)"

definition dispatch ::
  "Env \<Rightarrow> Message \<Rightarrow> SeqNum \<Rightarrow> Session \<Rightarrow> (exn + (SessionStep \<times> Session)) option"
where
  "dispatch E m sq s =
     (let mt = msg_type m in
      if mt = msgtype_Heartbeat then Some (Inr (no_step, s))
      else if mt = msgtype_TestRequest then
        (let trid = (case get m tag_TestReqID of None \<Rightarrow> [] | Some t \<Rightarrow> t)
         in Some (Inr (out_step (build_message E
              [(tag_MsgType, msgtype_Heartbeat), (tag_TestReqID, trid)] s))))
      else if mt = msgtype_ResendRequest then
        (case opt_stoull (get m tag_BeginSeqNo) of
           Inl e \<Rightarrow> Some (Inl e)
         | Inr begin_seq \<Rightarrow>
             (case opt_stoull (get m tag_EndSeqNo) of
                Inl e \<Rightarrow> Some (Inl e)
              | Inr end_seq \<Rightarrow> do {
                  (out, s) \<leftarrow> handle_resend_request E begin_seq end_seq [] s;
                  Some (Inr (no_step\<lparr>step_out := out\<rparr>, s)) }))
      else if mt = msgtype_Logout then
        (let (st, s) = (if state s \<noteq> LogoutSent then out_step (send_logout E ''acknowledged'' s)
                        else (no_step, s))
         in Some (Inr (disconnected (st, s\<lparr>state := Disconnected\<rparr>))))
      else if mt = msgtype_Reject \<or> mt = msgtype_SequenceReset then Some (Inr (no_step, s))
      else if mt = msgtype_NewOrderSingle \<or> mt = msgtype_OrderCancelRequest \<or>
              mt = msgtype_OrderCancelReplace then Some (Inr (no_step\<lparr>step_app := [m]\<rparr>, s))
      else Some (Inr (out_step (build_reject E sq (''unsupported MsgType='' @ mt) s))))"

definition handle_message ::
  "Env \<Rightarrow> Message \<Rightarrow> Session \<Rightarrow> (exn + (SessionStep \<times> Session)) option"
where
  "handle_message E m s =
     (case seq m of
        Inl e \<Rightarrow> Some (Inl e)
      | Inr sq \<Rightarrow>
          if state s = Disconnected then Some (Inr (handle_logon E m sq s))
          else
            let expected = in_seq s + 1 in
            if sq > expected then Some (Inr (out_step (build_resend_request E expected s)))
            else if sq < expected \<and> sq \<noteq> 0
              then Some (Inr (disconnected (out_step (send_logout E ''MsgSeqNum too low'' s))))
            else dispatch E m sq (s\<lparr>in_seq := sq\<rparr>))"

section \<open>Timers\<close>

definition secs :: "int \<Rightarrow> time_point" where
  "secs n = n * 1000000000"

definition tick :: "Env \<Rightarrow> time_point \<Rightarrow> Session \<Rightarrow> SessionStep \<times> Session" where
  "tick E now s =
     (if state s \<noteq> LoggedIn then (no_step, s)
      else if heartbeat_secs (cfg s) \<le> 0 then (no_step, s)
      else if \<not> timers_armed s then (no_step, s)
      else
        let hb = heartbeat_secs (cfg s);
            half_hb = hb div 2;
            test_window = secs (hb + half_hb)
        in if \<not> test_request_outstanding s \<and> now - last_inbound s \<ge> test_window then
             (let trid = ''tr-'' @ show_u64 (out_seq s + 1);
                  (st, s) = out_step (build_message E
                    [(tag_MsgType, msgtype_TestRequest), (tag_TestReqID, trid)] s)
              in (st, s\<lparr>test_request_at := now, test_request_outstanding := True\<rparr>))
           else if test_request_outstanding s \<and> now - test_request_at s \<ge> test_window then
             (let (st, s) = disconnected (out_step (send_logout E ''heartbeat timeout'' s))
              in (st, s\<lparr>test_request_outstanding := False\<rparr>))
           else if now - last_outbound s \<ge> secs hb then out_step (send_heartbeat E s)
           else (no_step, s))"

section \<open>Inbound bytes\<close>

partial_function (option) on_bytes_loop ::
  "Env \<Rightarrow> SessionStep \<Rightarrow> Session \<Rightarrow> (exn + (SessionStep \<times> Session)) option"
where
  "on_bytes_loop E tot s =
     (if in_buf s = [] then Some (Inr (tot, s))
      else do {
        pr \<leftarrow> parse_one (soh s) (in_buf s);
        if err pr = Incomplete then Some (Inr (tot, s))
        else if err pr \<noteq> PE_None then
          (let (w, s) = send_logout E ''malformed message'' s
           in Some (Inr (tot\<lparr>step_out := step_out tot @ [w], step_disconnect := True\<rparr>, s\<lparr>in_buf := []\<rparr>)))
        else do {
          let s = s\<lparr>in_buf := drop (consumed pr) (in_buf s)\<rparr>;
          let (c, s) = steady_now_from E s;
          let s = s\<lparr>last_inbound := c, test_request_outstanding := False\<rparr>;
          r \<leftarrow> handle_message E (msg pr) s;
          (case r of
             Inl e \<Rightarrow> Some (Inl e)
           | Inr (st, s) \<Rightarrow>
               (let tot = tot\<lparr>step_out := step_out tot @ step_out st,
                                  step_app := step_app tot @ step_app st\<rparr>
                in if step_disconnect st then Some (Inr (tot\<lparr>step_disconnect := True\<rparr>, s))
                   else on_bytes_loop E tot s)) } })"

definition on_bytes :: "Env \<Rightarrow> string \<Rightarrow> Session \<Rightarrow> (exn + (SessionStep \<times> Session)) option" where
  "on_bytes E data s = on_bytes_loop E no_step (s\<lparr>in_buf := in_buf s @ data\<rparr>)"

end
