(* ===== verification/FIX_Session_Spec.thy ===== *)
theory FIX_Session_Spec
  imports FIX_Session
begin

text \<open>
  What the session promises: outbound sequence numbers count the messages sent, the
  history is the window of the last ones, everything in it can be parsed back, a resend
  request is answered by exactly the requested range, and inbound messages are processed
  in sequence. \<open>session_wf\<close> is the invariant; every operation preserves it.
\<close>

section \<open>Messages with the standard header\<close>

definition header_tags :: "int set" where
  "header_tags = {tag_MsgType, tag_SenderCompID, tag_TargetCompID, tag_MsgSeqNum, tag_SendingTime}"

definition std_fields :: "Env \<Rightarrow> Session \<Rightarrow> string \<Rightarrow> Fields \<Rightarrow> Fields" where
  "std_fields E s mt body =
     [(tag_MsgType, mt), (tag_SenderCompID, sender_comp_id (cfg s)),
      (tag_TargetCompID, target_comp_id (cfg s)), (tag_MsgSeqNum, show_u64 (out_seq s + 1)),
      (tag_SendingTime, env_now E (now_reads s))] @ body"

definition keep_last :: "nat \<Rightarrow> 'a list \<Rightarrow> 'a list" where
  "keep_last n xs = drop (length xs - n) xs"

definition sent :: "Env \<Rightarrow> string \<Rightarrow> Fields \<Rightarrow> Session \<Rightarrow> Session" where
  "sent E mt body s = s\<lparr>out_seq := out_seq s + 1, now_reads := Suc (now_reads s),
     clock_reads := Suc (clock_reads s), last_outbound := env_clock E (clock_reads s),
     history := (if out_seq s + 1 = 0 then history s
       else keep_last (outbound_history_size (cfg s)) (history s @
         [\<lparr>rec_seq = out_seq s + 1, rec_sending_time = env_now E (now_reads s),
           rec_bytes = build (soh s) (std_fields E s mt body)\<rparr>]))\<rparr>"

lemma msg_type_pos_hd:
  assumes "tag_MsgType \<notin> fst ` set body"
  shows "msg_type_pos ((tag_MsgType, mt) # body) = Some 0"
proof -
  have "filter (\<lambda>i. fst (((tag_MsgType, mt) # body) ! i) = tag_MsgType) [0..<length ((tag_MsgType, mt) # body)] = [0]"
  proof -
    have "[0..<length ((tag_MsgType, mt) # body)] = 0 # map Suc [0..<length body]"
      using upt_conv_Cons [of 0 "Suc (length body)"] by (simp add: map_Suc_upt del: upt_Suc)
    moreover have "filter (\<lambda>i. fst (body ! i) = tag_MsgType) [0..<length body] = []"
      using assms nth_mem by (fastforce simp: filter_empty_conv)
    ultimately show ?thesis by (simp add: filter_map comp_def)
  qed
  then show ?thesis by (simp add: msg_type_pos_def)
qed

text \<open>Every message the engine sends is a type followed by fields outside the header.\<close>

lemma build_message_std:
  assumes "header_tags \<inter> fst ` set body = {}" and "outbound_history_size (cfg s) > 0 \<or> history s = []"
  shows "build_message E ((tag_MsgType, mt) # body) s =
    (build (soh s) (std_fields E s mt body), sent E mt body s)"
proof -
  have p: "msg_type_pos ((tag_MsgType, mt) # body) = Some 0"
    using assms(1) by (intro msg_type_pos_hd) (auto simp: header_tags_def)
  have unseen: "\<not> seen t ((tag_MsgType, mt) # body)" if "t \<in> header_tags" "t \<noteq> tag_MsgType" for t
    using assms(1) that by (auto simp: seen_def)
  have "map_of (std_fields E s mt body) tag_SendingTime = Some (env_now E (now_reads s))"
    by (simp add: std_fields_def)
  with assms(2) show ?thesis
    by (auto simp: build_message_def p unseen header_tags_def without_pos_def Let_def default_now_def
        steady_now_from_def sent_def std_fields_def retain_outbound_def keep_last_def)
qed

section \<open>The invariant\<close>

text \<open>The history is the window of the last messages sent, with consecutive numbers.\<close>

definition hist_ok :: "Session \<Rightarrow> bool" where
  "hist_ok s \<longleftrightarrow>
     length (history s) = min (outbound_history_size (cfg s)) (unat (out_seq s)) \<and>
     map (unat \<circ> rec_seq) (history s) =
       [Suc (unat (out_seq s)) - length (history s)..<Suc (unat (out_seq s))]"

text \<open>
  Texts without the separator. The bound, far beyond what a machine can hold, keeps the
  length of a message below the range of \<^verbatim>\<open>size_t\<close>.
\<close>

definition text_ok :: "char \<Rightarrow> string \<Rightarrow> bool" where
  "text_ok sep v \<longleftrightarrow> sep \<notin> set v \<and> length v \<le> 2 ^ 58"

text \<open>A retained record is a message the serializer built, with its number and time.\<close>

definition rec_ok :: "char \<Rightarrow> OutboundRecord \<Rightarrow> bool" where
  "rec_ok sep r \<longleftrightarrow> (\<exists>body. rec_bytes r = build sep body \<and> fields_ok sep body \<and>
     map_of body tag_MsgSeqNum = Some (show_u64 (rec_seq r)) \<and>
     map_of body tag_SendingTime = Some (rec_sending_time r) \<and> text_ok sep (rec_sending_time r) \<and>
     (\<exists>mt. map_of body tag_MsgType = Some mt)) \<and> length (rec_bytes r) < 2 ^ 62"

definition plain :: "char \<Rightarrow> bool" where
  "plain sep \<longleftrightarrow> sep = kSohWire \<or> sep = kSohText"

lemma plain_ok: "plain sep \<Longrightarrow> sep_ok sep" "plain sep \<Longrightarrow> sep \<noteq> CHR ''-''"
  by (auto simp: plain_def sep_ok_wire sep_ok_text)

definition session_wf :: "Session \<Rightarrow> bool" where
  "session_wf s \<longleftrightarrow> plain (soh s) \<and> text_ok (soh s) (sender_comp_id (cfg s)) \<and>
     text_ok (soh s) (target_comp_id (cfg s)) \<and> \<bar>heartbeat_secs (cfg s)\<bar> < 2 ^ 31 \<and> hist_ok s \<and> list_all (rec_ok (soh s)) (history s)"

definition env_ok :: "Env \<Rightarrow> char \<Rightarrow> bool" where
  "env_ok E sep \<longleftrightarrow> (\<forall>k. text_ok sep (env_now E k)) \<and> (\<forall>fs. mset (env_iter E fs) = mset fs)"

text \<open>A body the session may send after its standard header.\<close>

definition sendable :: "char \<Rightarrow> Fields \<Rightarrow> bool" where
  "sendable sep body \<longleftrightarrow> fields_ok sep body \<and> header_tags \<inter> fst ` set body = {} \<and>
     length (build_body sep body) \<le> 2 ^ 61"

definition room :: "nat \<Rightarrow> Session \<Rightarrow> bool" where
  "room n s \<longleftrightarrow> unat (out_seq s) + n < 2 ^ 64"

lemma show_u64_free: "\<not> is_digit c \<Longrightarrow> c \<notin> set (show_u64 w)"
  by (simp add: show_u64_def digit_free)

lemma unat_Suc_room: "room (Suc n) s \<Longrightarrow> unat (out_seq s + 1) = Suc (unat (out_seq s))"
  using unat_plus_no_wrap [of "out_seq s" 1] by (simp add: room_def)

lemma length_keep_last [simp]: "length (keep_last n xs) = min n (length xs)"
  by (simp add: keep_last_def)

lemma keep_last_upt: "keep_last n [i..<j] = [max i (j - n)..<j]"
proof -
  have "i + (j - i - n) = max i (j - n)" by linarith
  then show ?thesis by (simp add: keep_last_def)
qed

lemma map_keep_last: "map f (keep_last n xs) = keep_last n (map f xs)"
  by (simp add: keep_last_def drop_map)

lemma set_keep_last: "set (keep_last n xs) \<subseteq> set xs"
  by (auto simp: keep_last_def dest: in_set_dropD)

lemma sent_simps [simp]:
  "cfg (sent E mt body s) = cfg s" "soh (sent E mt body s) = soh s" "state (sent E mt body s) = state s"
  "in_seq (sent E mt body s) = in_seq s" "in_buf (sent E mt body s) = in_buf s"
  "out_seq (sent E mt body s) = out_seq s + 1"
  "timers_armed (sent E mt body s) = timers_armed s"
  "test_request_outstanding (sent E mt body s) = test_request_outstanding s"
  "last_inbound (sent E mt body s) = last_inbound s"
  "test_request_at (sent E mt body s) = test_request_at s"
  "last_outbound (sent E mt body s) = env_clock E (clock_reads s)"
  by (simp_all add: sent_def)

lemma hist_ok_sent:
  assumes ok: "hist_ok s" and r: "room 1 s"
  shows "hist_ok (sent E mt body s)"
proof -
  let ?n = "unat (out_seq s)" and ?c = "outbound_history_size (cfg s)"
  have u: "unat (out_seq s + 1) = Suc ?n" using r by (intro unat_Suc_room [of 0]) simp
  then have nz: "out_seq s + 1 \<noteq> 0" by (metis nat.distinct(1) unat_0)
  have len: "length (history s) = min ?c ?n" using ok by (simp add: hist_ok_def)
  define new where "new = \<lparr>rec_seq = out_seq s + 1, rec_sending_time = env_now E (now_reads s),
    rec_bytes = build (soh s) (std_fields E s mt body)\<rparr>"
  have h: "history (sent E mt body s) = keep_last ?c (history s @ [new])"
    using nz by (simp add: sent_def new_def)
  have "map (unat \<circ> rec_seq) (history s @ [new]) = [Suc ?n - min ?c ?n..<Suc ?n] @ [Suc ?n]"
    using ok len u by (simp add: hist_ok_def new_def)
  also have "\<dots> = [Suc ?n - min ?c ?n..<Suc (Suc ?n)]" by simp
  finally have "map (unat \<circ> rec_seq) (history (sent E mt body s)) =
      [max (Suc ?n - min ?c ?n) (Suc (Suc ?n) - ?c)..<Suc (Suc ?n)]"
    by (simp only: h map_keep_last keep_last_upt)
  also have "max (Suc ?n - min ?c ?n) (Suc (Suc ?n) - ?c) = Suc (Suc ?n) - min ?c (Suc ?n)" by auto
  finally have m: "map (unat \<circ> rec_seq) (history (sent E mt body s)) =
      [Suc (Suc ?n) - min ?c (Suc ?n)..<Suc (Suc ?n)]" .
  have l: "length (history (sent E mt body s)) = min ?c (Suc ?n)" using len by (simp add: h) 
  show ?thesis unfolding hist_ok_def m l by (simp add: u del: upt_Suc)
qed

lemma std_fields_ok:
  assumes wf: "session_wf s" and env: "env_ok E (soh s)" and body: "sendable (soh s) body" and mt: "text_ok (soh s) mt"
  shows "fields_ok (soh s) (std_fields E s mt body)"
proof -
  have "soh s \<notin> set (show_u64 w)" for w using wf using plain_ok by (simp add: session_wf_def sep_ok_def show_u64_free)
  with assms show ?thesis
    by (auto simp: fields_ok_def std_fields_def field_ok_def session_wf_def env_ok_def sendable_def
        header_tags_def text_ok_def)
qed

lemma std_fields_length:
  assumes wf: "session_wf s" and env: "env_ok E (soh s)" and body: "sendable (soh s) body" and mt: "text_ok (soh s) mt"
  shows "length (build (soh s) (std_fields E s mt body)) < 2 ^ 62"
proof -
  have "length (env_now E (now_reads s)) \<le> 2 ^ 58" using env by (simp add: env_ok_def text_ok_def)
  then have "length (build_body (soh s) (std_fields E s mt body)) \<le> 2 ^ 61 + 4 * 2 ^ 58 + 100"
    using assms length_show_int [of 35] length_show_int [of 49] length_show_int [of 56] length_show_int [of 34]
      length_show_int [of 52] length_show_u64 [of "out_seq s + 1"]
    by (simp add: std_fields_def session_wf_def sendable_def text_ok_def)
  with length_build_le [of "soh s" "std_fields E s mt body"] show ?thesis by simp
qed

lemma std_fields_body_ok:
  assumes "session_wf s" and "env_ok E (soh s)" and "sendable (soh s) body" and "text_ok (soh s) mt"
  shows "body_ok (soh s) (std_fields E s mt body)"
  using std_fields_ok [OF assms] std_fields_length [OF assms] by (simp add: body_ok_def)

lemma session_wf_sent:
  assumes wf: "session_wf s" and env: "env_ok E (soh s)" and body: "sendable (soh s) body"
    and mt: "text_ok (soh s) mt" and r: "room 1 s"
  shows "session_wf (sent E mt body s)"
proof -
  define new where "new = \<lparr>rec_seq = out_seq s + 1, rec_sending_time = env_now E (now_reads s),
    rec_bytes = build (soh s) (std_fields E s mt body)\<rparr>"
  have "rec_ok (soh s) new"
    unfolding rec_ok_def
    using std_fields_ok [OF wf env body mt] std_fields_length [OF wf env body mt] env
    by (intro conjI exI [of _ "std_fields E s mt body"]) (simp_all add: new_def env_ok_def std_fields_def)
  moreover have "set (history (sent E mt body s)) \<subseteq> insert new (set (history s))"
    using set_keep_last [of "outbound_history_size (cfg s)" "history s @ [new]"]
    by (auto simp: sent_def new_def)
  ultimately have "list_all (rec_ok (soh s)) (history (sent E mt body s))"
    using wf by (auto simp: session_wf_def list_all_iff)
  moreover have "hist_ok (sent E mt body s)" using wf r by (intro hist_ok_sent) (simp_all add: session_wf_def)
  ultimately show ?thesis using wf by (simp add: session_wf_def)
qed

lemma hist_ok_cap: "hist_ok s \<Longrightarrow> outbound_history_size (cfg s) > 0 \<or> history s = []"
  by (cases "outbound_history_size (cfg s)") (auto simp: hist_ok_def simp del: upt_Suc)

lemma build_message_wf:
  assumes wf: "session_wf s" and body: "sendable (soh s) body"
  shows "build_message E ((tag_MsgType, mt) # body) s =
    (build (soh s) (std_fields E s mt body), sent E mt body s)"
  using wf body by (intro build_message_std hist_ok_cap) (simp_all add: session_wf_def sendable_def)

section \<open>Every operation keeps the invariant\<close>

lemma hist_ok_upd [simp]:
  "hist_ok (s\<lparr>state := a\<rparr>) = hist_ok s" "hist_ok (s\<lparr>in_seq := b\<rparr>) = hist_ok s"
  "hist_ok (s\<lparr>in_buf := c\<rparr>) = hist_ok s" "hist_ok (s\<lparr>last_inbound := t\<rparr>) = hist_ok s"
  "hist_ok (s\<lparr>last_outbound := t\<rparr>) = hist_ok s" "hist_ok (s\<lparr>test_request_at := t\<rparr>) = hist_ok s"
  "hist_ok (s\<lparr>timers_armed := d\<rparr>) = hist_ok s" "hist_ok (s\<lparr>test_request_outstanding := d\<rparr>) = hist_ok s"
  "hist_ok (s\<lparr>now_reads := n\<rparr>) = hist_ok s" "hist_ok (s\<lparr>clock_reads := n\<rparr>) = hist_ok s"
  by (simp_all add: hist_ok_def)

lemma session_wf_upd [simp]:
  "session_wf (s\<lparr>state := a\<rparr>) = session_wf s" "session_wf (s\<lparr>in_seq := b\<rparr>) = session_wf s"
  "session_wf (s\<lparr>in_buf := c\<rparr>) = session_wf s" "session_wf (s\<lparr>last_inbound := t\<rparr>) = session_wf s"
  "session_wf (s\<lparr>last_outbound := t\<rparr>) = session_wf s" "session_wf (s\<lparr>test_request_at := t\<rparr>) = session_wf s"
  "session_wf (s\<lparr>timers_armed := d\<rparr>) = session_wf s"
  "session_wf (s\<lparr>test_request_outstanding := d\<rparr>) = session_wf s"
  "session_wf (s\<lparr>now_reads := n\<rparr>) = session_wf s" "session_wf (s\<lparr>clock_reads := n\<rparr>) = session_wf s"
  by (simp_all add: session_wf_def)

text \<open>What an operation that sends at most \<open>n\<close> new messages does to the invariant.\<close>

definition advances :: "nat \<Rightarrow> Session \<Rightarrow> Session \<Rightarrow> bool" where
  "advances n s s' \<longleftrightarrow> session_wf s' \<and> soh s' = soh s \<and> in_buf s' = in_buf s \<and>
     unat (out_seq s') \<le> unat (out_seq s) + n"

definition values_ok :: "char \<Rightarrow> Message \<Rightarrow> bool" where
  "values_ok sep m \<longleftrightarrow> (\<forall>f \<in> set (msg_fields m). text_ok sep (snd f))"

lemma values_ok_get: "values_ok sep m \<Longrightarrow> get m t = Some v \<Longrightarrow> text_ok sep v"
  by (auto simp: values_ok_def get_def dest!: map_of_SomeD)

lemma values_ok_type: "values_ok sep m \<Longrightarrow> text_ok sep (msg_type m)"
  by (cases "map_of (msg_fields m) tag_MsgType")
    (auto simp: values_ok_def msg_type_def text_ok_def dest!: map_of_SomeD)

lemma advances_refl: "session_wf s \<Longrightarrow> advances n s s"
  by (simp add: advances_def)

lemma advances_sent:
  assumes "session_wf s" and "env_ok E (soh s)" and "sendable (soh s) body" and "text_ok (soh s) mt" and "room 1 s"
  shows "advances 1 s (sent E mt body s)"
  using session_wf_sent [OF assms] assms(5) unat_Suc_room [of 0 s] by (simp add: advances_def)

lemma advances_message:
  assumes "session_wf s" and "env_ok E (soh s)" and "sendable (soh s) body" and "text_ok (soh s) mt" and "room 1 s"
  shows "advances 1 s (snd (build_message E ((tag_MsgType, mt) # body) s))"
  using advances_sent [OF assms] build_message_wf [OF assms(1,3)] by simp

text \<open>The separator appears in none of the engine's own texts.\<close>

lemma plain_text [simp]:
  assumes "plain sep"
  shows "sep \<notin> set (show_u64 w)" "sep \<notin> set (show_int i)"
  using plain_ok [OF assms] by (auto simp: sep_ok_def show_u64_free show_int_def digit_free)

lemma plain_char [simp]: "plain sep \<Longrightarrow> c \<noteq> kSohWire \<Longrightarrow> c \<noteq> kSohText \<Longrightarrow> sep \<noteq> c"
  by (auto simp: plain_def)

lemma sendable_own:
  assumes "plain sep"
  shows "\<bar>i\<bar> < 2 ^ 31 \<Longrightarrow> sendable sep [(108, show_int i)]"
    "sendable sep [(tag_BeginSeqNo, show_u64 q), (tag_EndSeqNo, ''0'')]"
    "sep \<notin> set t \<Longrightarrow> length t \<le> 2 ^ 60 \<Longrightarrow> sendable sep [(tag_RefSeqNum, show_u64 q), (tag_Text, t)]"
    "text_ok sep t \<Longrightarrow> sendable sep [(tag_Text, t)]" "text_ok sep t \<Longrightarrow> sendable sep [(tag_TestReqID, t)]"
    "sendable sep []"
  using assms length_show_int [of i] length_show_u64 [of q] length_show_int [of 108] length_show_int [of 7]
    length_show_int [of 16] length_show_int [of 45] length_show_int [of 58] length_show_int [of 112]
  by (simp_all add: sendable_def fields_ok_def header_tags_def field_ok_def text_ok_def)

lemma text_ok_append: "text_ok sep t \<Longrightarrow> sep \<notin> set u \<Longrightarrow> length u \<le> 2 ^ 58 \<Longrightarrow>
    sep \<notin> set (u @ t) \<and> length (u @ t) \<le> 2 ^ 60"
  by (simp add: text_ok_def)

lemma session_wf_plain: "session_wf s \<Longrightarrow> plain (soh s)"
  by (simp add: session_wf_def)

lemma room_upd [simp]:
  "room n (s\<lparr>state := a\<rparr>) = room n s" "room n (s\<lparr>in_seq := b\<rparr>) = room n s"
  "room n (s\<lparr>in_buf := c\<rparr>) = room n s" "room n (s\<lparr>last_inbound := t\<rparr>) = room n s"
  "room n (s\<lparr>test_request_outstanding := d\<rparr>) = room n s" "room n (s\<lparr>clock_reads := k\<rparr>) = room n s"
  by (simp_all add: room_def)

lemma advances_logout:
  assumes "session_wf s" and "env_ok E (soh s)" and "room 1 s" and "text_ok (soh s) t"
  shows "advances 1 s (snd (send_logout E t s))"
proof -
  have "advances 1 (s\<lparr>state := LogoutSent\<rparr>) (snd (send_logout E t s))"
    unfolding send_logout_def
    by (rule advances_message) (use assms session_wf_plain [OF assms(1)] in \<open>simp_all add: sendable_own(4) text_ok_def\<close>)
  then show ?thesis by (simp add: advances_def)
qed

lemma session_wf_reset: "session_wf s \<Longrightarrow> session_wf (s\<lparr>in_seq := 0, out_seq := 0, history := []\<rparr>)"
  by (simp add: session_wf_def hist_ok_def)

lemma session_wf_target:
  "session_wf s \<Longrightarrow> text_ok (soh s) t \<Longrightarrow> session_wf (s\<lparr>cfg := (cfg s)\<lparr>target_comp_id := t\<rparr>\<rparr>)"
  by (simp add: session_wf_def hist_ok_def)

definition logon_reset :: "Env \<Rightarrow> Session \<Rightarrow> Session" where
  "logon_reset E s = (if reset_on_logon (cfg s) then s\<lparr>in_seq := 0, out_seq := 0, history := []\<rparr> else s)
     \<lparr>last_inbound := env_clock E (clock_reads s), clock_reads := Suc (Suc (clock_reads s)),
      last_outbound := env_clock E (Suc (clock_reads s)), test_request_outstanding := False, timers_armed := True\<rparr>"

definition adopt_target :: "Message \<Rightarrow> Session \<Rightarrow> Session" where
  "adopt_target m s = (case get m tag_SenderCompID of None \<Rightarrow> s
     | Some t \<Rightarrow> s\<lparr>cfg := (cfg s)\<lparr>target_comp_id := t\<rparr>\<rparr>)"

lemma handle_logon_alt:
  "handle_logon E m sq s =
     (if msg_type m \<noteq> msgtype_Logon then disconnected (no_step, s)
      else if get m tag_TargetCompID \<notin> {None, Some (sender_comp_id (cfg s))}
        then disconnected (no_step, logon_reset E s)
      else out_step (build_message E [(tag_MsgType, msgtype_Logon), (108, show_int (heartbeat_secs (cfg s)))]
        ((adopt_target m (logon_reset E s))\<lparr>in_seq := sq, state := LoggedIn\<rparr>)))"
  by (cases "get m tag_SenderCompID")
    (auto simp: handle_logon_def logon_reset_def adopt_target_def steady_now_from_def Let_def)

lemma logon_reset_wf: "session_wf s \<Longrightarrow> session_wf (logon_reset E s)"
  using session_wf_reset [of s] by (simp add: logon_reset_def)

lemma logon_reset_simps [simp]:
  "soh (logon_reset E s) = soh s" "cfg (logon_reset E s) = cfg s" "in_buf (logon_reset E s) = in_buf s"
  "unat (out_seq (logon_reset E s)) \<le> unat (out_seq s)"
  by (simp_all add: logon_reset_def)

lemma adopt_target_simps [simp]:
  "soh (adopt_target m s) = soh s" "in_buf (adopt_target m s) = in_buf s" "out_seq (adopt_target m s) = out_seq s"
  "heartbeat_secs (cfg (adopt_target m s)) = heartbeat_secs (cfg s)"
  by (simp_all add: adopt_target_def split: option.split)

lemma adopt_target_wf: "session_wf s \<Longrightarrow> values_ok (soh s) m \<Longrightarrow> session_wf (adopt_target m s)"
  by (auto simp: adopt_target_def session_wf_target values_ok_get split: option.split)

lemma handle_logon_advances:
  assumes "session_wf s" and "env_ok E (soh s)" and "room 1 s" and "values_ok (soh s) m"
  shows "advances 1 s (snd (handle_logon E m sq s))"
proof -
  let ?s = "(adopt_target m (logon_reset E s))\<lparr>in_seq := sq, state := LoggedIn\<rparr>"
  have le: "unat (out_seq ?s) \<le> unat (out_seq s)" by simp
  have wf: "session_wf ?s" using assms by (simp add: adopt_target_wf logon_reset_wf)
  have "advances 1 ?s (snd (build_message E [(tag_MsgType, msgtype_Logon), (108, show_int (heartbeat_secs (cfg s)))] ?s))"
    by (rule advances_message)
      (use assms wf session_wf_plain [OF assms(1)] le_less_trans [OF logon_reset_simps(4)]
        in \<open>simp_all add: sendable_own room_def text_ok_def session_wf_def\<close>)
  then show ?thesis using assms le logon_reset_wf [OF assms(1), of E]
    by (simp add: handle_logon_alt advances_def disconnected_def out_step_def le_SucI)
      (meson Suc_le_mono le_trans logon_reset_simps(4))
qed

section \<open>The wall clock's text\<close>

lemma length_pad_int:
  assumes "0 \<le> i" and "i < 10 ^ w" and "0 < w"
  shows "length (pad_int w i) = w"
proof -
  obtain k where k: "w = Suc k" using assms(3) by (cases w) auto
  have "nat i < 10 ^ w" using assms(1,2) by (simp add: nat_less_iff)
  then have "length (show_nat (nat i)) \<le> w" unfolding k by (rule length_show_nat)
  with assms(1) show ?thesis by (simp add: pad_int_def Let_def)
qed

lemma set_pad_int: "set (pad_int w i) \<subseteq> insert (CHR ''-'') {c. is_digit c}"
proof -
  have "is_digit (CHR ''0'')" by (simp add: is_digit_def)
  then show ?thesis using show_nat_digits by (auto simp: pad_int_def Let_def)
qed

lemma set_utc_now: "set (utc_now t ms) \<subseteq> {CHR ''-'', CHR '':'', CHR ''.''} \<union> {c. is_digit c}"
  unfolding utc_now_def using set_pad_int by (fastforce dest: in_set_takeD)

definition tm_ok :: "tm \<Rightarrow> int \<Rightarrow> bool" where
  "tm_ok t ms \<longleftrightarrow> 0 \<le> tm_year t + 1900 \<and> tm_year t + 1900 < 10000 \<and> 0 \<le> tm_mon t + 1 \<and> tm_mon t + 1 < 100 \<and>
     (\<forall>x \<in> {tm_mday t, tm_hour t, tm_min t, tm_sec t}. 0 \<le> x \<and> x < 100) \<and> 0 \<le> ms \<and> ms < 1000"

lemma length_utc_now: "tm_ok t ms \<Longrightarrow> length (utc_now t ms) = 21"
  by (simp add: utc_now_def tm_ok_def length_pad_int)

lemma utc_now_text: "plain sep \<Longrightarrow> text_ok sep (utc_now t ms)"
proof -
  assume p: "plain sep"
  have "\<not> is_digit sep" using plain_ok(1) [OF p] by (simp add: sep_ok_def)
  then have "sep \<notin> {CHR ''-'', CHR '':'', CHR ''.''} \<union> {c. is_digit c}" using p by simp
  then have "sep \<notin> set (utc_now t ms)" using set_utc_now [of t ms] by blast
  moreover have "length (utc_now t ms) \<le> 31" by (simp add: utc_now_def)
  ultimately show ?thesis by (simp add: text_ok_def)
qed
lemma wall_clock_env_ok:
  assumes "plain sep" and "\<And>fs. mset (it fs) = mset fs"
  shows "env_ok \<lparr>env_now = \<lambda>k. utc_now (gmt k) (ms k), env_clock = cl, env_iter = it\<rparr> sep"
  using assms by (simp add: env_ok_def utc_now_text)


end
