(* ===== verification/FIX_Resend.thy ===== *)
theory FIX_Resend
  imports FIX_Session_Spec
begin

text \<open>
  Answering a resend request: the engine re-parses what it retained and sends it again
  as possible duplicates. The lemmas compute the whole answer and say what the
  counterparty reads in it.
\<close>

section \<open>What the counterparty reads\<close>

definition peek :: "char \<Rightarrow> string \<Rightarrow> int \<Rightarrow> string option" where
  "peek sep w t = (case parse_one sep w of
      None \<Rightarrow> None
    | Some r \<Rightarrow> if err r = PE_None then get (msg r) t else None)"

lemma peek_build:
  assumes "sep_ok sep" and "body_ok sep body" and "t \<notin> {tag_BeginString, tag_BodyLength, tag_CheckSum}"
  shows "peek sep (build sep body) t = map_of body t"
  using parse_build [OF assms(1,2), of "[]"] assms(3)
  by (simp add: peek_def get_def wire_fields_def map_add_def split: option.split)

text \<open>Bytes that are read as one message, once they are all there and whatever follows them.\<close>

definition framed :: "char \<Rightarrow> string \<Rightarrow> bool" where
  "framed sep w \<longleftrightarrow> (\<forall>rest. \<exists>r. parse_one sep (w @ rest) = Some r \<and> err r = PE_None \<and> consumed r = length w \<and>
     (\<forall>t. get (msg r) t = peek sep w t)) \<and>
     (\<forall>k < length w. parse_one sep (take k w) = Some (parse_fail Incomplete))"

lemma framed_build: "sep_ok sep \<Longrightarrow> body_ok sep body \<Longrightarrow> framed sep (build sep body)"
  unfolding framed_def using parse_build [of sep body] parse_build [of sep body "[]"] parse_prefix_incomplete [of sep body]
  by (simp add: peek_def)

section \<open>The replay loop\<close>

definition in_range :: "SeqNum \<Rightarrow> SeqNum \<Rightarrow> OutboundRecord \<Rightarrow> bool" where
  "in_range c l r \<longleftrightarrow> c \<le> rec_seq r \<and> rec_seq r \<le> l"

definition resent :: "Env \<Rightarrow> char \<Rightarrow> OutboundRecord \<Rightarrow> nat \<Rightarrow> WireOut" where
  "resent E sep r k = build sep (replay_body E
     (msg_fields (msg (the (parse_one sep (rec_bytes r))))) (env_now E k) (rec_sending_time r))"

lemma rec_ok_parses:
  assumes "plain sep" and "rec_ok sep r"
  shows "\<exists>pr. parse_one sep (rec_bytes r) = Some pr \<and> err pr = PE_None"
proof -
  from assms(2) obtain body where b: "rec_bytes r = build sep body" "fields_ok sep body" "length (rec_bytes r) < 2 ^ 62"
    unfolding rec_ok_def by blast
  then have "body_ok sep body" by (simp add: body_ok_def)
  from parse_build [OF plain_ok(1) [OF assms(1)] this, of "[]"] b(1) show ?thesis by simp
qed

lemma replay_eq:
  assumes "plain (soh s)" and "list_all (rec_ok (soh s)) rs" and "sorted_wrt (<) (map rec_seq rs)"
  shows "replay E c l rs out s = (let rr = filter (in_range c l) rs in
    Some (out @ map2 (resent E (soh s)) rr [now_reads s..<now_reads s + length rr],
      s\<lparr>now_reads := now_reads s + length rr\<rparr>))"
  using assms
proof (induction rs arbitrary: out s)
  case Nil
  then show ?case by simp
next
  case (Cons r rs)
  from rec_ok_parses [of "soh s" r] Cons.prems obtain pr where
    pr: "parse_one (soh s) (rec_bytes r) = Some pr" "err pr = PE_None" by auto
  consider (skip) "rec_seq r < c" | (stop) "\<not> rec_seq r < c" "l < rec_seq r" | (hit) "c \<le> rec_seq r" "rec_seq r \<le> l"
    by fastforce
  then show ?case
  proof cases
    case skip
    then have "\<not> in_range c l r" by (auto simp: in_range_def)
    with skip Cons show ?thesis by simp
  next
    case stop
    with Cons.prems(3) have "filter (in_range c l) rs = []"
      by (auto simp: filter_empty_conv in_range_def)
    moreover from stop have "\<not> in_range c l r" by (auto simp: in_range_def)
    ultimately show ?thesis using stop by simp
  next
    case hit
    let ?s = "s\<lparr>now_reads := Suc (now_reads s)\<rparr>" and ?rr = "filter (in_range c l) rs"
    have ir: "in_range c l r" using hit by (simp add: in_range_def)
    have "replay E c l (r # rs) out s =
        replay E c l rs (out @ [resent E (soh s) r (now_reads s)]) ?s"
      using leD [OF hit(1)] leD [OF hit(2)] pr by (simp add: default_now_def resent_def)
    also have "\<dots> = Some (out @ [resent E (soh s) r (now_reads s)] @
        map2 (resent E (soh s)) ?rr [Suc (now_reads s)..<Suc (now_reads s) + length ?rr],
        s\<lparr>now_reads := Suc (now_reads s) + length ?rr\<rparr>)"
      using Cons.IH [of ?s] Cons.prems by (simp add: Let_def)
    finally show ?thesis
      using hit upt_conv_Cons [of "now_reads s" "Suc (now_reads s + length ?rr)"]
      by (simp add: ir Let_def del: upt_Suc replay.simps)
  qed
qed

section \<open>What is sent again\<close>

lemma length_build_body: "length (build_body sep fs) = (\<Sum>f\<leftarrow>fs. length (show_int (fst f)) + length (snd f) + 2)"
  by (induction sep fs rule: build_body.induct) simp_all

lemma length_build_body_mset: "mset fs = mset gs \<Longrightarrow> length (build_body sep fs) = length (build_body sep gs)"
  unfolding length_build_body sum_mset_sum_list [symmetric] mset_map by simp

lemma length_build_body_filter: "length (build_body sep (filter P fs)) \<le> length (build_body sep fs)"
  unfolding length_build_body by (induction fs) auto

lemma length_build_body_append:
  "length (build_body sep (fs @ gs)) = length (build_body sep fs) + length (build_body sep gs)"
  by (simp add: length_build_body)

lemma map_of_mset:
  assumes "distinct (map fst xs)" and "mset xs = mset ys"
  shows "map_of xs = map_of ys"
proof -
  have "mset (map fst xs) = mset (map fst ys)" using assms(2) by simp
  then have "distinct (map fst ys)" using assms(1) mset_eq_imp_distinct_iff by blast
  then show ?thesis using assms mset_eq_setD map_of_inject_set by blast
qed

lemma map_of_filter_fst: "map_of (filter (\<lambda>kv. fst kv \<notin> A) xs) t = (if t \<in> A then None else map_of xs t)"
  by (induction xs) auto

text \<open>The fields copied from a retained message, up to the iteration order.\<close>

definition copied :: "Env \<Rightarrow> char \<Rightarrow> Fields \<Rightarrow> string \<Rightarrow> Fields" where
  "copied E sep body cs = filter (\<lambda>kv. fst kv \<notin> resend_skips) (env_iter E (wire_fields sep body @ [(tag_CheckSum, cs)]))"

lemma copied_mset:
  assumes "env_ok E sep"
  shows "mset (copied E sep body cs) = mset (filter (\<lambda>kv. fst kv \<notin> resend_skips) body)"
proof -
  have "mset (copied E sep body cs) =
      mset (filter (\<lambda>kv. fst kv \<notin> resend_skips) (wire_fields sep body @ [(tag_CheckSum, cs)]))"
    using assms by (simp only: copied_def mset_filter env_ok_def)
  then show ?thesis by (simp add: wire_fields_def resend_skips_def)
qed

lemma replay_body_wire:
  "replay_body E (wire_fields sep body @ [(tag_CheckSum, cs)]) now_text orig_time =
    (case map_of body tag_MsgType of None \<Rightarrow> [] | Some mt \<Rightarrow> [(tag_MsgType, mt)]) @ copied E sep body cs @
    [(tag_SendingTime, now_text), (tag_OrigSendingTime, orig_time), (tag_PossDupFlag, ''Y'')]"
  by (simp add: replay_body_def wire_fields_def copied_def map_add_def split: option.split)

lemma copied_ok:
  assumes "env_ok E sep" and "fields_ok sep body"
  shows "fields_ok sep (copied E sep body cs)" "fst ` set (copied E sep body cs) \<inter> resend_skips = {}"
    "length (build_body sep (copied E sep body cs)) \<le> length (build_body sep body)"
    "map_of (copied E sep body cs) t = (if t \<in> resend_skips then None else map_of body t)"
proof -
  let ?f = "filter (\<lambda>kv. fst kv \<notin> resend_skips) body"
  note m = copied_mset [OF assms(1), of body cs]
  have set: "set (copied E sep body cs) = set ?f" using m by (rule mset_eq_setD)
  have d: "distinct (map fst ?f)" using assms(2) by (simp add: fields_ok_def distinct_map_filter)
  moreover have "mset (map fst (copied E sep body cs)) = mset (map fst ?f)" using m by simp
  ultimately have d': "distinct (map fst (copied E sep body cs))" using mset_eq_imp_distinct_iff by blast
  show "fields_ok sep (copied E sep body cs)"
    using d' assms(2) by (auto simp: fields_ok_def set list_all_iff)
  show "fst ` set (copied E sep body cs) \<inter> resend_skips = {}" by (auto simp: set)
  show "length (build_body sep (copied E sep body cs)) \<le> length (build_body sep body)"
    using length_build_body_mset [OF m, of sep] length_build_body_filter [of sep _ body] by simp
  show "map_of (copied E sep body cs) t = (if t \<in> resend_skips then None else map_of body t)"
    using map_of_mset [OF d' m] by (simp add: map_of_filter_fst)
qed

lemma length_build_body_mem: "(t, v) \<in> set fs \<Longrightarrow> length (build_body sep [(t, v)]) \<le> length (build_body sep fs)"
  unfolding length_build_body by (induction fs) auto

lemma resent_body:
  assumes sep: "plain sep" and env: "env_ok E sep" and body: "fields_ok sep body"
    and len: "length (build sep body) < 2 ^ 62" and mt: "map_of body tag_MsgType = Some mt" and t: "text_ok sep orig"
  shows "body_ok sep (replay_body E (wire_fields sep body @ [(tag_CheckSum, cs)]) (env_now E k) orig)"
    (is "body_ok sep ?rb")
proof -
  have rb: "?rb = [(tag_MsgType, mt)] @ copied E sep body cs @
      [(tag_SendingTime, env_now E k), (tag_OrigSendingTime, orig), (tag_PossDupFlag, ''Y'')]"
    by (simp add: replay_body_wire mt)
  note c = copied_ok [OF env body, of cs]
  have mem: "(tag_MsgType, mt) \<in> set body" using mt by (rule map_of_SomeD)
  have now: "text_ok sep (env_now E k)" using env by (simp add: env_ok_def)
  have fresh: "tt \<notin> fst ` set (copied E sep body cs)" if "tt \<in> resend_skips" for tt using c(2) that by blast
  have "fields_ok sep ?rb"
    unfolding fields_ok_def
  proof (intro conjI)
    show "list_all (field_ok sep) ?rb"
      using c(1) body mem now t sep
      by (auto simp: rb fields_ok_def field_ok_def text_ok_def list_all_iff)
    show "distinct (map fst ?rb)"
      using c(1) fresh by (auto simp: rb fields_ok_def resend_skips_def)
    show "{8, 9, 10} \<inter> fst ` set ?rb = {}"
      using c(1) by (auto simp: rb fields_ok_def)
  qed
  moreover have "length (build sep ?rb) < 2 ^ 64"
  proof -
    have "length (build_body sep body) < 2 ^ 62" using len by (simp add: length_build)
    then have "length (build_body sep ?rb) \<le> 2 * 2 ^ 62 + 2 * 2 ^ 58 + 100"
      using c(3) length_build_body_mem [OF mem, of sep] now t length_show_int [of 52] length_show_int [of 122]
        length_show_int [of 43]
      by (simp add: rb length_build_body_append text_ok_def del: append.simps)
    with length_build_le [of sep ?rb] show ?thesis by simp
  qed
  ultimately show ?thesis by (simp add: body_ok_def)
qed

lemma resent_peek:
  assumes sep: "plain sep" and env: "env_ok E sep" and r: "rec_ok sep r"
    and t: "t \<notin> {tag_BeginString, tag_BodyLength, tag_CheckSum}"
  shows "peek sep (resent E sep r k) t =
    (if t = tag_SendingTime then Some (env_now E k)
     else if t = tag_OrigSendingTime then Some (rec_sending_time r)
     else if t = tag_PossDupFlag then Some ''Y''
     else peek sep (rec_bytes r) t)"
proof -
  from r obtain body mt where b: "rec_bytes r = build sep body" "fields_ok sep body" "length (rec_bytes r) < 2 ^ 62"
      "map_of body tag_MsgType = Some mt" "text_ok sep (rec_sending_time r)"
    unfolding rec_ok_def by blast
  let ?cs = "format_checksum (checksum (build_body sep (wire_fields sep body)))"
  let ?rb = "replay_body E (wire_fields sep body @ [(tag_CheckSum, ?cs)]) (env_now E k) (rec_sending_time r)"
  have ok: "body_ok sep body" using b by (simp add: body_ok_def)
  note sk = plain_ok(1) [OF sep]
  have re: "resent E sep r k = build sep ?rb"
    using parse_build [OF sk ok, of "[]"] by (simp add: resent_def b(1))
  have "body_ok sep ?rb" using b by (intro resent_body [OF sep env]) simp_all
  from peek_build [OF sk this t] peek_build [OF sk ok t] t b(4) show ?thesis
    unfolding re b(1) by (simp add: replay_body_wire map_add_def copied_ok(4) [OF env b(2)] resend_skips_def
        split: option.split)
qed

section \<open>The whole answer\<close>

definition oldest :: "Session \<Rightarrow> nat" where
  "oldest s = Suc (unat (out_seq s)) - length (history s)"

definition last_wanted :: "SeqNum \<Rightarrow> Session \<Rightarrow> SeqNum" where
  "last_wanted e s = (if e = 0 then out_seq s else e)"

lemma filter_upt: "filter (\<lambda>x. lo \<le> x \<and> x \<le> hi) [i..<j] = [max i lo..<min j (Suc hi)]"
  by (induction j) (auto simp: max_def min_def not_le Suc_le_eq)

lemma hist_map: "hist_ok s \<Longrightarrow> map (unat \<circ> rec_seq) (history s) = [oldest s..<Suc (unat (out_seq s))]"
  by (simp only: hist_ok_def oldest_def)

lemma hist_seqs:
  assumes "hist_ok s"
  shows "map (unat \<circ> rec_seq) (filter (in_range b e) (history s)) =
    [max (oldest s) (unat b)..<min (Suc (unat (out_seq s))) (Suc (unat e))]"
proof -
  have "map (unat \<circ> rec_seq) (filter (in_range b e) (history s)) =
      filter (\<lambda>x. unat b \<le> x \<and> x \<le> unat e) (map (unat \<circ> rec_seq) (history s))"
    by (simp add: filter_map comp_def in_range_def [abs_def] word_le_nat_alt)
  also have "\<dots> = filter (\<lambda>x. unat b \<le> x \<and> x \<le> unat e) [oldest s..<Suc (unat (out_seq s))]"
    using assms by (simp only: hist_map)
  finally show ?thesis by (simp only: filter_upt)
qed

lemma hist_sorted:
  assumes "hist_ok s"
  shows "sorted_wrt (<) (map rec_seq (history s))"
proof -
  have "sorted_wrt (<) (map (unat \<circ> rec_seq) (history s))"
    using assms by (simp add: hist_ok_def del: upt_Suc)
  then show ?thesis by (simp add: sorted_wrt_map word_less_nat_alt)
qed

lemma hist_oldest:
  assumes "hist_ok s" and "room 1 s"
  shows "unat (case history s of [] \<Rightarrow> out_seq s + 1 | r # _ \<Rightarrow> rec_seq r) = oldest s"
proof (cases "history s")
  case Nil
  then show ?thesis using unat_Suc_room [of 0 s] assms(2) by (simp add: oldest_def)
next
  case (Cons r rs)
  have "length (history s) \<le> unat (out_seq s)" using assms(1) by (simp add: hist_ok_def)
  moreover note hist_map [OF assms(1)]
  ultimately show ?thesis using Cons upt_conv_Cons [of "oldest s" "Suc (unat (out_seq s))"]
    by (simp add: oldest_def del: upt_Suc)
qed

lemma hist_in_range:
  assumes "hist_ok s" and "unat c \<le> oldest s" and "unat b \<le> oldest s"
  shows "filter (in_range c e) (history s) = filter (in_range b e) (history s)"
proof (rule filter_cong [OF refl])
  fix r assume "r \<in> set (history s)"
  then have "unat (rec_seq r) \<in> set (map (unat \<circ> rec_seq) (history s))" by force
  then have "oldest s \<le> unat (rec_seq r)" unfolding hist_map [OF assms(1)] by auto
  with assms(2,3) show "in_range c e r = in_range b e r" by (simp add: in_range_def word_le_nat_alt)
qed

definition gap_of :: "Env \<Rightarrow> SeqNum \<Rightarrow> SeqNum \<Rightarrow> Session \<Rightarrow> WireOut list" where
  "gap_of E b e s = (if unat b < oldest s
     then [fst (gap_fill E b (min (of_nat (oldest s)) (e + 1)) s)] else [])"

lemma resend_eq:
  assumes wf: "session_wf s" and room: "room 1 s"
    and b: "b \<noteq> 0" "b \<le> last_wanted e s" "b \<le> out_seq s"
  shows "handle_resend_request E b e out s =
    (let gap = gap_of E b (last_wanted e s) s; rr = filter (in_range b (last_wanted e s)) (history s);
         k = now_reads s + length gap in
     Some (out @ gap @ map2 (resent E (soh s)) rr [k..<k + length rr], s\<lparr>now_reads := k + length rr\<rparr>))"
proof -
  let ?e = "last_wanted e s"
  define old where "old = (case history s of [] \<Rightarrow> out_seq s + 1 | r # _ \<Rightarrow> rec_seq r)"
  have h: "hist_ok s" "plain (soh s)" "list_all (rec_ok (soh s)) (history s)"
    using wf by (simp_all add: session_wf_def)
  have old: "unat old = oldest s" unfolding old_def by (rule hist_oldest [OF h(1) room])
  then have old': "of_nat (oldest s) = old" by (simp add: flip: old)
  note rep = replay_eq [OF _ _ hist_sorted [OF h(1)], where E = E and l = ?e]
  show ?thesis
  proof (cases "b < old")
    case False
    then have "gap_of E b ?e s = []" by (simp add: gap_of_def word_less_nat_alt old)
    with False b h rep show ?thesis
      by (simp add: handle_resend_request_def last_wanted_def [symmetric] old_def [symmetric] leD Let_def)
  next
    case True
    let ?c = "min old (?e + 1)" and ?s = "s\<lparr>now_reads := Suc (now_reads s)\<rparr>"
    let ?w = "fst (gap_fill E b ?c s)"
    have g: "gap_of E b ?e s = [?w]" using True by (simp add: gap_of_def word_less_nat_alt old old')
    have "filter (in_range ?c ?e) (history s) = filter (in_range b ?e) (history s)"
      using True by (intro hist_in_range [OF h(1)]) (auto simp: word_less_nat_alt old min_def word_le_nat_alt)
    moreover have "filter (in_range ?c ?e) (history s) = []" if "?c > ?e"
      unfolding filter_empty_conv in_range_def using less_le_trans [OF that] leD by blast
    moreover have "handle_resend_request E b e out s =
        (if ?c > ?e then Some (out @ [?w], ?s) else replay E ?c ?e (history s) (out @ [?w]) ?s)"
      using True b
      by (simp add: handle_resend_request_def last_wanted_def [symmetric] old_def [symmetric] leD Let_def
          gap_fill_def default_now_def)
    moreover have "replay E ?c ?e (history s) (out @ [?w]) ?s =
       (let rr = filter (in_range ?c ?e) (history s) in Some ((out @ [?w]) @ map2 (resent E (soh s)) rr
          [Suc (now_reads s)..<Suc (now_reads s) + length rr], s\<lparr>now_reads := Suc (now_reads s) + length rr\<rparr>))"
      using rep [of ?s ?c "out @ [?w]"] h by (simp add: Let_def)
    ultimately show ?thesis by (simp add: g Let_def)
  qed
qed

lemma gap_fill_peek:
  assumes wf: "session_wf s" and env: "env_ok E (soh s)" and t: "t \<notin> {tag_BeginString, tag_BodyLength, tag_CheckSum}"
  shows "peek (soh s) (fst (gap_fill E c n s)) t = map_of
    [(tag_MsgType, msgtype_SequenceReset), (tag_SenderCompID, sender_comp_id (cfg s)),
     (tag_TargetCompID, target_comp_id (cfg s)), (tag_MsgSeqNum, show_u64 c),
     (tag_SendingTime, env_now E (now_reads s)), (tag_GapFillFlag, ''Y''), (tag_PossDupFlag, ''Y''),
     (tag_NewSeqNo, show_u64 n)] t" (is "_ = map_of ?b t")
proof -
  note p = session_wf_plain [OF wf]
  have now: "text_ok (soh s) (env_now E (now_reads s))" using env by (simp add: env_ok_def)
  have "fields_ok (soh s) ?b"
    using wf p now by (simp add: fields_ok_def field_ok_def session_wf_def text_ok_def)
  moreover have "length (build_body (soh s) ?b) \<le> 3 * 2 ^ 58 + 200"
    using wf now length_show_u64 [of c] length_show_u64 [of n] length_show_int [of 35] length_show_int [of 49]
      length_show_int [of 56] length_show_int [of 34] length_show_int [of 52] length_show_int [of 123]
      length_show_int [of 43] length_show_int [of 36]
    by (simp add: session_wf_def text_ok_def)
  ultimately have "body_ok (soh s) ?b"
    using length_build_le [of "soh s" ?b] by (simp add: body_ok_def del: build_body.simps)
  from peek_build [OF plain_ok(1) [OF p] this t] show ?thesis
    by (simp add: gap_fill_def default_now_def)
qed

text \<open>What a possible duplicate says compared with the message it repeats.\<close>

definition duplicate_of :: "char \<Rightarrow> OutboundRecord \<Rightarrow> WireOut \<Rightarrow> bool" where
  "duplicate_of sep r w \<longleftrightarrow>
     peek sep w tag_PossDupFlag = Some ''Y'' \<and> peek sep w tag_OrigSendingTime = Some (rec_sending_time r) \<and>
     (\<forall>t. t \<notin> {tag_BeginString, tag_BodyLength, tag_CheckSum, tag_SendingTime, tag_OrigSendingTime, tag_PossDupFlag} \<longrightarrow>
        peek sep w t = peek sep (rec_bytes r) t)"

definition fills_gap :: "char \<Rightarrow> nat \<Rightarrow> nat \<Rightarrow> WireOut \<Rightarrow> bool" where
  "fills_gap sep i j w \<longleftrightarrow>
     peek sep w tag_MsgType = Some msgtype_SequenceReset \<and> peek sep w tag_GapFillFlag = Some ''Y'' \<and>
     peek sep w tag_PossDupFlag = Some ''Y'' \<and>
     peek sep w tag_MsgSeqNum = Some (show_nat i) \<and> peek sep w tag_NewSeqNo = Some (show_nat j)"

lemma rec_ok_seq:
  assumes "plain sep" and "rec_ok sep r"
  shows "peek sep (rec_bytes r) tag_MsgSeqNum = Some (show_u64 (rec_seq r))"
proof -
  from assms(2) obtain body where b: "rec_bytes r = build sep body" "fields_ok sep body" "length (rec_bytes r) < 2 ^ 62"
    "map_of body tag_MsgSeqNum = Some (show_u64 (rec_seq r))"
    unfolding rec_ok_def by blast
  then show ?thesis using peek_build [OF plain_ok(1) [OF assms(1)], of body] by (simp add: body_ok_def)
qed

lemma list_all2_map2:
  assumes "\<And>x k. x \<in> set xs \<Longrightarrow> P x (f x k)" and "length ks = length xs"
  shows "list_all2 P xs (map2 f xs ks)"
  using assms by (auto simp: list_all2_conv_all_nth)

lemma resend_resent:
  assumes wf: "session_wf s" and env: "env_ok E (soh s)" and rr: "set rr \<subseteq> set (history s)" and ks: "length ks = length rr"
  defines "ws \<equiv> map2 (resent E (soh s)) rr ks"
  shows "list_all2 (duplicate_of (soh s)) rr ws"
    "map (\<lambda>w. peek (soh s) w tag_MsgSeqNum) ws = map (Some \<circ> show_u64 \<circ> rec_seq) rr"
proof -
  have p: "plain (soh s)" and ok: "r \<in> set rr \<Longrightarrow> rec_ok (soh s) r" for r
    using wf rr by (auto simp: session_wf_def list_all_iff)
  have "duplicate_of (soh s) r (resent E (soh s) r k)" if "r \<in> set rr" for r k
    using ok [OF that] by (simp add: duplicate_of_def resent_peek [OF p env])
  with ks show "list_all2 (duplicate_of (soh s)) rr ws" unfolding ws_def by (intro list_all2_map2) auto
  have seq: "peek (soh s) (resent E (soh s) r k) tag_MsgSeqNum = Some (show_u64 (rec_seq r))" if "r \<in> set rr" for r k
    using ok [OF that] by (simp add: resent_peek [OF p env] rec_ok_seq [OF p])
  have "map (\<lambda>w. peek (soh s) w tag_MsgSeqNum) ws = map (\<lambda>(r, k). Some (show_u64 (rec_seq r))) (zip rr ks)"
    unfolding ws_def by (auto simp: seq dest: set_zip_leftD)
  also have "\<dots> = map (Some \<circ> show_u64 \<circ> rec_seq) (map fst (zip rr ks))" by (simp add: case_prod_unfold)
  finally show "map (\<lambda>w. peek (soh s) w tag_MsgSeqNum) ws = map (Some \<circ> show_u64 \<circ> rec_seq) rr"
    using ks by simp
qed

lemma resend_answer:
  assumes wf: "session_wf s" and env: "env_ok E (soh s)" and room: "room 1 s"
    and b: "b \<noteq> 0" "b \<le> last_wanted e s" "b \<le> out_seq s" and e: "unat e < 2 ^ 64 - 1"
  defines "hi \<equiv> min (unat (out_seq s)) (unat (last_wanted e s))"
  shows "\<exists>gap reps k. handle_resend_request E b e out s = Some (out @ gap @ reps, s\<lparr>now_reads := k\<rparr>) \<and>
    (if unat b < oldest s
     then \<exists>w. gap = [w] \<and> fills_gap (soh s) (unat b) (min (oldest s) (Suc (unat (last_wanted e s)))) w
     else gap = []) \<and>
    map (\<lambda>w. peek (soh s) w tag_MsgSeqNum) reps = map (Some \<circ> show_nat) [max (oldest s) (unat b)..<Suc hi] \<and>
    list_all2 (duplicate_of (soh s)) (filter (in_range b (last_wanted e s)) (history s)) reps"
proof -
  let ?e = "last_wanted e s"
  let ?gap = "gap_of E b ?e s" and ?rr = "filter (in_range b ?e) (history s)"
  let ?k = "now_reads s + length ?gap"
  let ?ws = "map2 (resent E (soh s)) ?rr [?k..<?k + length ?rr]"
  have h: "hist_ok s" using wf by (simp add: session_wf_def)
  have "unat ?e < 2 ^ 64 - 1" using e room by (simp add: last_wanted_def room_def)
  then have e1: "unat (?e + 1) = Suc (unat ?e)" using unat_plus_no_wrap [of ?e 1] by simp
  have "oldest s < 2 ^ 64" using room by (simp add: oldest_def room_def)
  then have o: "unat (of_nat (oldest s) :: u64) = oldest s" by (simp add: unat_of_nat)
  have n: "unat (min (of_nat (oldest s)) (?e + 1)) = min (oldest s) (Suc (unat ?e))"
    by (simp add: min_def word_le_nat_alt e1 o)
  have g: "if unat b < oldest s
     then \<exists>w. ?gap = [w] \<and> fills_gap (soh s) (unat b) (min (oldest s) (Suc (unat ?e))) w else ?gap = []"
    by (simp add: gap_of_def fills_gap_def gap_fill_peek [OF wf env]) (simp add: show_u64_def n)
  note rs = resend_resent [OF wf env, of ?rr "[?k..<?k + length ?rr]"]
  have "map (Some \<circ> show_u64 \<circ> rec_seq) ?rr = map (Some \<circ> show_nat) (map (unat \<circ> rec_seq) ?rr)"
    by (simp add: show_u64_def)
  also have "\<dots> = map (Some \<circ> show_nat) [max (oldest s) (unat b)..<Suc hi]"
    unfolding hist_seqs [OF h] hi_def by (simp only: min_Suc_Suc)
  finally have "map (\<lambda>w. peek (soh s) w tag_MsgSeqNum) ?ws = map (Some \<circ> show_nat) [max (oldest s) (unat b)..<Suc hi]"
    using rs(2) by auto
  moreover have "list_all2 (duplicate_of (soh s)) ?rr ?ws" using rs(1) by auto
  moreover have "handle_resend_request E b e out s = Some (out @ ?gap @ ?ws, s\<lparr>now_reads := ?k + length ?rr\<rparr>)"
    using resend_eq [OF wf room b, of E out] by (simp only: Let_def)
  ultimately show ?thesis using g by blast
qed

end
