(* ===== verification/FIX_Session_Inv.thy ===== *)
theory FIX_Session_Inv
  imports FIX_Resend
begin

text \<open>
  Every operation of the session keeps the invariant, reading bytes always returns, and
  so every session reached by calling the operations satisfies it.
\<close>

section \<open>One message\<close>

lemma resend_total:
  assumes "session_wf s" and "room 1 s"
  shows "\<exists>ws k. handle_resend_request E b e out s = Some (ws, s\<lparr>now_reads := k\<rparr>)"
proof (cases "b = 0 \<or> b > last_wanted e s \<or> b > out_seq s")
  case True
  then have "handle_resend_request E b e out s = Some (out, s)"
    by (simp add: handle_resend_request_def last_wanted_def Let_def)
  then show ?thesis by (auto intro: exI [of _ "now_reads s"])
next
  case False
  then have "b \<noteq> 0" "b \<le> last_wanted e s" "b \<le> out_seq s" by auto
  from resend_eq [OF assms this, of E out] show ?thesis unfolding Let_def by blast
qed

lemma advances_upd:
  "advances n (s\<lparr>in_seq := q\<rparr>) s' = advances n s s'" "advances n (s\<lparr>state := a\<rparr>) s' = advances n s s'"
  "advances n s (s'\<lparr>state := a\<rparr>) = advances n s s'" "advances n s (s'\<lparr>now_reads := k\<rparr>) = advances n s s'"
  "advances n s (s'\<lparr>test_request_at := t\<rparr>) = advances n s s'"
  "advances n s (s'\<lparr>test_request_outstanding := d\<rparr>) = advances n s s'"
  "advances n s (s'\<lparr>in_seq := q\<rparr>) = advances n s s'"
  by (simp_all add: advances_def)

definition kept :: "Session \<Rightarrow> (exn + (SessionStep \<times> Session)) option \<Rightarrow> bool" where
  "kept s r \<longleftrightarrow> (case r of None \<Rightarrow> False | Some (Inl _) \<Rightarrow> True | Some (Inr (_, s')) \<Rightarrow> advances 1 s s')"

lemma kept_simps [simp]:
  "\<not> kept s None" "kept s (Some (Inl e))" "kept s (Some (Inr r)) = advances 1 s (snd r)"
  by (simp_all add: kept_def split: prod.split)

lemma kept_upd: "kept (s\<lparr>in_seq := q\<rparr>) r = kept s r"
  unfolding kept_def advances_upd ..

lemma snd_out_step [simp]: "snd (out_step r) = snd r" "snd (disconnected p) = snd p"
  by (simp_all add: out_step_def disconnected_def)

lemma dispatch_kept:
  assumes wf: "session_wf s" and env: "env_ok E (soh s)" and room: "room 1 s" and m: "values_ok (soh s) m"
  shows "kept s (dispatch E m sq s)"
proof -
  note p = session_wf_plain [OF wf]
  have t: "text_ok (soh s) (case get m tag_TestReqID of None \<Rightarrow> [] | Some t \<Rightarrow> t)"
    using values_ok_get [OF m] by (auto simp: text_ok_def split: option.split)
  have hb: "advances 1 s (snd (build_message E
      [(tag_MsgType, msgtype_Heartbeat), (tag_TestReqID, case get m tag_TestReqID of None \<Rightarrow> [] | Some t \<Rightarrow> t)] s))"
    by (rule advances_message [OF wf env sendable_own(5) [OF p t] _ room]) (use p in \<open>simp add: text_ok_def\<close>)
  have re: "kept s (Option.bind (handle_resend_request E b e [] s)
      (\<lambda>(out, s). Some (Inr (no_step\<lparr>step_out := out\<rparr>, s))))" for b e
    using resend_total [OF wf room, of E b e "[]"] advances_refl [OF wf] by (auto simp: advances_upd)
  have lo: "advances 1 s (snd (send_logout E ''acknowledged'' s))"
    by (rule advances_logout [OF wf env room]) (use p in \<open>simp add: text_ok_def\<close>)
  have un: "soh s \<notin> set (''unsupported MsgType='' @ msg_type m) \<and>
      length (''unsupported MsgType='' @ msg_type m) \<le> 2 ^ 60"
    by (rule text_ok_append [OF values_ok_type [OF m]]) (use p in simp_all)
  then have rj: "advances 1 s (snd (build_reject E sq (''unsupported MsgType='' @ msg_type m) s))"
    unfolding build_reject_def
    by (intro advances_message [OF wf env sendable_own(3) [OF p] _ room]) (use p in \<open>simp_all add: text_ok_def\<close>)
  show ?thesis
    using hb lo rj re advances_refl [OF wf]
    by (simp add: dispatch_def Let_def advances_upd case_prod_unfold split: sum.split)
qed

lemma handle_message_kept:
  assumes wf: "session_wf s" and env: "env_ok E (soh s)" and room: "room 1 s" and m: "values_ok (soh s) m"
  shows "kept s (handle_message E m s)"
proof -
  note p = session_wf_plain [OF wf]
  have rr: "advances 1 s (snd (build_resend_request E q s))" for q
    unfolding build_resend_request_def
    by (intro advances_message [OF wf env sendable_own(2) [OF p] _ room]) (use p in \<open>simp add: text_ok_def\<close>)
  have lo: "advances 1 s (snd (send_logout E ''MsgSeqNum too low'' s))"
    by (rule advances_logout [OF wf env room]) (use p in \<open>simp add: text_ok_def\<close>)
  have "kept (s\<lparr>in_seq := sq\<rparr>) (dispatch E m sq (s\<lparr>in_seq := sq\<rparr>))" for sq
    using wf env room m by (intro dispatch_kept) simp_all
  then have di: "kept s (dispatch E m sq (s\<lparr>in_seq := sq\<rparr>))" for sq
    by (simp only: kept_upd)
  show ?thesis
    using rr lo di handle_logon_advances [OF wf env room m]
    by (simp add: handle_message_def Let_def split: sum.split)
qed

lemma tick_advances:
  assumes wf: "session_wf s" and env: "env_ok E (soh s)" and room: "room 1 s"
  shows "advances 1 s (snd (tick E now s))"
proof -
  note p = session_wf_plain [OF wf]
  have lit: "text_ok (soh s) ''heartbeat timeout''" "text_ok (soh s) msgtype_TestRequest"
      "text_ok (soh s) msgtype_Heartbeat" "text_ok (soh s) (''tr-'' @ show_u64 q)" for q
    using p length_show_u64 [of q] by (simp_all add: text_ok_def)
  have "advances 1 s (snd (build_message E
      [(tag_MsgType, msgtype_TestRequest), (tag_TestReqID, ''tr-'' @ show_u64 q)] s))" for q
    by (rule advances_message [OF wf env sendable_own(5) [OF p lit(4)] lit(2) room])
  moreover have "advances 1 s (snd (send_heartbeat E s))"
    unfolding send_heartbeat_def by (rule advances_message [OF wf env sendable_own(6) [OF p] lit(3) room])
  moreover have "advances 1 s (snd (send_logout E ''heartbeat timeout'' s))"
    by (rule advances_logout [OF wf env room lit(1)])
  ultimately show ?thesis
    using advances_refl [OF wf]
    by (simp add: tick_def Let_def advances_upd case_prod_unfold)
qed

section \<open>Reading bytes\<close>

text \<open>No suffix of the buffer declares a body length that wraps around the parser's arithmetic.\<close>

definition tame :: "char \<Rightarrow> string \<Rightarrow> bool" where
  "tame sep buf \<longleftrightarrow> list_all (\<lambda>j. parse_one sep (drop j buf) \<noteq> None) [0..<Suc (length buf)]"

lemma tame_drop: "tame sep buf \<Longrightarrow> tame sep (drop k buf)"
proof -
  assume t: "tame sep buf"
  have "parse_one sep (drop j (drop k buf)) \<noteq> None" for j
  proof (cases "j + k \<le> length buf")
    case True
    with t show ?thesis by (simp add: tame_def list_all_iff del: upt_Suc)
  next
    case False
    then have "drop j (drop k buf) = drop (length buf) buf" by simp
    with t show ?thesis by (simp add: tame_def list_all_iff)
  qed
  then show ?thesis by (simp add: tame_def list_all_iff)
qed

lemma tame_parse: "tame sep buf \<Longrightarrow> parse_one sep buf \<noteq> None"
  using upt_conv_Cons [of 0 "Suc (length buf)"] by (simp add: tame_def del: upt_Suc)

text \<open>The session as one iteration of the loop hands it to \<open>handle_message\<close>.\<close>

definition received :: "Env \<Rightarrow> nat \<Rightarrow> Session \<Rightarrow> Session" where
  "received E k s = s\<lparr>in_buf := drop k (in_buf s), clock_reads := Suc (clock_reads s),
     last_inbound := env_clock E (clock_reads s), test_request_outstanding := False\<rparr>"

lemma on_bytes_loop_unfold:
  assumes "parse_one (soh s) (in_buf s) = Some pr" and "in_buf s \<noteq> []"
  shows "on_bytes_loop E tot s =
    (if err pr = Incomplete then Some (Inr (tot, s))
     else if err pr \<noteq> PE_None then
       Some (Inr (tot\<lparr>step_out := step_out tot @ [fst (send_logout E ''malformed message'' s)], step_disconnect := True\<rparr>,
         (snd (send_logout E ''malformed message'' s))\<lparr>in_buf := []\<rparr>))
     else do {
       r \<leftarrow> handle_message E (msg pr) (received E (consumed pr) s);
       (case r of
          Inl e \<Rightarrow> Some (Inl e)
        | Inr (st, s) \<Rightarrow>
            (let tot = tot\<lparr>step_out := step_out tot @ step_out st, step_app := step_app tot @ step_app st\<rparr>
             in if step_disconnect st then Some (Inr (tot\<lparr>step_disconnect := True\<rparr>, s))
                else on_bytes_loop E tot s)) })"
  using assms
  by (subst on_bytes_loop.simps)
    (simp add: received_def steady_now_from_def case_prod_unfold Let_def cong: if_cong)

lemma received_wf:
  "session_wf (received E k s) = session_wf s" "soh (received E k s) = soh s"
  "in_buf (received E k s) = drop k (in_buf s)" "out_seq (received E k s) = out_seq s"
  by (simp_all add: received_def)

definition returns :: "Session \<Rightarrow> (exn + (SessionStep \<times> Session)) option \<Rightarrow> bool" where
  "returns s r \<longleftrightarrow> (case r of None \<Rightarrow> False | Some (Inl _) \<Rightarrow> True | Some (Inr (_, s')) \<Rightarrow>
     session_wf s' \<and> soh s' = soh s \<and> unat (out_seq s') \<le> unat (out_seq s) + length (in_buf s) \<and>
     (\<exists>k. in_buf s' = drop k (in_buf s)))"

lemma received_cases:
  assumes wf: "session_wf s" and env: "env_ok E (soh s)" and room: "room 1 s" and len: "length (in_buf s) \<le> 2 ^ 58"
    and pr: "parse_one (soh s) (in_buf s) = Some pr" "err pr = PE_None"
  obtains (exn) e where "handle_message E (msg pr) (received E (consumed pr) s) = Some (Inl e)"
  | (fin) st s' where "handle_message E (msg pr) (received E (consumed pr) s) = Some (Inr (st, s'))"
      "session_wf s'" "soh s' = soh s" "in_buf s' = drop (consumed pr) (in_buf s)"
      "unat (out_seq s') \<le> Suc (unat (out_seq s))"
proof -
  let ?s = "received E (consumed pr) s"
  have nd: "\<not> is_digit (soh s)" using plain_ok(1) [OF session_wf_plain [OF wf]] by (simp add: sep_ok_def)
  have vals: "values_ok (soh s) (msg pr)"
    using parse_one_values [OF pr _ nd] len by (fastforce simp: values_ok_def text_ok_def)
  have "kept ?s (handle_message E (msg pr) ?s)"
    using wf env room vals by (intro handle_message_kept) (simp_all add: received_wf room_def)
  then show thesis
    using exn fin by (auto simp: kept_def advances_def received_wf split: option.splits sum.splits)
qed

text \<open>Bytes that can be read in which no second message seems to begin are tame.\<close>

fun restarts :: "string \<Rightarrow> bool" where
  "restarts [] \<longleftrightarrow> False"
| "restarts (c # cs) \<longleftrightarrow> take 3 (c # cs) = ''8=F'' \<or> restarts cs"

lemma restarts_drop: "\<not> restarts buf \<Longrightarrow> take 3 (drop j buf) \<noteq> ''8=F''"
proof (induction buf arbitrary: j)
  case (Cons c cs)
  then show ?case by (cases j) auto
qed simp

lemma tame_single:
  assumes "parse_one sep (c # cs) \<noteq> None" and "\<not> restarts cs"
  shows "tame sep (c # cs)"
proof -
  have "parse_one sep (drop j (c # cs)) \<noteq> None" for j
  proof (cases j)
    case 0
    with assms(1) show ?thesis by simp
  next
    case (Suc i)
    then have "take 3 (drop j (c # cs)) \<noteq> ''8=F''" using restarts_drop [OF assms(2)] by simp
    moreover have "take 3 x = ''8=F''" if "header_ok sep x" for x
    proof -
      have "take 9 x = kBegin" using that by (simp add: header_ok_def substr_def)
      from arg_cong [OF this, of "take 3"] show ?thesis by (simp add: kBegin_def)
    qed
    ultimately have "\<not> header_ok sep (drop j (c # cs))" by blast
    then have "declared sep (drop j (c # cs)) = None" by (simp add: declared_def)
    then show ?thesis by (cases rule: parse_one_cases [of sep "drop j (c # cs)"]) auto
  qed
  then show ?thesis by (simp add: tame_def list_all_iff)
qed

text \<open>What the loop needs of a session whose buffer it empties, and the ways a round can go.\<close>

definition loop_ready :: "Env \<Rightarrow> Session \<Rightarrow> bool" where
  "loop_ready E s \<longleftrightarrow> session_wf s \<and> env_ok E (soh s) \<and> room (length (in_buf s)) s \<and> length (in_buf s) \<le> 2 ^ 58 \<and>
     tame (soh s) (in_buf s)"

abbreviation totalled :: "SessionStep \<Rightarrow> SessionStep \<Rightarrow> SessionStep" where
  "totalled tot st \<equiv> tot\<lparr>step_out := step_out tot @ step_out st, step_app := step_app tot @ step_app st\<rparr>"

lemma on_bytes_loop_cases:
  assumes r: "loop_ready E s"
  obtains (idle) "on_bytes_loop E tot s = Some (Inr (tot, s))"
  | (bad) "room 1 s" "in_buf s \<noteq> []" "on_bytes_loop E tot s =
      Some (Inr (tot\<lparr>step_out := step_out tot @ [fst (send_logout E ''malformed message'' s)], step_disconnect := True\<rparr>,
        (snd (send_logout E ''malformed message'' s))\<lparr>in_buf := []\<rparr>))"
  | (throw) e where "on_bytes_loop E tot s = Some (Inl e)"
  | (round) pr st s1 where "parse_one (soh s) (in_buf s) = Some pr" "err pr = PE_None"
      "handle_message E (msg pr) (received E (consumed pr) s) = Some (Inr (st, s1))"
      "loop_ready E s1" "soh s1 = soh s" "in_buf s1 = drop (consumed pr) (in_buf s)" "length (in_buf s1) < length (in_buf s)"
      "unat (out_seq s1) \<le> Suc (unat (out_seq s))"
      "on_bytes_loop E tot s = (if step_disconnect st then Some (Inr ((totalled tot st)\<lparr>step_disconnect := True\<rparr>, s1))
        else on_bytes_loop E (totalled tot st) s1)"
proof (cases "in_buf s = []")
  case True
  then have "on_bytes_loop E tot s = Some (Inr (tot, s))" by (subst on_bytes_loop.simps) simp
  then show thesis by (rule idle)
next
  case ne: False
  have s: "session_wf s" "env_ok E (soh s)" "room (length (in_buf s)) s" "length (in_buf s) \<le> 2 ^ 58" "tame (soh s) (in_buf s)"
    using r by (simp_all add: loop_ready_def)
  obtain pr where pr: "parse_one (soh s) (in_buf s) = Some pr" using tame_parse [OF s(5)] by blast
  have room1: "room 1 s" using s(3) ne by (cases "in_buf s") (auto simp: room_def)
  note unf = on_bytes_loop_unfold [OF pr ne, of E tot]
  show thesis
  proof (cases "err pr = PE_None")
    case False
    with unf idle bad [OF room1 ne] show thesis by (cases "err pr = Incomplete") simp_all
  next
    case okp: True
    have "length (in_buf s) < 2 ^ 63" using s(4) by simp
    note acc = parse_one_accepts(1,2) [OF pr okp this]
    from s(1,2) room1 s(4) pr okp show thesis
    proof (cases rule: received_cases)
      case (exn e)
      with unf okp show thesis by (intro throw) simp
    next
      case (fin st s1)
      have "room (length (in_buf s1)) s1" using s(3) fin(4,5) acc by (auto simp: room_def)
      moreover have "length (in_buf s1) \<le> 2 ^ 58" using s(4) fin(4) by simp
      ultimately have "loop_ready E s1" using s(2) fin tame_drop [OF s(5)] by (simp add: loop_ready_def)
      moreover have "length (in_buf s1) < length (in_buf s)" using acc fin(4) by simp
      ultimately show thesis using unf okp fin pr by (intro round [of pr st s1]) (simp_all add: Let_def)
    qed
  qed
qed

lemma on_bytes_loop_returns: "loop_ready E s \<Longrightarrow> returns s (on_bytes_loop E tot s)"
proof (induction "length (in_buf s)" arbitrary: s tot rule: less_induct)
  case less
  note s = less.prems [unfolded loop_ready_def]
  have same: "\<exists>k. in_buf s = drop k (in_buf s)" by (rule exI [of _ 0]) simp
  from less.prems show ?case
  proof (cases rule: on_bytes_loop_cases [where tot = tot])
    case idle
    with s same show ?thesis by (simp add: returns_def)
  next
    case bad
    have "text_ok (soh s) ''malformed message''" using session_wf_plain [of s] s by (simp add: text_ok_def)
    from advances_logout [OF _ _ bad(1) this, of E] s
    have "session_wf (snd (send_logout E ''malformed message'' s))" "soh (snd (send_logout E ''malformed message'' s)) = soh s"
      "unat (out_seq (snd (send_logout E ''malformed message'' s))) \<le> Suc (unat (out_seq s))" by (auto simp: advances_def)
    moreover have "1 \<le> length (in_buf s)" using bad(2) by (cases "in_buf s") simp_all
    ultimately show ?thesis using bad(3) by (auto simp: returns_def)
  next
    case throw
    then show ?thesis by (simp add: returns_def)
  next
    case (round pr st s1)
    have "returns s (on_bytes_loop E t s1)" for t
      using less.hyps [OF round(7,4)] round(5-8) by (fastforce simp: returns_def split: option.splits sum.splits)
    moreover have "returns s (Some (Inr (t, s1)))" for t
      using round(4-8) by (auto simp: returns_def loop_ready_def)
    ultimately show ?thesis using round(9) by simp
  qed
qed

section \<open>Reachable sessions\<close>

text \<open>
  The calls a transport makes. The premises are the limits under which the counters and
  buffers of the code do not overflow, and that texts do not contain the separator.
\<close>

inductive session_step :: "Env \<Rightarrow> Session \<Rightarrow> Session \<Rightarrow> bool" for E where
  initiate: "room 1 s \<Longrightarrow> session_step E s (snd (initiate_logon E s))"
| heartbeat: "room 1 s \<Longrightarrow> session_step E s (snd (send_heartbeat E s))"
| logout: "room 1 s \<Longrightarrow> text_ok (soh s) txt \<Longrightarrow> session_step E s (snd (send_logout E txt s))"
| exec_report: "room 1 s \<Longrightarrow> sendable (soh s) body \<Longrightarrow> session_step E s (snd (send_execution_report E body s))"
| timer: "room 1 s \<Longrightarrow> session_step E s (snd (tick E now s))"
| bytes: "room (length (in_buf s @ data)) s \<Longrightarrow> length (in_buf s @ data) \<le> 2 ^ 58 \<Longrightarrow>
    tame (soh s) (in_buf s @ data) \<Longrightarrow> on_bytes E data s = Some (Inr (st, s')) \<Longrightarrow> session_step E s s'"

inductive session_reaches :: "Env \<Rightarrow> SessionConfig \<Rightarrow> char \<Rightarrow> Session \<Rightarrow> bool" for E c sep where
  start: "session_reaches E c sep (new_session c sep)"
| step: "session_reaches E c sep s \<Longrightarrow> session_step E s s' \<Longrightarrow> session_reaches E c sep s'"

definition config_ok :: "char \<Rightarrow> SessionConfig \<Rightarrow> bool" where
  "config_ok sep c \<longleftrightarrow> text_ok sep (sender_comp_id c) \<and> text_ok sep (target_comp_id c) \<and> \<bar>heartbeat_secs c\<bar> < 2 ^ 31"

lemma new_session_wf: "plain sep \<Longrightarrow> config_ok sep c \<Longrightarrow> session_wf (new_session c sep)"
  by (simp add: session_wf_def new_session_def config_ok_def hist_ok_def)

lemma on_bytes_returns:
  assumes "session_wf s" and "env_ok E (soh s)" and "room (length (in_buf s @ data)) s"
    and "length (in_buf s @ data) \<le> 2 ^ 58" and "tame (soh s) (in_buf s @ data)"
  shows "returns (s\<lparr>in_buf := in_buf s @ data\<rparr>) (on_bytes E data s)"
  unfolding on_bytes_def using assms by (intro on_bytes_loop_returns) (simp add: loop_ready_def)

lemma initiate_advances:
  assumes "session_wf s" and "env_ok E (soh s)" and "room 1 s"
  shows "advances 1 s (snd (initiate_logon E s))"
proof -
  have "advances 1 (s\<lparr>state := LogonSent\<rparr>) (snd (initiate_logon E s))"
    unfolding initiate_logon_def
    by (rule advances_message)
      (use assms session_wf_plain [OF assms(1)] in \<open>simp_all add: sendable_own text_ok_def session_wf_def\<close>)
  then show ?thesis by (simp add: advances_upd)
qed

lemma session_step_wf:
  assumes "session_step E s s'" and wf: "session_wf s" and env: "env_ok E (soh s)"
  shows "session_wf s' \<and> soh s' = soh s"
  using assms(1)
proof cases
  case initiate
  then show ?thesis using initiate_advances [OF wf env] by (simp add: advances_def)
next
  case heartbeat
  have "advances 1 s s'" unfolding heartbeat(1) send_heartbeat_def
    by (rule advances_message) (use wf env heartbeat session_wf_plain [OF wf] in \<open>simp_all add: sendable_own text_ok_def\<close>)
  then show ?thesis by (simp add: advances_def)
next
  case (logout t)
  then show ?thesis using advances_logout [OF wf env] by (simp add: advances_def)
next
  case (exec_report body)
  have "advances 1 s s'" unfolding exec_report(1) send_execution_report_def
    by (rule advances_message) (use wf env exec_report session_wf_plain [OF wf] in \<open>simp_all add: text_ok_def\<close>)
  then show ?thesis by (simp add: advances_def)
next
  case (timer now)
  then show ?thesis using tick_advances [OF wf env] by (simp add: advances_def)
next
  case (bytes data st)
  then show ?thesis using on_bytes_returns [OF wf env] by (fastforce simp: returns_def)
qed

lemma session_reaches_wf:
  assumes "session_reaches E c sep s" and "plain sep" and "config_ok sep c" and "env_ok E sep"
  shows "session_wf s \<and> soh s = sep"
  using assms(1)
proof induction
  case start
  then show ?case using new_session_wf [OF assms(2,3)] by (simp add: new_session_def)
next
  case (step s s')
  then show ?case using session_step_wf [OF step(2)] assms(4) by simp
qed

end
