(* ===== verification/FIX_Stream.thy ===== *)
theory FIX_Stream
  imports FIX_Session_Inv
begin

text \<open>
  Byte streams: corruption of a body byte is caught, the parser's verdict on a complete
  message does not depend on what follows it, and so it makes no difference to a session
  how the transport cuts the stream into reads.
\<close>

section \<open>Corruption\<close>

lemma parse_body_mismatch:
  assumes "length out' + 7 < 2 ^ 64" and "checksum out' \<noteq> checksum out"
    and buf: "buf = out' @ ''10='' @ format_checksum (checksum out) @ sep # q"
  shows "parse_body sep buf (length out') = Some (parse_fail BadCheckSum)"
proof -
  let ?cs = "format_checksum (checksum out)"
  have len: "length ?cs = 3" by (rule format_checksum_digits(1)) (rule checksum_lt)
  have at: "char_at buf (length out') = Some CHR ''1''" "char_at buf (Suc (length out')) = Some CHR ''0''"
    "char_at buf (Suc (Suc (length out'))) = Some CHR ''=''" "char_at buf (length out' + 6) = Some sep"
    using len by (simp_all add: buf char_at_def nth_append nth_Cons')
  have sub: "substr buf (length out' + 3) 3 = ?cs" "substr buf 0 (length out') = out'"
    using len by (simp_all add: buf substr_def)
  obtain w where w: "parse_uint ?cs = Some w" "(ucast w :: 32 word) = checksum out"
    using parse_format_checksum [OF checksum_lt] by blast
  have add: "size_add (length out') k = length out' + k" if "k \<le> 7" for k
    using assms that by (intro size_add_small) simp
  show ?thesis
    unfolding parse_body_def using w assms(2) by (simp add: add at sub)
qed

lemma corrupt_body:
  assumes ok_sep: "sep_ok sep" and ok: "body_ok sep body"
    and k: "length (build_header sep (length (build_body sep body))) \<le> k" "k + 7 < length (build sep body)"
    and d: "d \<noteq> build sep body ! k"
  shows "parse_one sep ((build sep body)[k := d] @ q) = Some (parse_fail BadCheckSum)"
proof -
  let ?b = "build_body sep body"
  let ?h = "build_header sep (length ?b)"
  let ?i = "k - length ?h" and ?cs = "format_checksum (checksum (?h @ ?b))"
  note small = body_ok_len [OF ok]
  have i: "?i < length ?b" using k by (simp add: length_build)
  let ?b' = "?b[?i := d]"
  have msg: "build sep body = ?h @ ?b @ ''10='' @ ?cs @ [sep]" by (simp add: build_def Let_def)
  have buf: "(build sep body)[k := d] @ q = ?h @ (?b' @ ''10='' @ ?cs @ sep # q)"
    using i k(1) by (simp add: msg list_update_append)
  have "?b ! ?i = build sep body ! k" using i k(1) by (simp add: msg nth_append)
  then have "?h @ ?b = (?h @ take ?i ?b) @ (build sep body ! k) # drop (Suc ?i) ?b"
      "?h @ ?b' = (?h @ take ?i ?b) @ d # drop (Suc ?i) ?b"
    using i id_take_nth_drop [OF i] by (simp_all add: upd_conv_take_nth_drop)
  then have ne: "checksum (?h @ ?b') \<noteq> checksum (?h @ ?b)" using d checksum_substitution by metis
  have "20 \<le> length (?h @ (?b' @ ''10='' @ ?cs @ sep # q))"
    using length_build_header [of sep "length ?b"] format_checksum_digits(1) [OF checksum_lt, of "?h @ ?b"]
    by (cases "show_nat (length ?b)") simp_all
  moreover have "length ?b < 2 ^ 64" using small by simp
  moreover have "length ?h + length ?b + 7 \<le> length (?h @ (?b' @ ''10='' @ ?cs @ sep # q))"
    using format_checksum_digits(1) [OF checksum_lt, of "?h @ ?b"] by simp
  ultimately have "parse_one sep ((build sep body)[k := d] @ q) =
      parse_body sep ((build sep body)[k := d] @ q) (length (?h @ ?b'))"
    using parse_one_header [of sep "length ?b" "?b' @ ''10='' @ ?cs @ sep # q"] ok_sep small
    unfolding buf by (simp add: sep_ok_def size_add_small Let_def del: length_append) (simp add: size_add_small)
  also have "\<dots> = Some (parse_fail BadCheckSum)"
    by (rule parse_body_mismatch [OF _ ne]) (use small in \<open>simp_all add: buf\<close>)
  finally show ?thesis .
qed

section \<open>What follows a message does not matter\<close>

lemma find_from_mono: "find_from c buf i = Some j \<Longrightarrow> find_from c (buf @ q) i = Some j"
  unfolding find_from_Some by (auto simp: nth_append)

lemma find_from_beyond:
  assumes "find_from c buf i = None" and "i \<le> length buf"
  shows "\<forall>j. find_from c (buf @ q) i = Some j \<longrightarrow> length buf \<le> j"
proof (intro allI impI, rule ccontr)
  fix j assume "find_from c (buf @ q) i = Some j" "\<not> length buf \<le> j"
  then have "find_from c buf i = Some j" unfolding find_from_Some by (auto simp: nth_append)
  with assms show False by simp
qed

lemma substr_mono: "i + n \<le> length buf \<Longrightarrow> substr (buf @ q) i n = substr buf i n"
  by (simp add: substr_def)

lemma char_at_mono: "char_at buf i = Some c \<Longrightarrow> char_at (buf @ q) i = Some c"
  by (auto simp: char_at_def nth_append split: if_splits)

lemma parse_fields_mono:
  assumes "be < length buf"
  shows "parse_fields sep (buf @ q) be i fs = parse_fields sep buf be i fs"
proof (induction "be - i" arbitrary: i fs rule: less_induct)
  case less
  show ?case
  proof (cases "i < be")
    case False
    then show ?thesis by (simp add: parse_fields.simps)
  next
    case i: True
    show ?thesis
    proof (cases "find_from (CHR ''='') buf i")
      case None
      from find_from_beyond [OF this] i assms None show ?thesis
        by (subst (1 2) parse_fields.simps) (force split: option.split)
    next
      case (Some eq)
      note eq = find_from_mono [OF Some] find_from_ge [OF Some]
      show ?thesis
      proof (cases "eq < be")
        case False
        with i eq Some show ?thesis by (subst (1 2) parse_fields.simps) simp
      next
        case True
        have sub: "substr (buf @ q) i (eq - i) = substr buf i (eq - i)"
          using True assms eq(2) by (intro substr_mono) simp
        show ?thesis
        proof (cases "find_from sep buf (eq + 1)")
          case None
          from find_from_beyond [OF this] True assms
          have "\<forall>j. find_from sep (buf @ q) (eq + 1) = Some j \<longrightarrow> be < j" by (simp add: less_le_trans)
          with i eq Some True sub None show ?thesis
            by (subst (1 2) parse_fields.simps) (auto split: option.split)
        next
          case (Some j)
          note j = find_from_mono [OF Some] find_from_ge [OF Some]
          have "parse_fields sep (buf @ q) be (j + 1) fs' = parse_fields sep buf be (j + 1) fs'" for fs'
            using i eq(2) j(2) by (intro less.hyps) simp
          moreover have "substr (buf @ q) (eq + 1) (j - (eq + 1)) = substr buf (eq + 1) (j - (eq + 1))" if "j \<le> be"
            using that assms j(2) by (intro substr_mono) simp
          ultimately show ?thesis
            using i eq \<open>find_from (CHR ''='') buf i = Some eq\<close> True sub Some j
            by (subst (1 2) parse_fields.simps) (auto split: option.split prod.split)
        qed
      qed
    qed
  qed
qed

lemma parse_body_mono:
  assumes "be + 7 \<le> length buf" and "length buf < 2 ^ 63"
  shows "parse_body sep (buf @ q) be = parse_body sep buf be"
proof -
  have add: "size_add be k = be + k" if "k \<le> 7" for k
    using assms that by (intro size_add_small) simp
  have at: "char_at (buf @ q) (be + k) = char_at buf (be + k)" if "k < 7" for k
    using assms that by (simp add: char_at_def nth_append)
  have sub: "substr (buf @ q) (be + 3) 3 = substr buf (be + 3) 3" "substr (buf @ q) 0 be = substr buf 0 be"
    using assms by (intro substr_mono; simp)+
  have pf: "parse_fields sep (buf @ q) be 0 [] = parse_fields sep buf be 0 []"
    using assms by (intro parse_fields_mono) simp
  show ?thesis
    using at [of 0] at [of 1] at [of 2] at [of 6]
    unfolding parse_body_def by (simp add: add sub pf cong: if_cong option.case_cong)
qed

lemma parse_one_mono:
  assumes r: "parse_one sep buf = Some r" "err r \<noteq> Incomplete" and len: "length buf < 2 ^ 63"
  shows "parse_one sep (buf @ q) = Some r"
proof -
  have l: "20 \<le> length buf" using r by (auto simp: parse_one_def parse_fail_def split: if_splits)
  have h: "substr (buf @ q) 0 9 = substr buf 0 9" "(buf @ q) ! 9 = buf ! 9" "(buf @ q) ! 10 = buf ! 10"
      "(buf @ q) ! 11 = buf ! 11"
    using l by (simp_all add: substr_mono nth_append)
  show ?thesis
  proof (cases "header_ok sep buf")
    case False
    then show ?thesis using r l h by (auto simp: parse_one_def header_ok_def parse_fail_def)
  next
    case True
    then have head: "parse_one sep b = (case find_from sep b 12 of
        None \<Rightarrow> Some (parse_fail Incomplete)
      | Some e \<Rightarrow> (case parse_uint (substr b 12 (e - 12)) of
          None \<Rightarrow> Some (parse_fail BadBodyLength)
        | Some n \<Rightarrow> if size_add (size_add (e + 1) (unat n)) 7 > length b then Some (parse_fail Incomplete)
            else parse_body sep b (size_add (e + 1) (unat n))))" if "b \<in> {buf, buf @ q}" for b
      unfolding parse_one_def Let_def using that h by (auto simp: header_ok_def)
    from r obtain e where e: "find_from sep buf 12 = Some e"
      by (cases "find_from sep buf 12") (auto simp: head parse_fail_def)
    have e': "find_from sep (buf @ q) 12 = Some e" by (rule find_from_mono [OF e])
    have sub: "substr (buf @ q) 12 (e - 12) = substr buf 12 (e - 12)"
      using e by (intro substr_mono) (simp add: find_from_Some)
    show ?thesis
    proof (cases "parse_uint (substr buf 12 (e - 12))")
      case None
      then show ?thesis using r e e' sub by (simp add: head)
    next
      case (Some n)
      let ?be = "size_add (e + 1) (unat n)"
      have fit: "size_add ?be 7 \<le> length buf" and body: "parse_body sep buf ?be = Some r"
        using r e Some by (auto simp: head parse_fail_def split: if_splits)
      have "?be < length buf"
        using body by (auto simp: parse_body_def char_at_def split: if_splits)
      then have "?be + 7 \<le> length buf" using fit len by (simp add: size_add_small)
      from parse_body_mono [OF this len] have "parse_body sep (buf @ q) ?be = Some r" using body by simp
      then show ?thesis using e' sub Some fit by (simp add: head)
    qed
  qed
qed

section \<open>The buffer is nobody else's business\<close>

text \<open>No operation below \<open>on_bytes\<close> looks at the bytes still to be read.\<close>

definition with_buf :: "string \<Rightarrow> Session \<Rightarrow> Session" where
  "with_buf x s = s\<lparr>in_buf := x\<rparr>"

definition buf_step :: "string \<Rightarrow> 'a \<times> Session \<Rightarrow> 'a \<times> Session" where
  "buf_step x r = (fst r, with_buf x (snd r))"

definition buf_result :: "string \<Rightarrow> (exn + ('a \<times> Session)) option \<Rightarrow> (exn + ('a \<times> Session)) option" where
  "buf_result x r = map_option (map_sum id (buf_step x)) r"

lemma with_buf_simps [simp]:
  "cfg (with_buf x s) = cfg s" "soh (with_buf x s) = soh s" "state (with_buf x s) = state s"
  "in_seq (with_buf x s) = in_seq s" "out_seq (with_buf x s) = out_seq s" "in_buf (with_buf x s) = x"
  "history (with_buf x s) = history s" "last_inbound (with_buf x s) = last_inbound s"
  "now_reads (with_buf x s) = now_reads s" "clock_reads (with_buf x s) = clock_reads s"
  "with_buf x (with_buf y s) = with_buf x s" "with_buf (in_buf s) s = s"
  by (simp_all add: with_buf_def)

lemma with_buf_upd [simp]:
  "with_buf x (s\<lparr>state := a\<rparr>) = (with_buf x s)\<lparr>state := a\<rparr>"
  "with_buf x (s\<lparr>in_seq := b\<rparr>) = (with_buf x s)\<lparr>in_seq := b\<rparr>"
  "with_buf x (s\<lparr>out_seq := b\<rparr>) = (with_buf x s)\<lparr>out_seq := b\<rparr>"
  "with_buf x (s\<lparr>cfg := c\<rparr>) = (with_buf x s)\<lparr>cfg := c\<rparr>"
  "with_buf x (s\<lparr>history := h\<rparr>) = (with_buf x s)\<lparr>history := h\<rparr>"
  "with_buf x (s\<lparr>last_inbound := t\<rparr>) = (with_buf x s)\<lparr>last_inbound := t\<rparr>"
  "with_buf x (s\<lparr>last_outbound := t\<rparr>) = (with_buf x s)\<lparr>last_outbound := t\<rparr>"
  "with_buf x (s\<lparr>timers_armed := d\<rparr>) = (with_buf x s)\<lparr>timers_armed := d\<rparr>"
  "with_buf x (s\<lparr>test_request_outstanding := d\<rparr>) = (with_buf x s)\<lparr>test_request_outstanding := d\<rparr>"
  "with_buf x (s\<lparr>now_reads := n\<rparr>) = (with_buf x s)\<lparr>now_reads := n\<rparr>"
  "with_buf x (s\<lparr>clock_reads := n\<rparr>) = (with_buf x s)\<lparr>clock_reads := n\<rparr>"
  by (simp_all add: with_buf_def)

lemma buf_step_simps [simp]: "buf_step x (a, s) = (a, with_buf x s)" "fst (buf_step x r) = fst r"
    "snd (buf_step x r) = with_buf x (snd r)"
  by (simp_all add: buf_step_def)

lemma build_message_buf: "build_message E body (with_buf x s) = buf_step x (build_message E body s)"
  by (simp add: build_message_def default_now_def steady_now_from_def retain_outbound_def buf_step_def Let_def)

lemma replay_buf: "replay E c l rs out (with_buf x s) = map_option (buf_step x) (replay E c l rs out s)"
proof (induction rs arbitrary: out s)
  case (Cons r rs)
  have "replay E c l rs o' ((with_buf x s)\<lparr>now_reads := k\<rparr>) =
      map_option (buf_step x) (replay E c l rs o' (s\<lparr>now_reads := k\<rparr>))" for o' k
    using Cons.IH [of o' "s\<lparr>now_reads := k\<rparr>"] by simp
  with Cons.IH show ?case
    by (simp add: default_now_def Let_def split: bind_split)
qed simp

lemma resend_buf:
  "handle_resend_request E b e out (with_buf x s) = map_option (buf_step x) (handle_resend_request E b e out s)"
proof -
  have "replay E c l rs o' ((with_buf x s)\<lparr>now_reads := k\<rparr>) =
      map_option (buf_step x) (replay E c l rs o' (s\<lparr>now_reads := k\<rparr>))" for c l rs o' k
    using replay_buf [of E c l rs o' x "s\<lparr>now_reads := k\<rparr>"] by simp
  then show ?thesis
    by (simp add: handle_resend_request_def gap_fill_def default_now_def Let_def replay_buf cong: list.case_cong)
qed

lemma logon_reset_buf: "logon_reset E (with_buf x s) = with_buf x (logon_reset E s)"
  by (simp add: logon_reset_def)

lemma adopt_target_buf: "adopt_target m (with_buf x s) = with_buf x (adopt_target m s)"
  by (simp add: adopt_target_def split: option.split)

lemma build_message_upd_buf:
  "build_message E body ((with_buf x s)\<lparr>in_seq := q, state := a\<rparr>) = buf_step x (build_message E body (s\<lparr>in_seq := q, state := a\<rparr>))"
  "build_message E body ((with_buf x s)\<lparr>state := a\<rparr>) = buf_step x (build_message E body (s\<lparr>state := a\<rparr>))"
  using build_message_buf [of E body x "s\<lparr>in_seq := q, state := a\<rparr>"] build_message_buf [of E body x "s\<lparr>state := a\<rparr>"]
  by simp_all

lemma step_buf: "out_step (buf_step x r) = buf_step x (out_step r)" "disconnected (buf_step x p) = buf_step x (disconnected p)"
  by (simp_all add: out_step_def disconnected_def)

lemma handle_logon_buf: "handle_logon E m sq (with_buf x s) = buf_step x (handle_logon E m sq s)"
  by (simp add: handle_logon_alt logon_reset_buf adopt_target_buf build_message_upd_buf step_buf [symmetric])

lemma buf_result_simps [simp]:
  "buf_result x None = None" "buf_result x (Some (Inl e)) = Some (Inl e)"
  "buf_result x (Some (Inr r)) = Some (Inr (buf_step x r))"
  by (simp_all add: buf_result_def)

lemma dispatch_buf: "dispatch E m sq (with_buf x s) = buf_result x (dispatch E m sq s)"
proof -
  have lo: "out_step (send_logout E t (with_buf x s)) = buf_step x (out_step (send_logout E t s))" for t
    by (simp add: send_logout_def build_message_upd_buf step_buf)
  have re: "Option.bind (handle_resend_request E b e [] (with_buf x s)) (\<lambda>(out, s). Some (Inr (no_step\<lparr>step_out := out\<rparr>, s)))
      = buf_result x (Option.bind (handle_resend_request E b e [] s) (\<lambda>(out, s). Some (Inr (no_step\<lparr>step_out := out\<rparr>, s))))" for b e
    by (cases "handle_resend_request E b e [] s") (auto simp: resend_buf split: prod.split)
  show ?thesis
    unfolding dispatch_def Let_def
    by (simp add: build_message_buf build_reject_def step_buf lo case_prod_unfold split: sum.split)
      (simp add: re [unfolded case_prod_unfold] disconnected_def)
qed

lemma handle_message_buf: "handle_message E m (with_buf x s) = buf_result x (handle_message E m s)"
proof -
  have "dispatch E m sq ((with_buf x s)\<lparr>in_seq := sq\<rparr>) = buf_result x (dispatch E m sq (s\<lparr>in_seq := sq\<rparr>))" for sq
    using dispatch_buf [of E m sq x "s\<lparr>in_seq := sq\<rparr>"] by simp
  then show ?thesis
    by (simp add: handle_message_def Let_def handle_logon_buf build_resend_request_def build_message_buf
        send_logout_def build_message_upd_buf step_buf split: sum.split)
qed

lemma handle_message_in_buf:
  assumes "handle_message E m s = Some (Inr (st, s'))"
  shows "in_buf s' = in_buf s"
  using assms handle_message_buf [of E m "in_buf s" s] by simp (metis with_buf_simps(6))

section \<open>The separator never changes\<close>

lemma build_message_soh: "soh (snd (build_message E body s)) = soh s"
  by (simp add: build_message_def default_now_def steady_now_from_def retain_outbound_def Let_def)

lemma replay_soh: "replay E c l rs out s = Some (out', s') \<Longrightarrow> soh s' = soh s"
proof (induction rs arbitrary: out s)
  case (Cons r rs)
  then show ?case
    by (auto simp: default_now_def Let_def bind_eq_Some_conv split: if_splits dest: Cons.IH)
qed simp

lemma resend_soh: "handle_resend_request E b e out s = Some (out', s') \<Longrightarrow> soh s' = soh s"
  by (auto simp: handle_resend_request_def gap_fill_def default_now_def Let_def dest!: replay_soh split: if_splits)

lemma handle_message_soh:
  assumes "handle_message E m s = Some (Inr (st, s'))"
  shows "soh s' = soh s"
proof -
  have "soh s' = soh s" if "dispatch E m sq s = Some (Inr (st, s'))" for sq s
    using that build_message_soh [of E _ s] build_message_soh [of E _ "s\<lparr>state := LogoutSent\<rparr>"]
    by (auto simp: dispatch_def Let_def out_step_def disconnected_def build_reject_def send_logout_def
        bind_eq_Some_conv split: if_splits sum.splits prod.splits dest!: resend_soh)
  from this [of _ "s\<lparr>in_seq := _\<rparr>"] show ?thesis
    using assms build_message_soh [of E _ s] build_message_soh [of E _ "s\<lparr>state := LogoutSent\<rparr>"]
      build_message_soh [of E _ "(adopt_target m (logon_reset E s))\<lparr>in_seq := _, state := LoggedIn\<rparr>"]
    by (auto simp: handle_message_def handle_logon_alt Let_def out_step_def disconnected_def
        build_resend_request_def send_logout_def split: if_splits sum.splits)
qed

section \<open>How the stream is cut does not matter\<close>

definition add_step :: "SessionStep \<Rightarrow> SessionStep \<Rightarrow> SessionStep" where
  "add_step a b = \<lparr>step_out = step_out a @ step_out b, step_app = step_app a @ step_app b,
     step_disconnect = (step_disconnect a \<or> step_disconnect b)\<rparr>"

definition add_result :: "SessionStep \<Rightarrow> (exn + (SessionStep \<times> Session)) option \<Rightarrow> (exn + (SessionStep \<times> Session)) option" where
  "add_result a r = map_option (map_sum id (map_prod (add_step a) id)) r"

lemma add_step_assoc: "add_step (add_step a b) c = add_step a (add_step b c)"
  by (simp add: add_step_def)

lemma add_step_no_step [simp]: "add_step a no_step = a" "add_step no_step a = a"
  by (simp_all add: add_step_def no_step_def)

lemma add_result_simps [simp]:
  "add_result a None = None" "add_result a (Some (Inl e)) = Some (Inl e)"
  "add_result a (Some (Inr (st, s))) = Some (Inr (add_step a st, s))"
  by (simp_all add: add_result_def)

lemma add_result_twice [simp]: "add_result a (add_result b r) = add_result (add_step a b) r"
proof (cases r)
  case (Some x)
  then show ?thesis by (cases x) (auto simp: add_step_assoc)
qed simp

lemma on_bytes_loop_OOB: "parse_one (soh s) (in_buf s) = None \<Longrightarrow> in_buf s \<noteq> [] \<Longrightarrow> on_bytes_loop E tot s = None"
  by (subst on_bytes_loop.simps) simp

lemma on_bytes_loop_next:
  assumes "in_buf s \<noteq> []" and "parse_one (soh s) (in_buf s) = Some pr" and "err pr = PE_None"
  shows "on_bytes_loop E tot s =
    (case handle_message E (msg pr) (received E (consumed pr) s) of
       None \<Rightarrow> None
     | Some (Inl e) \<Rightarrow> Some (Inl e)
     | Some (Inr (st, s')) \<Rightarrow>
         if step_disconnect st then Some (Inr (add_step tot st, s'))
         else on_bytes_loop E (add_step tot st) s')"
proof -
  have eq: "tot\<lparr>step_out := step_out tot @ step_out st, step_app := step_app tot @ step_app st\<rparr> = add_step tot st"
    if "\<not> step_disconnect st" for st using that by (simp add: add_step_def)
  have eq': "tot\<lparr>step_out := step_out tot @ step_out st, step_app := step_app tot @ step_app st, step_disconnect := True\<rparr>
    = add_step tot st" if "step_disconnect st" for st using that by (simp add: add_step_def)
  show ?thesis
    using eq eq' assms(3) on_bytes_loop_unfold [OF assms(2,1), of E tot]
    by (auto simp: Let_def split: option.split sum.split)
qed

lemma on_bytes_loop_acc:
  assumes "length (in_buf s) < 2 ^ 63"
  shows "on_bytes_loop E tot s = add_result tot (on_bytes_loop E no_step s)"
  using assms
proof (induction "length (in_buf s)" arbitrary: s tot rule: less_induct)
  case less
  show ?case
  proof (cases "in_buf s = []")
    case True
    then show ?thesis by (subst (1 2) on_bytes_loop.simps) simp
  next
    case ne: False
    show ?thesis
    proof (cases "parse_one (soh s) (in_buf s)")
      case None
      then show ?thesis using ne by (simp add: on_bytes_loop_OOB)
    next
      case pr: (Some pr)
      show ?thesis
      proof (cases "err pr = PE_None")
        case False
        then show ?thesis
          by (simp add: on_bytes_loop_unfold [OF pr ne]) (simp add: add_step_def no_step_def)
      next
        case True
        note acc = parse_one_accepts(1,2) [OF pr True less.prems]
        have ih: "on_bytes_loop E (add_step a st) s' = add_result a (on_bytes_loop E (add_step no_step st) s')"
          if "handle_message E (msg pr) (received E (consumed pr) s) = Some (Inr (st, s'))" for st s' a
        proof -
          have "on_bytes_loop E t s' = add_result t (on_bytes_loop E no_step s')" for t
            using handle_message_in_buf [OF that] acc less.prems by (intro less.hyps) (simp_all add: received_wf)
          from this [of "add_step a st"] this [of st] show ?thesis by simp
        qed
        show ?thesis unfolding on_bytes_loop_next [OF ne pr True]
          by (auto simp del: add_step_no_step intro: ih split: option.split sum.split prod.split)
            (simp_all add: add_step_assoc)
      qed
    qed
  qed
qed

lemma received_buf:
  "k \<le> length (in_buf s) \<Longrightarrow> received E k (with_buf (in_buf s @ q) s) = with_buf (drop k (in_buf s) @ q) (received E k s)"
  by (simp add: received_def with_buf_def)

lemma on_bytes_loop_split:
  assumes "length (in_buf s) < 2 ^ 63" and "on_bytes_loop E tot s = Some (Inr (st, s'))" and "\<not> step_disconnect st"
  shows "on_bytes_loop E tot (with_buf (in_buf s @ q) s) = on_bytes_loop E st (with_buf (in_buf s' @ q) s') \<and>
    length (in_buf s') \<le> length (in_buf s)"
  using assms
proof (induction "length (in_buf s)" arbitrary: s tot rule: less_induct)
  case less
  show ?case
  proof (cases "in_buf s = []")
    case True
    then show ?thesis using less.prems by (subst (asm) on_bytes_loop.simps) simp
  next
    case ne: False
    then obtain pr where pr: "parse_one (soh s) (in_buf s) = Some pr"
      using less.prems(2) on_bytes_loop_OOB [of s E tot] by (cases "parse_one (soh s) (in_buf s)") auto
    show ?thesis
    proof (cases "err pr = PE_None")
      case False
      then show ?thesis using less.prems(2,3) by (auto simp: on_bytes_loop_unfold [OF pr ne] split: if_splits)
    next
      case True
      let ?s = "with_buf (in_buf s @ q) s" and ?r = "received E (consumed pr) s"
      note acc = parse_one_accepts(1,2) [OF pr True less.prems(1)]
      have pr': "parse_one (soh ?s) (in_buf ?s) = Some pr"
        using parse_one_mono [OF pr _ less.prems(1)] True by simp
      from less.prems(2,3) obtain st1 s1 where h: "handle_message E (msg pr) ?r = Some (Inr (st1, s1))"
          "\<not> step_disconnect st1" "on_bytes_loop E (add_step tot st1) s1 = Some (Inr (st, s'))"
        by (auto simp: on_bytes_loop_next [OF ne pr True] add_step_def split: option.splits sum.splits prod.splits if_splits)
      have b: "in_buf s1 = drop (consumed pr) (in_buf s)"
        using handle_message_in_buf [OF h(1)] by (simp add: received_wf)
      have "handle_message E (msg pr) (received E (consumed pr) ?s) =
          Some (Inr (st1, with_buf (in_buf s1 @ q) s1))"
        using acc by (simp add: received_buf handle_message_buf h(1) b)
      then have "on_bytes_loop E tot ?s = on_bytes_loop E (add_step tot st1) (with_buf (in_buf s1 @ q) s1)"
        using on_bytes_loop_next [OF _ pr' True, of E tot] ne h(2) by simp
      moreover have "length (in_buf s1) < length (in_buf s)" using b acc by simp
      ultimately show ?thesis using less.hyps [OF _ _ h(3) less.prems(3)] less.prems(1) by simp
    qed
  qed
qed

lemma on_bytes_append:
  assumes "length (in_buf s @ a @ b) < 2 ^ 63" and "on_bytes E a s = Some (Inr (st, s'))" and "\<not> step_disconnect st"
  shows "on_bytes E (a @ b) s = add_result st (on_bytes E b s')"
proof -
  have "on_bytes_loop E no_step (with_buf ((in_buf s @ a) @ b) s) = on_bytes_loop E st (with_buf (in_buf s' @ b) s') \<and>
      length (in_buf s') \<le> length (in_buf s @ a)"
    using on_bytes_loop_split [of "with_buf (in_buf s @ a) s" E no_step st s' b] assms
    by (simp add: on_bytes_def with_buf_def)
  with on_bytes_loop_acc [of "with_buf (in_buf s' @ b) s'" E st] assms(1) show ?thesis
    by (simp add: on_bytes_def with_buf_def)
qed

end
