(* ===== verification/FIX_Delivery.thy ===== *)
theory FIX_Delivery
  imports FIX_Stream
begin

text \<open>
  What a session does with the messages of its counterparty: in sequence they reach the
  application in order and once, a gap asks for a resend, a number already used ends the
  session, and silence is noticed by the timers.
\<close>

section \<open>One message from the wire\<close>

definition wire_message :: "char \<Rightarrow> Fields \<Rightarrow> Message" where
  "wire_message sep body = \<lparr>msg_fields = wire_fields sep body @
     [(tag_CheckSum, format_checksum (checksum (build_body sep (wire_fields sep body))))]\<rparr>"

lemma wire_message_get:
  "t \<notin> {tag_BeginString, tag_BodyLength, tag_CheckSum} \<Longrightarrow> get (wire_message sep body) t = map_of body t"
  by (simp add: get_def wire_message_def wire_fields_def map_add_def split: option.split)

lemma wire_message_type: "msg_type (wire_message sep body) = (case map_of body tag_MsgType of None \<Rightarrow> [] | Some mt \<Rightarrow> mt)"
  using wire_message_get [of tag_MsgType sep body] by (simp add: msg_type_def get_def)

lemma wire_message_seq:
  "seq (wire_message sep body) = (case map_of body tag_MsgSeqNum of None \<Rightarrow> Inr 0 | Some t \<Rightarrow> stoull t)"
  using wire_message_get [of tag_MsgSeqNum sep body] by (simp add: seq_def get_def)

text \<open>The session when a message has been read and nothing is left in the buffer.\<close>

definition read_one :: "Env \<Rightarrow> Session \<Rightarrow> Session" where
  "read_one E s = s\<lparr>in_buf := [], clock_reads := Suc (clock_reads s),
     last_inbound := env_clock E (clock_reads s), test_request_outstanding := False\<rparr>"

lemma read_one_simps [simp]:
  "cfg (read_one E s) = cfg s" "soh (read_one E s) = soh s" "state (read_one E s) = state s"
  "in_seq (read_one E s) = in_seq s" "out_seq (read_one E s) = out_seq s" "history (read_one E s) = history s"
  "in_buf (read_one E s) = []" "now_reads (read_one E s) = now_reads s" "last_outbound (read_one E s) = last_outbound s"
  "timers_armed (read_one E s) = timers_armed s" "session_wf (read_one E s) = session_wf s"
  "room n (read_one E s) = room n s"
  by (simp_all add: read_one_def)

lemma on_bytes_message:
  assumes sep: "sep_ok (soh s)" and ok: "body_ok (soh s) body" and empty: "in_buf s = []"
  shows "on_bytes E (build (soh s) body) s = handle_message E (wire_message (soh s) body) (read_one E s)"
proof -
  let ?w = "build (soh s) body" and ?m = "wire_message (soh s) body"
  let ?s = "s\<lparr>in_buf := ?w\<rparr>"
  have pr: "parse_one (soh ?s) (in_buf ?s) = Some \<lparr>err = PE_None, consumed = length ?w, msg = ?m\<rparr>"
    using parse_build [OF sep ok, of "[]"] by (simp add: wire_message_def)
  have ne: "in_buf ?s \<noteq> []" using length_build [of "soh s" body] by auto
  have rec: "received E (length ?w) ?s = read_one E s" by (simp add: received_def read_one_def)
  have fin: "on_bytes_loop E st s' = Some (Inr (st, s'))"
    if "handle_message E ?m (read_one E s) = Some (Inr (st', s'))" for st st' s'
    using handle_message_in_buf [OF that] by (subst on_bytes_loop.simps) simp
  show ?thesis
    using on_bytes_loop_next [OF ne pr, of E no_step] fin empty
    by (simp add: on_bytes_def rec split: option.split sum.split prod.split)
qed

lemma peek_wire: "sep_ok sep \<Longrightarrow> body_ok sep body \<Longrightarrow> peek sep (build sep body) t = get (wire_message sep body) t"
  using parse_build [of sep body "[]"] by (simp add: peek_def wire_message_def)

lemma wire_values_ok:
  assumes "plain sep" and "body_ok sep body" and "length (build sep body) \<le> 2 ^ 58"
  shows "values_ok sep (wire_message sep body)"
proof -
  have pr: "parse_one sep (build sep body) = Some \<lparr>err = PE_None, consumed = length (build sep body), msg = wire_message sep body\<rparr>"
    using parse_build [OF plain_ok(1) [OF assms(1)] assms(2), of "[]"] by (simp add: wire_message_def)
  have "\<not> is_digit sep" using plain_ok(1) [OF assms(1)] by (simp add: sep_ok_def)
  from parse_one_values [OF pr _ _ this] assms(3) show ?thesis by (fastforce simp: values_ok_def text_ok_def)
qed

section \<open>In sequence\<close>

definition app_types :: "string set" where
  "app_types = {msgtype_NewOrderSingle, msgtype_OrderCancelRequest, msgtype_OrderCancelReplace}"

definition app_body :: "char \<Rightarrow> SeqNum \<Rightarrow> Fields \<Rightarrow> bool" where
  "app_body sep q body \<longleftrightarrow> body_ok sep body \<and> (\<exists>mt \<in> app_types. map_of body tag_MsgType = Some mt) \<and>
     map_of body tag_MsgSeqNum = Some (show_u64 q)"

lemma app_message:
  assumes sep: "sep_ok (soh s)" and body: "app_body (soh s) (in_seq s + 1) body" and st: "state s \<noteq> Disconnected"
    and empty: "in_buf s = []"
  shows "on_bytes E (build (soh s) body) s =
    Some (Inr (no_step\<lparr>step_app := [wire_message (soh s) body]\<rparr>, (read_one E s)\<lparr>in_seq := in_seq s + 1\<rparr>))"
proof -
  from body obtain mt where mt: "mt \<in> app_types" "map_of body tag_MsgType = Some mt" by (auto simp: app_body_def)
  have "handle_message E (wire_message (soh s) body) (read_one E s) =
      dispatch E (wire_message (soh s) body) (in_seq s + 1) ((read_one E s)\<lparr>in_seq := in_seq s + 1\<rparr>)"
    using body st by (simp add: handle_message_def wire_message_seq app_body_def Let_def)
  also have "\<dots> = Some (Inr (no_step\<lparr>step_app := [wire_message (soh s) body]\<rparr>, (read_one E s)\<lparr>in_seq := in_seq s + 1\<rparr>))"
    using mt by (auto simp: dispatch_def wire_message_type app_types_def Let_def)
  finally show ?thesis using on_bytes_message [OF sep _ empty] body by (simp add: app_body_def)
qed

fun numbered :: "char \<Rightarrow> SeqNum \<Rightarrow> Fields list \<Rightarrow> bool" where
  "numbered sep q [] = True"
| "numbered sep q (b # bs) = (app_body sep (q + 1) b \<and> numbered sep (q + 1) bs)"

fun reads :: "Env \<Rightarrow> nat \<Rightarrow> Session \<Rightarrow> Session" where
  "reads E 0 s = s"
| "reads E (Suc n) s = reads E n ((read_one E s)\<lparr>in_seq := in_seq s + 1\<rparr>)"

lemma reads_simps [simp]:
  "in_seq (reads E n s) = in_seq s + of_nat n" "state (reads E n s) = state s" "out_seq (reads E n s) = out_seq s"
  "history (reads E n s) = history s" "soh (reads E n s) = soh s" "in_buf s = [] \<Longrightarrow> in_buf (reads E n s) = []"
  by (induction n arbitrary: s) simp_all

lemma app_stream:
  assumes "sep_ok (soh s)" and "numbered (soh s) (in_seq s) bs" and "state s \<noteq> Disconnected"
    and "in_buf s = []" and "length (concat (map (build (soh s)) bs)) < 2 ^ 63"
  shows "on_bytes E (concat (map (build (soh s)) bs)) s =
    Some (Inr (no_step\<lparr>step_app := map (wire_message (soh s)) bs\<rparr>, reads E (length bs) s))"
  using assms
proof (induction bs arbitrary: s)
  case Nil
  then show ?case by (simp add: on_bytes_def on_bytes_loop.simps no_step_def)
next
  case (Cons b bs)
  let ?s = "(read_one E s)\<lparr>in_seq := in_seq s + 1\<rparr>"
  have one: "on_bytes E (build (soh s) b) s = Some (Inr (no_step\<lparr>step_app := [wire_message (soh s) b]\<rparr>, ?s))"
    using Cons.prems by (intro app_message) simp_all
  have "on_bytes E (concat (map (build (soh s)) bs)) ?s =
      Some (Inr (no_step\<lparr>step_app := map (wire_message (soh s)) bs\<rparr>, reads E (length bs) ?s))"
    using Cons.prems Cons.IH [of ?s] by simp
  then show ?case
    using on_bytes_append [OF _ one, of "concat (map (build (soh s)) bs)"] Cons.prems
    by (simp add: add_step_def no_step_def)
qed

section \<open>Out of sequence\<close>

lemma std_peek:
  assumes "session_wf s" and "env_ok E (soh s)" and "sendable (soh s) body" and "text_ok (soh s) mt"
    and "t \<notin> {tag_BeginString, tag_BodyLength, tag_CheckSum}"
  shows "peek (soh s) (build (soh s) (std_fields E s mt body)) t = map_of (std_fields E s mt body) t"
  by (rule peek_build [OF plain_ok(1) [OF session_wf_plain [OF assms(1)]] std_fields_body_ok [OF assms(1-4)] assms(5)])

lemma gap_message:
  assumes wf: "session_wf s" and env: "env_ok E (soh s)" and st: "state s \<noteq> Disconnected"
    and q: "seq m = Inr q" "q > in_seq s + 1"
  shows "\<exists>w. handle_message E m s = Some (Inr (no_step\<lparr>step_out := [w]\<rparr>,
      sent E msgtype_ResendRequest [(tag_BeginSeqNo, show_u64 (in_seq s + 1)), (tag_EndSeqNo, ''0'')] s)) \<and>
    peek (soh s) w tag_MsgType = Some msgtype_ResendRequest \<and>
    peek (soh s) w tag_MsgSeqNum = Some (show_u64 (out_seq s + 1)) \<and>
    peek (soh s) w tag_BeginSeqNo = Some (show_u64 (in_seq s + 1)) \<and> peek (soh s) w tag_EndSeqNo = Some ''0''"
proof -
  note p = session_wf_plain [OF wf]
  let ?b = "[(tag_BeginSeqNo, show_u64 (in_seq s + 1)), (tag_EndSeqNo, ''0'')]"
  have t: "text_ok (soh s) msgtype_ResendRequest" using p by (simp add: text_ok_def)
  have "handle_message E m s = Some (Inr (out_step (build_resend_request E (in_seq s + 1) s)))"
    using st q by (simp add: handle_message_def Let_def)
  then show ?thesis
    using std_peek [OF wf env sendable_own(2) [OF p] t] build_message_wf [OF wf sendable_own(2) [OF p]]
    by (intro exI [of _ "build (soh s) (std_fields E s msgtype_ResendRequest ?b)"])
      (simp add: build_resend_request_def out_step_def, simp add: std_fields_def)
qed

lemma low_message:
  assumes wf: "session_wf s" and env: "env_ok E (soh s)" and st: "state s \<noteq> Disconnected"
    and q: "seq m = Inr q" "q < in_seq s + 1" "q \<noteq> 0"
  shows "\<exists>w. handle_message E m s = Some (Inr (no_step\<lparr>step_out := [w], step_disconnect := True\<rparr>,
      sent E msgtype_Logout [(tag_Text, ''MsgSeqNum too low'')] (s\<lparr>state := LogoutSent\<rparr>))) \<and>
    peek (soh s) w tag_MsgType = Some msgtype_Logout"
proof -
  note p = session_wf_plain [OF wf]
  let ?s = "s\<lparr>state := LogoutSent\<rparr>" and ?b = "[(tag_Text, ''MsgSeqNum too low'')]"
  have t: "text_ok (soh s) msgtype_Logout" "sendable (soh s) ?b" using p
    by (simp_all add: text_ok_def sendable_own(4))
  have "handle_message E m s = Some (Inr (disconnected (out_step (send_logout E ''MsgSeqNum too low'' s))))"
    using st q less_not_sym [OF q(2)] by (simp add: handle_message_def Let_def)
  then show ?thesis
    using std_peek [of ?s E ?b msgtype_Logout] build_message_wf [of ?s ?b E msgtype_Logout] wf env t
    by (intro exI [of _ "build (soh s) (std_fields E ?s msgtype_Logout ?b)"])
      (simp add: send_logout_def disconnected_def out_step_def, simp add: std_fields_def)
qed

section \<open>Reports\<close>

lemma report_sent:
  assumes "session_wf s" and "env_ok E (soh s)" and "room 1 s" and "sendable (soh s) body"
  shows "\<exists>w s'. send_execution_report E body s = (w, s') \<and> unat (out_seq s') = Suc (unat (out_seq s)) \<and>
    peek (soh s) w tag_MsgType = Some msgtype_ExecutionReport \<and>
    peek (soh s) w tag_MsgSeqNum = Some (show_u64 (out_seq s')) \<and>
    peek (soh s) w tag_SenderCompID = Some (sender_comp_id (cfg s)) \<and>
    peek (soh s) w tag_TargetCompID = Some (target_comp_id (cfg s)) \<and>
    (\<forall>f \<in> set body. peek (soh s) w (fst f) = Some (snd f)) \<and>
    history s' = keep_last (outbound_history_size (cfg s)) (history s @
      [\<lparr>rec_seq = out_seq s', rec_sending_time = env_now E (now_reads s), rec_bytes = w\<rparr>])"
proof -
  let ?w = "build (soh s) (std_fields E s msgtype_ExecutionReport body)"
  let ?s = "sent E msgtype_ExecutionReport body s"
  have t: "text_ok (soh s) msgtype_ExecutionReport"
    using session_wf_plain [OF assms(1)] by (simp add: text_ok_def)
  note pk = std_peek [OF assms(1,2,4) t]
  have ne: "out_seq s + 1 \<noteq> 0" using unat_Suc_room [of 0 s] assms(3) by (metis One_nat_def nat.distinct(1) unat_0)
  have "peek (soh s) ?w (fst f) = Some (snd f)" if "f \<in> set body" for f
  proof -
    have d: "distinct (map fst body)" "fst f \<notin> header_tags" "fst f \<notin> {8, 9, 10}"
      using assms(4) that by (auto simp: sendable_def fields_ok_def)
    then have "map_of body (fst f) = Some (snd f)" using that by (cases f) simp
    with d pk [of "fst f"] show ?thesis by (simp add: std_fields_def header_tags_def)
  qed
  moreover have "send_execution_report E body s = (?w, ?s)"
    unfolding send_execution_report_def by (rule build_message_wf [OF assms(1,4)])
  moreover have "unat (out_seq ?s) = Suc (unat (out_seq s))" using assms(3) unat_Suc_room [of 0 s] by simp
  moreover have "history ?s = keep_last (outbound_history_size (cfg s)) (history s @
      [\<lparr>rec_seq = out_seq ?s, rec_sending_time = env_now E (now_reads s), rec_bytes = ?w\<rparr>])"
    using ne by (simp add: sent_def)
  moreover have "peek (soh s) ?w tag_MsgType = Some msgtype_ExecutionReport"
      "peek (soh s) ?w tag_MsgSeqNum = Some (show_u64 (out_seq ?s))"
      "peek (soh s) ?w tag_SenderCompID = Some (sender_comp_id (cfg s))"
      "peek (soh s) ?w tag_TargetCompID = Some (target_comp_id (cfg s))"
    by (simp_all add: pk) (simp_all add: std_fields_def)
  ultimately show ?thesis by blast
qed

section \<open>Silence\<close>

definition window :: "Session \<Rightarrow> time_point" where
  "window s = secs (heartbeat_secs (cfg s) + heartbeat_secs (cfg s) div 2)"

definition timed :: "Session \<Rightarrow> bool" where
  "timed s \<longleftrightarrow> state s = LoggedIn \<and> heartbeat_secs (cfg s) > 0 \<and> timers_armed s"

lemma tick_probe:
  assumes wf: "session_wf s" and "timed s" and "\<not> test_request_outstanding s" and "now - last_inbound s \<ge> window s"
  shows "tick E now s = (no_step\<lparr>step_out := [build (soh s) (std_fields E s msgtype_TestRequest
      [(tag_TestReqID, ''tr-'' @ show_u64 (out_seq s + 1))])]\<rparr>,
    (sent E msgtype_TestRequest [(tag_TestReqID, ''tr-'' @ show_u64 (out_seq s + 1))] s)
      \<lparr>test_request_at := now, test_request_outstanding := True\<rparr>)"
proof -
  note p = session_wf_plain [OF wf]
  have "sendable (soh s) [(tag_TestReqID, ''tr-'' @ show_u64 (out_seq s + 1))]"
    using p length_show_u64 [of "out_seq s + 1"] by (intro sendable_own(5)) (simp_all add: text_ok_def)
  from build_message_wf [OF wf this] assms show ?thesis
    by (simp add: tick_def timed_def window_def out_step_def Let_def)
qed

lemma tick_dead:
  assumes wf: "session_wf s" and "timed s" and "test_request_outstanding s" and "now - test_request_at s \<ge> window s"
  shows "tick E now s = (no_step\<lparr>step_out := [build (soh s) (std_fields E s msgtype_Logout
      [(tag_Text, ''heartbeat timeout'')])], step_disconnect := True\<rparr>,
    (sent E msgtype_Logout [(tag_Text, ''heartbeat timeout'')] (s\<lparr>state := LogoutSent\<rparr>))
      \<lparr>test_request_outstanding := False\<rparr>)"
proof -
  note p = session_wf_plain [OF wf]
  have "sendable (soh s) [(tag_Text, ''heartbeat timeout'')]" using p by (simp add: sendable_own(4) text_ok_def)
  with build_message_wf [of "s\<lparr>state := LogoutSent\<rparr>" "[(tag_Text, ''heartbeat timeout'')]"] wf assms(2-) show ?thesis
    by (simp add: tick_def timed_def window_def out_step_def disconnected_def send_logout_def Let_def std_fields_def)
qed

lemma tick_quiet:
  assumes wf: "session_wf s"
    and "\<not> test_request_outstanding s \<Longrightarrow> now - last_inbound s < window s"
    and "test_request_outstanding s \<Longrightarrow> now - test_request_at s < window s"
  shows "snd (tick E now s) \<in> {s, sent E msgtype_Heartbeat [] s}"
proof -
  have "build_message E [(tag_MsgType, msgtype_Heartbeat)] s =
      (build (soh s) (std_fields E s msgtype_Heartbeat []), sent E msgtype_Heartbeat [] s)"
    using build_message_wf [OF wf sendable_own(6) [OF session_wf_plain [OF wf]]] .
  with assms(2,3) show ?thesis
    by (auto simp: tick_def window_def send_heartbeat_def out_step_def Let_def not_le)
qed

fun ticks :: "Env \<Rightarrow> time_point list \<Rightarrow> Session \<Rightarrow> SessionStep list" where
  "ticks E [] s = []"
| "ticks E (t # us) s = fst (tick E t s) # ticks E us (snd (tick E t s))"

definition timing :: "Env \<Rightarrow> nat \<Rightarrow> Session \<Rightarrow> bool" where
  "timing E n s \<longleftrightarrow> session_wf s \<and> env_ok E (soh s) \<and> room n s \<and> timed s"

lemma tick_timing:
  assumes "timing E (Suc n) s" and "snd (tick E t s) \<in> {s, sent E msgtype_Heartbeat [] s}"
  shows "timing E n (snd (tick E t s))"
proof -
  have wf: "session_wf s" "env_ok E (soh s)" "room 1 s" using assms(1) by (simp_all add: timing_def room_def)
  have "advances 1 s (snd (tick E t s))" by (rule tick_advances [OF wf])
  with assms show ?thesis by (auto simp: timing_def advances_def room_def timed_def)
qed

lemma ticks_probed:
  assumes "timing E (length us) s" and "test_request_outstanding s" and "t \<in> set us" and "t - test_request_at s \<ge> window s"
  shows "\<exists>st \<in> set (ticks E us s). step_disconnect st"
  using assms
proof (induction us arbitrary: s)
  case (Cons u us)
  have wf: "session_wf s" "timed s" using Cons.prems(1) by (simp_all add: timing_def)
  show ?case
  proof (cases "u - test_request_at s \<ge> window s")
    case True
    from tick_dead [OF wf Cons.prems(2) True] show ?thesis by simp
  next
    case False
    have q: "snd (tick E u s) \<in> {s, sent E msgtype_Heartbeat [] s}"
      using wf Cons.prems(2) False by (intro tick_quiet) simp_all
    have "timing E (length us) (snd (tick E u s))" using Cons.prems(1) q by (intro tick_timing) simp_all
    moreover have "t \<in> set us" using Cons.prems(3,4) False by auto
    ultimately have "\<exists>st \<in> set (ticks E us (snd (tick E u s))). step_disconnect st"
      using q Cons.prems(2,4) by (intro Cons.IH) (auto simp: window_def)
    then show ?thesis by simp
  qed
qed simp

lemma ticks_probe:
  assumes "timing E (Suc n) s" and "\<not> test_request_outstanding s" and "t - last_inbound s \<ge> window s"
  shows "timing E n (snd (tick E t s)) \<and> test_request_outstanding (snd (tick E t s)) \<and>
    test_request_at (snd (tick E t s)) = t \<and> window (snd (tick E t s)) = window s"
proof -
  have wf: "session_wf s" "env_ok E (soh s)" "room 1 s" "timed s" using assms(1) by (simp_all add: timing_def room_def)
  have "advances 1 s (snd (tick E t s))" by (rule tick_advances [OF wf(1-3)])
  with tick_probe [OF wf(1,4) assms(2,3), of E] assms(1) show ?thesis
    by (simp add: timing_def advances_def room_def timed_def window_def)
qed

lemma ticks_silent:
  assumes "timing E (length (as @ t1 # bs)) s" and "\<not> test_request_outstanding s" and "sorted (as @ [t1])"
    and "t1 - last_inbound s \<ge> window s" and "t2 \<in> set bs" and "t2 - t1 \<ge> window s"
  shows "\<exists>st \<in> set (ticks E (as @ t1 # bs) s). step_disconnect st"
  using assms
proof (induction as arbitrary: s)
  case Nil
  from ticks_probe [of E "length bs" s t1] Nil have "\<exists>st \<in> set (ticks E bs (snd (tick E t1 s))). step_disconnect st"
    by (intro ticks_probed [of _ _ _ t2]) simp_all
  then show ?case by simp
next
  case (Cons u as)
  have wf: "session_wf s" using Cons.prems(1) by (simp add: timing_def)
  have "\<exists>st \<in> set (ticks E (as @ t1 # bs) (snd (tick E u s))). step_disconnect st"
  proof (cases "u - last_inbound s \<ge> window s")
    case True
    have "u \<le> t1" using Cons.prems(3) by simp
    with ticks_probe [of E "length (as @ t1 # bs)" s u] Cons.prems True show ?thesis
      by (intro ticks_probed [of _ _ _ t2]) simp_all
  next
    case False
    have q: "snd (tick E u s) \<in> {s, sent E msgtype_Heartbeat [] s}"
      using wf Cons.prems(2) False by (intro tick_quiet) simp_all
    have "timing E (length (as @ t1 # bs)) (snd (tick E u s))" using Cons.prems(1) q by (intro tick_timing) simp_all
    then show ?thesis using q Cons.prems by (intro Cons.IH) (auto simp: window_def)
  qed
  then show ?case by simp
qed

lemma report_framed:
  assumes "session_wf s" and "env_ok E (soh s)" and "sendable (soh s) body"
  shows "framed (soh s) (fst (send_execution_report E body s))"
proof -
  have "text_ok (soh s) msgtype_ExecutionReport" using session_wf_plain [OF assms(1)] by (simp add: text_ok_def)
  from framed_build [OF plain_ok(1) [OF session_wf_plain [OF assms(1)]] std_fields_body_ok [OF assms(1-3) this]] show ?thesis
    by (simp add: send_execution_report_def build_message_wf [OF assms(1,3)])
qed

lemma tick_idle:
  assumes "\<not> test_request_outstanding s" and "now - last_inbound s < window s"
    and "now - last_outbound s < secs (heartbeat_secs (cfg s))"
  shows "tick E now s = (no_step, s)"
  using assms by (auto simp: tick_def window_def Let_def)

text \<open>The reply to an accepted logon.\<close>

lemma logon_reply:
  fixes s
  defines "l m q E \<equiv> (adopt_target m (logon_reset E s))\<lparr>in_seq := q, state := LoggedIn\<rparr>"
  assumes wf: "session_wf s" and env: "env_ok E (soh s)" and m: "values_ok (soh s) m" and r: "reset_on_logon (cfg s)"
  shows "\<exists>w. out_step (build_message E [(tag_MsgType, msgtype_Logon), (108, show_int (heartbeat_secs (cfg s)))] (l m q E)) =
      (no_step\<lparr>step_out := [w]\<rparr>, sent E msgtype_Logon [(108, show_int (heartbeat_secs (cfg s)))] (l m q E)) \<and>
    out_seq (l m q E) = 0 \<and> framed (soh s) w \<and>
    peek (soh s) w tag_MsgType = Some msgtype_Logon \<and> peek (soh s) w tag_MsgSeqNum = Some (show_u64 1)"
proof -
  let ?b = "[(108, show_int (heartbeat_secs (cfg s)))]" and ?l = "l m q E"
  note p = session_wf_plain [OF wf]
  have lw: "session_wf ?l" "soh ?l = soh s" using wf m by (simp_all add: l_def adopt_target_wf logon_reset_wf)
  have b: "sendable (soh ?l) ?b" using wf p lw(2) by (simp add: sendable_own(1) session_wf_def)
  have t: "text_ok (soh ?l) msgtype_Logon" using p lw(2) by (simp add: text_ok_def)
  have o: "out_seq ?l = 0" using r by (simp add: l_def logon_reset_def)
  have "framed (soh s) (build (soh s) (std_fields E ?l msgtype_Logon ?b))"
    using framed_build [OF plain_ok(1) [OF p]] std_fields_body_ok [OF lw(1) _ b t, of E] env lw(2) by simp
  then show ?thesis
    using build_message_wf [OF lw(1) b, of E] std_peek [OF lw(1) _ b t, of E] env lw(2) o
    by (intro exI [of _ "build (soh s) (std_fields E ?l msgtype_Logon ?b)"])
      (simp add: out_step_def, simp add: std_fields_def)
qed

end
