(* ===== verification/FIX_Theorems.thy ===== *)
theory FIX_Theorems
  imports FIX_Delivery
begin

text \<open>
  The properties of the FIX layer: the codec, the session's numbering and resend window,
  reading from the wire, and the timers. Each is stated over the definitions that model
  the code and instantiated on a concrete session.
\<close>

section \<open>A concrete session\<close>

definition sample_cfg :: SessionConfig where
  "sample_cfg = \<lparr>sender_comp_id = ''OB'', target_comp_id = ''CL'', heartbeat_secs = 30,
     reset_on_logon = True, outbound_history_size = 2\<rparr>"

definition sample_env :: Env where
  "sample_env = \<lparr>env_now = \<lambda>_. ''T'', env_clock = int, env_iter = id\<rparr>"

definition sample_body :: Fields where
  "sample_body = [(tag_MsgType, ''D''), (tag_MsgSeqNum, ''1''), (tag_ClOrdID, ''A'')]"

definition logged_in :: Session where
  "logged_in = (new_session sample_cfg kSohText)\<lparr>state := LoggedIn, timers_armed := True\<rparr>"

lemma sample_env_ok: "env_ok sample_env kSohText"
  by (simp add: env_ok_def sample_env_def text_ok_def)

lemma sample_cfg_ok: "config_ok kSohText sample_cfg"
  by (simp add: config_ok_def sample_cfg_def text_ok_def)

lemma sample_length: "length (build kSohText sample_body) = 37"
  by code_simp

lemma sample_body_ok: "body_ok kSohText sample_body"
  by (simp add: body_ok_def sample_length) (simp add: sample_body_def fields_ok_def field_ok_def)

lemma sample_plain: "plain kSohText"
  by (simp add: plain_def)

lemma logged_in_simps [simp]:
  "soh logged_in = kSohText" "state logged_in = LoggedIn" "in_seq logged_in = 0" "out_seq logged_in = 0"
  "in_buf logged_in = []" "history logged_in = []" "timers_armed logged_in" "\<not> test_request_outstanding logged_in"
  "cfg logged_in = sample_cfg" "last_inbound logged_in = 0"
  by (simp_all add: logged_in_def new_session_def)

lemma logged_in_wf: "session_wf logged_in"
  using new_session_wf [OF sample_plain sample_cfg_ok] by (simp add: logged_in_def)

section \<open>The codec\<close>

text \<open>
  C10. Round trip: what the serializer builds is parsed back to exactly the fields it was
  given, with the three framing fields around them, and exactly its bytes are consumed,
  whatever bytes follow. And a message that has not arrived completely is never acted
  upon: on every proper prefix the parser answers that it is incomplete and consumes
  nothing. The hypotheses are those of a FIX message: distinct tags in the range of
  \<^verbatim>\<open>int\<close> other than the framing tags, and values without the separator.
\<close>

theorem parse_build_roundtrip:
  assumes "sep_ok sep" and "body_ok sep body"
  shows "parse_one sep (build sep body @ q) =
      Some \<lparr>err = PE_None, consumed = length (build sep body), msg = wire_message sep body\<rparr> \<and>
    (\<forall>k < length (build sep body). parse_one sep (take k (build sep body)) = Some (parse_fail Incomplete))"
  using parse_build [OF assms] parse_prefix_incomplete [OF assms] by (simp add: wire_message_def)

theorem parse_build_roundtrip_witness:
  "parse_one kSohText (build kSohText sample_body @ ''8=F'') =
    Some \<lparr>err = PE_None, consumed = length (build kSohText sample_body), msg = wire_message kSohText sample_body\<rparr> \<and>
   parse_one kSohText (take 25 (build kSohText sample_body)) = Some (parse_fail Incomplete)"
  using parse_build_roundtrip [OF sep_ok_text sample_body_ok, of "''8=F''"] by (simp add: sample_length)

text \<open>
  C21. Corruption is caught: changing any one byte of the body of a message to another
  byte makes the parser reject it for its checksum, whatever the two bytes are.
\<close>

theorem parse_detects_corruption:
  assumes "sep_ok sep" and "body_ok sep body"
    and "length (build_header sep (length (build_body sep body))) \<le> k" and "k + 7 < length (build sep body)"
    and "d \<noteq> build sep body ! k"
  shows "parse_one sep ((build sep body)[k := d] @ q) = Some (parse_fail BadCheckSum)"
  by (rule corrupt_body [OF assms])

theorem parse_detects_corruption_witness:
  "parse_one kSohText ((build kSohText sample_body)[18 := CHR ''G''] @ []) = Some (parse_fail BadCheckSum)"
proof (rule parse_detects_corruption [OF sep_ok_text sample_body_ok])
  show "length (build_header kSohText (length (build_body kSohText sample_body))) \<le> 18" by code_simp
  show "18 + 7 < length (build kSohText sample_body)" by (simp add: sample_length)
  show "CHR ''G'' \<noteq> build kSohText sample_body ! 18" by code_simp
qed

text \<open>
  C23. What an accepted message looks like, for any input bytes: it starts with the begin
  string, lies inside the buffer, its tags are distinct, and the checksum in its trailer
  is the checksum of the bytes before it. A rejected buffer consumes nothing.
\<close>

theorem parse_accepts_framed:
  assumes "parse_one sep buf = Some r" and "length buf < 2 ^ 63"
  shows "if err r = PE_None
    then 7 \<le> consumed r \<and> consumed r \<le> length buf \<and> take 10 buf = kBegin @ [sep] \<and>
      distinct (map fst (msg_fields (msg r))) \<and>
      checksum (take (consumed r - 7) buf) = ucast (the (parse_uint (substr buf (consumed r - 4) 3)))
    else consumed r = 0"
  using parse_one_accepts [OF assms(1) _ assms(2)] parse_one_rejects [OF assms(1)] by simp

theorem parse_accepts_framed_witness:
  "\<exists>r. parse_one kSohText (build kSohText sample_body) = Some r \<and> err r = PE_None \<and>
     distinct (map fst (msg_fields (msg r)))"
proof -
  have p: "parse_one kSohText (build kSohText sample_body) =
      Some \<lparr>err = PE_None, consumed = length (build kSohText sample_body), msg = wire_message kSohText sample_body\<rparr>"
    using parse_build [OF sep_ok_text sample_body_ok, of "[]"] by (simp add: wire_message_def)
  have "length (build kSohText sample_body) < 2 ^ 63" by (simp add: sample_length)
  from parse_accepts_framed [OF p this] p show ?thesis by simp
qed

text \<open>
  C22. Memory safety of the parser: it reads outside the buffer exactly when the header
  declares a body length whose end position lies in the last seven values before the
  unsigned arithmetic wraps around, so that the check for a complete message passes.
\<close>

theorem parse_reads_in_bounds:
  assumes "length buf < 2 ^ 63"
  shows "parse_one sep buf = None \<longleftrightarrow>
    (\<exists>pos n. declared sep buf = Some (pos, n) \<and> 2 ^ 64 - 7 \<le> pos + unat n \<and> pos + unat n < 2 ^ 64)"
  by (rule parse_one_None_iff [OF assms])

theorem parse_reads_in_bounds_witness:
  "parse_one kSohText ''8=FIX.4.4|9=18446744073709551582|'' = None"
proof -
  let ?b = "''8=FIX.4.4|9=18446744073709551582|''"
  have "length ?b < 2 ^ 63" by simp
  moreover have "declared kSohText ?b = Some (33, 18446744073709551582)" by code_simp
  moreover have "unat (18446744073709551582 :: u64) = 18446744073709551582" by simp
  ultimately show ?thesis using parse_reads_in_bounds [of ?b kSohText] by simp
qed

section \<open>The session's invariant\<close>

text \<open>
  C11. Every session reached by the calls of a transport - logon, reports, heartbeats,
  logout, timer ticks and any bytes from the counterparty - is well formed: the history
  holds exactly the last messages sent, at most the configured number of them, under
  consecutive sequence numbers ending at the outbound counter, and each retained message
  can be parsed back with its own number and time.
\<close>

theorem session_reachable_wf:
  assumes "session_reaches E c sep s" and "plain sep" and "config_ok sep c" and "env_ok E sep"
  shows "session_wf s \<and> soh s = sep"
  by (rule session_reaches_wf [OF assms])

theorem session_reachable_wf_witness:
  "session_wf (snd (send_heartbeat sample_env (new_session sample_cfg kSohText)))"
proof -
  have "session_reaches sample_env sample_cfg kSohText (snd (send_heartbeat sample_env (new_session sample_cfg kSohText)))"
    by (rule session_reaches.step [OF session_reaches.start]) (rule session_step.heartbeat, simp add: room_def new_session_def)
  from session_reachable_wf [OF this sample_plain sample_cfg_ok sample_env_ok] show ?thesis by simp
qed

lemma tameI:
  assumes "length buf < 2 ^ 62"
    and "list_all (\<lambda>j. case declared sep (drop j buf) of None \<Rightarrow> True | Some (_, n) \<Rightarrow> n < 2 ^ 20) [0..<Suc (length buf)]"
  shows "tame sep buf"
proof -
  have "parse_one sep (drop j buf) \<noteq> None" if j: "j < Suc (length buf)" for j
  proof
    assume oob: "parse_one sep (drop j buf) = None"
    have "length (drop j buf) < 2 ^ 63" using assms(1) by simp
    from oob [unfolded parse_one_None_iff [OF this]] obtain pos n where
      d: "declared sep (drop j buf) = Some (pos, n)" "2 ^ 64 - 7 \<le> pos + unat n" by blast
    have "case declared sep (drop j buf) of None \<Rightarrow> True | Some (_, n) \<Rightarrow> n < 2 ^ 20"
      using assms(2) j unfolding list_all_iff by (simp del: upt_Suc)
    then have "n < 2 ^ 20" using d(1) by simp
    then have "unat n < 2 ^ 20" by (simp add: word_less_nat_alt)
    moreover have "pos \<le> length (drop j buf)"
      using d(1) by (cases rule: parse_one_cases [of sep "drop j buf"]) auto
    ultimately show False using d(2) assms(1) by simp
  qed
  then show ?thesis by (simp add: tame_def list_all_iff del: upt_Suc)
qed

lemma sample_tame: "tame kSohText (build kSohText sample_body)"
proof (rule tameI)
  show "list_all (\<lambda>j. case declared kSohText (drop j (build kSohText sample_body)) of None \<Rightarrow> True
      | Some (_, n) \<Rightarrow> n < 2 ^ 20) [0..<Suc (length (build kSohText sample_body))]"
    by code_simp
qed (simp add: sample_length)

text \<open>
  C18. Reading always returns: on a well-formed session, whatever bytes arrive, the loop
  of \<^verbatim>\<open>Session::on_bytes\<close> ends, with the invariant kept unless a number in the message
  makes the conversion throw. The hypotheses exclude the parser's out-of-bounds read and
  counters at the end of their range.
\<close>

theorem on_bytes_total:
  assumes "session_wf s" and "env_ok E (soh s)" and "room (length (in_buf s @ data)) s"
    and "length (in_buf s @ data) \<le> 2 ^ 58" and "tame (soh s) (in_buf s @ data)"
  shows "\<exists>r. on_bytes E data s = Some r \<and>
    (case r of Inl _ \<Rightarrow> True | Inr (_, s') \<Rightarrow> session_wf s' \<and> soh s' = soh s \<and> (\<exists>k. in_buf s' = drop k (in_buf s @ data)))"
  using on_bytes_returns [OF assms] by (auto simp: returns_def split: option.splits sum.splits)

theorem on_bytes_total_witness:
  "\<exists>r. on_bytes sample_env (build kSohText sample_body) logged_in = Some r \<and>
    (case r of Inl _ \<Rightarrow> True | Inr (_, s') \<Rightarrow> session_wf s')"
proof -
  have "\<exists>r. on_bytes sample_env (build kSohText sample_body) logged_in = Some r \<and>
    (case r of Inl _ \<Rightarrow> True | Inr (_, s') \<Rightarrow> session_wf s' \<and> soh s' = soh logged_in \<and>
      (\<exists>k. in_buf s' = drop k (in_buf logged_in @ build kSohText sample_body)))"
    by (rule on_bytes_total [OF logged_in_wf])
      (simp_all add: sample_env_ok sample_tame room_def sample_length)
  then show ?thesis by (auto split: sum.splits)
qed

text \<open>
  C24. Every message sent carries the next sequence number, the session's identifiers and
  its own fields, as the counterparty parses them, and enters the resend history, which
  keeps only the configured number of messages.
\<close>

theorem report_numbered:
  assumes "session_wf s" and "env_ok E (soh s)" and "room 1 s" and "sendable (soh s) body"
  shows "\<exists>w s'. send_execution_report E body s = (w, s') \<and> unat (out_seq s') = Suc (unat (out_seq s)) \<and>
    peek (soh s) w tag_MsgType = Some msgtype_ExecutionReport \<and>
    peek (soh s) w tag_MsgSeqNum = Some (show_u64 (out_seq s')) \<and>
    peek (soh s) w tag_SenderCompID = Some (sender_comp_id (cfg s)) \<and>
    peek (soh s) w tag_TargetCompID = Some (target_comp_id (cfg s)) \<and>
    (\<forall>f \<in> set body. peek (soh s) w (fst f) = Some (snd f)) \<and>
    history s' = keep_last (outbound_history_size (cfg s)) (history s @
      [\<lparr>rec_seq = out_seq s', rec_sending_time = env_now E (now_reads s), rec_bytes = w\<rparr>])"
  by (rule report_sent [OF assms])

theorem report_numbered_witness:
  "\<exists>w s'. send_execution_report sample_env [(tag_ClOrdID, ''A'')] logged_in = (w, s') \<and>
     unat (out_seq s') = 1 \<and> peek kSohText w tag_ClOrdID = Some ''A''"
proof -
  have "sendable (soh logged_in) [(tag_ClOrdID, ''A'')]"
    using length_show_int [of 11] by (simp add: sendable_def fields_ok_def field_ok_def header_tags_def)
  from report_numbered [OF logged_in_wf _ _ this, of sample_env] show ?thesis
    by (auto simp: sample_env_ok room_def)
qed

section \<open>Resending\<close>

definition three_sent :: Session where
  "three_sent = snd (send_heartbeat sample_env (snd (send_heartbeat sample_env (snd (send_heartbeat sample_env logged_in)))))"

lemma heartbeat_sent:
  assumes "session_wf s"
  shows "snd (send_heartbeat E s) = sent E msgtype_Heartbeat [] s"
  unfolding send_heartbeat_def
  using build_message_wf [OF assms sendable_own(6) [OF session_wf_plain [OF assms]]] by simp

lemma sample_heartbeat_wf:
  assumes "session_wf s" and "soh s = kSohText" and "room 1 s"
  shows "session_wf (sent sample_env msgtype_Heartbeat [] s)"
  using session_step_wf [OF session_step.heartbeat [OF assms(3)] assms(1), of sample_env] sample_env_ok assms
  by (simp add: heartbeat_sent)

lemma three_sent:
  "session_wf three_sent" "soh three_sent = kSohText" "out_seq three_sent = 3" "length (history three_sent) = 2"
proof -
  let ?s1 = "sent sample_env msgtype_Heartbeat [] logged_in"
  let ?s2 = "sent sample_env msgtype_Heartbeat [] ?s1"
  let ?s3 = "sent sample_env msgtype_Heartbeat [] ?s2"
  have 1: "session_wf ?s1" by (rule sample_heartbeat_wf [OF logged_in_wf]) (simp_all add: room_def)
  have 2: "session_wf ?s2" by (rule sample_heartbeat_wf [OF 1]) (simp_all add: room_def)
  have 3: "session_wf ?s3" by (rule sample_heartbeat_wf [OF 2]) (simp_all add: room_def)
  have e: "three_sent = ?s3" by (simp add: three_sent_def heartbeat_sent logged_in_wf 1 2)
  show "session_wf three_sent" "soh three_sent = kSohText" "out_seq three_sent = 3" using 3 by (simp_all add: e)
  then show "length (history three_sent) = 2"
    by (simp add: session_wf_def hist_ok_def e sample_cfg_def)
qed

text \<open>
  C12. The answer to a resend request. For a request of the numbers \<open>b\<close> to \<open>e\<close> (to the
  last one sent when \<open>e\<close> is zero): numbers that fell out of the history are covered by
  one gap fill from \<open>b\<close> to the oldest retained number or the end of the range, and every
  retained message in the range follows exactly once, in order, under its own number,
  flagged as a possible duplicate, with its original sending time and all its other
  fields unchanged. The session's counters and history do not change.
\<close>

theorem resend_answers:
  assumes "session_wf s" and "env_ok E (soh s)" and "room 1 s"
    and "b \<noteq> 0" and "b \<le> last_wanted e s" and "b \<le> out_seq s" and "unat e < 2 ^ 64 - 1"
  shows "\<exists>gap reps k. handle_resend_request E b e [] s = Some (gap @ reps, s\<lparr>now_reads := k\<rparr>) \<and>
    (if unat b < oldest s
     then \<exists>w. gap = [w] \<and> fills_gap (soh s) (unat b) (min (oldest s) (Suc (unat (last_wanted e s)))) w
     else gap = []) \<and>
    map (\<lambda>w. peek (soh s) w tag_MsgSeqNum) reps = map (Some \<circ> show_nat)
      [max (oldest s) (unat b)..<Suc (min (unat (out_seq s)) (unat (last_wanted e s)))] \<and>
    list_all2 (duplicate_of (soh s)) (filter (in_range b (last_wanted e s)) (history s)) reps"
  using resend_answer [OF assms, of "[]"] by simp

theorem resend_answers_witness:
  "\<exists>gap reps k. handle_resend_request sample_env 1 0 [] three_sent = Some ([gap] @ reps, three_sent\<lparr>now_reads := k\<rparr>) \<and>
    fills_gap kSohText 1 2 gap \<and>
    map (\<lambda>w. peek kSohText w tag_MsgSeqNum) reps = [Some (show_nat 2), Some (show_nat 3)]"
proof -
  have o: "oldest three_sent = 2" by (simp add: oldest_def three_sent)
  have l: "last_wanted 0 three_sent = 3" by (simp add: last_wanted_def three_sent)
  have "\<exists>gap reps k. handle_resend_request sample_env 1 0 [] three_sent = Some (gap @ reps, three_sent\<lparr>now_reads := k\<rparr>) \<and>
    (\<exists>w. gap = [w] \<and> fills_gap kSohText 1 2 w) \<and>
    map (\<lambda>w. peek kSohText w tag_MsgSeqNum) reps = map (Some \<circ> show_nat) [2..<4] \<and>
    list_all2 (duplicate_of kSohText) (filter (in_range 1 3) (history three_sent)) reps"
    using resend_answers [OF three_sent(1), of sample_env 1 0]
    by (simp add: three_sent sample_env_ok room_def o l flip: numeral_2_eq_2)
  then obtain gap reps k w where "handle_resend_request sample_env 1 0 [] three_sent = Some ([w] @ reps, three_sent\<lparr>now_reads := k\<rparr>)"
    "fills_gap kSohText 1 2 w" "map (\<lambda>w. peek kSohText w tag_MsgSeqNum) reps = map (Some \<circ> show_nat) [2..<4]" by blast
  then show ?thesis by (intro exI [of _ w] exI [of _ reps] exI [of _ k]) simp
qed

section \<open>Reading from the wire\<close>

definition order_body :: "SeqNum \<Rightarrow> string \<Rightarrow> Fields" where
  "order_body q c = [(tag_MsgType, msgtype_NewOrderSingle), (tag_MsgSeqNum, show_u64 q), (tag_ClOrdID, c)]"

lemma order_body_ok:
  assumes "kSohText \<notin> set c" and "length c \<le> 1000"
  shows "body_ok kSohText (order_body q c)"
proof -
  have "length (build_body kSohText (order_body q c)) \<le> 2000"
    using assms(2) length_show_u64 [of q] length_show_int [of 35] length_show_int [of 34] length_show_int [of 11]
    by (simp add: order_body_def)
  with length_build_le [of kSohText "order_body q c"] have "length (build kSohText (order_body q c)) < 2 ^ 64" by simp
  with assms(1) show ?thesis
    using plain_text(1) [OF sample_plain] by (simp add: body_ok_def fields_ok_def field_ok_def order_body_def)
qed

lemma sample_bodies: "body_ok kSohText (order_body q ''A'')" "body_ok kSohText (order_body q ''B'')"
  by (intro order_body_ok; simp)+

lemma order_length: "length (build kSohText (order_body 1 ''A'')) = 37" "length (build kSohText (order_body 2 ''B'')) = 37"
  "length (build kSohText (order_body 5 ''A'')) = 37"
  by code_simp+

text \<open>
  C19. In-sequence application messages reach the application: a stream of orders and
  cancels with the expected consecutive numbers is delivered completely, in order, each
  message once and unchanged, with no reply and no disconnect; the inbound counter ends at
  the last number and the rest of the session is as before.
\<close>

theorem app_messages_delivered:
  assumes "sep_ok (soh s)" and "numbered (soh s) (in_seq s) bs" and "state s \<noteq> Disconnected"
    and "in_buf s = []" and "length (concat (map (build (soh s)) bs)) < 2 ^ 63"
  shows "\<exists>s'. on_bytes E (concat (map (build (soh s)) bs)) s =
      Some (Inr (no_step\<lparr>step_app := map (wire_message (soh s)) bs\<rparr>, s')) \<and>
    in_seq s' = in_seq s + of_nat (length bs) \<and> out_seq s' = out_seq s \<and> history s' = history s \<and>
    state s' = state s \<and> in_buf s' = []"
  using app_stream [OF assms, of E] assms(4) by simp

theorem app_messages_delivered_witness:
  "\<exists>s'. on_bytes sample_env (build kSohText (order_body 1 ''A'') @ build kSohText (order_body 2 ''B'')) logged_in =
      Some (Inr (no_step\<lparr>step_app := [wire_message kSohText (order_body 1 ''A''), wire_message kSohText (order_body 2 ''B'')]\<rparr>, s')) \<and>
    in_seq s' = 2"
proof -
  have "numbered (soh logged_in) (in_seq logged_in) [order_body 1 ''A'', order_body 2 ''B'']"
    using sample_bodies by (simp add: app_body_def app_types_def order_body_def)
  from app_messages_delivered [OF _ this, of sample_env] show ?thesis
    by (auto simp: sep_ok_text order_length)
qed

text \<open>
  C17. How the transport cuts the stream does not matter: reading \<open>a\<close> and then \<open>b\<close> does
  what reading them at once does - the same replies, the same application messages and the
  same final session - as long as the first read did not end the session.
\<close>

theorem on_bytes_segmentation:
  assumes "length (in_buf s @ a @ b) < 2 ^ 63" and "on_bytes E a s = Some (Inr (st, s'))" and "\<not> step_disconnect st"
  shows "on_bytes E (a @ b) s = add_result st (on_bytes E b s')"
  by (rule on_bytes_append [OF assms])

theorem on_bytes_segmentation_witness:
  "on_bytes sample_env (take 25 (build kSohText (order_body 1 ''A'')) @ drop 25 (build kSohText (order_body 1 ''A''))) logged_in =
     add_result no_step (on_bytes sample_env (drop 25 (build kSohText (order_body 1 ''A'')))
       (logged_in\<lparr>in_buf := take 25 (build kSohText (order_body 1 ''A''))\<rparr>))"
proof (rule on_bytes_segmentation)
  let ?a = "take 25 (build kSohText (order_body 1 ''A''))"
  have "parse_one kSohText ?a = Some (parse_fail Incomplete)"
    by (rule parse_prefix_incomplete [OF sep_ok_text sample_bodies(1)]) (simp add: order_length)
  moreover have "?a \<noteq> []" using order_length(1) by auto
  ultimately show "on_bytes sample_env ?a logged_in = Some (Inr (no_step, logged_in\<lparr>in_buf := ?a\<rparr>))"
    by (simp add: on_bytes_def on_bytes_loop.simps parse_fail_def)
qed (simp_all add: order_length no_step_def)

lemma gap_requests_resend:
  assumes "session_wf s" and "env_ok E (soh s)" and "state s \<noteq> Disconnected" and "in_buf s = []"
    and "body_ok (soh s) body" and "map_of body tag_MsgSeqNum = Some (show_u64 q)" and "q > in_seq s + 1"
  shows "\<exists>w s'. on_bytes E (build (soh s) body) s = Some (Inr (no_step\<lparr>step_out := [w]\<rparr>, s')) \<and>
    in_seq s' = in_seq s \<and> out_seq s' = out_seq s + 1 \<and>
    peek (soh s) w tag_MsgType = Some msgtype_ResendRequest \<and>
    peek (soh s) w tag_MsgSeqNum = Some (show_u64 (out_seq s + 1)) \<and>
    peek (soh s) w tag_BeginSeqNo = Some (show_u64 (in_seq s + 1)) \<and> peek (soh s) w tag_EndSeqNo = Some ''0''"
proof -
  have "sep_ok (soh s)" using session_wf_plain [OF assms(1)] by (rule plain_ok)
  from on_bytes_message [OF this assms(5,4), of E] show ?thesis
    using gap_message [of "read_one E s" E "wire_message (soh s) body" q] assms by (force simp: wire_message_seq)
qed

lemma low_number_disconnects:
  assumes "session_wf s" and "env_ok E (soh s)" and "state s \<noteq> Disconnected" and "in_buf s = []"
    and "body_ok (soh s) body" and "map_of body tag_MsgSeqNum = Some (show_u64 q)" and "q < in_seq s + 1" and "q \<noteq> 0"
  shows "\<exists>w s'. on_bytes E (build (soh s) body) s =
      Some (Inr (no_step\<lparr>step_out := [w], step_disconnect := True\<rparr>, s')) \<and>
    peek (soh s) w tag_MsgType = Some msgtype_Logout \<and> state s' = LogoutSent \<and> in_seq s' = in_seq s"
proof -
  have "sep_ok (soh s)" using session_wf_plain [OF assms(1)] by (rule plain_ok)
  from on_bytes_message [OF this assms(5,4), of E] show ?thesis
    using low_message [of "read_one E s" E "wire_message (soh s) body" q] assms by (force simp: wire_message_seq)
qed

text \<open>
  C25. A message out of sequence is not processed and the inbound counter stays. For a gap
  the one reply is a resend request, as the counterparty parses it, from the first missing
  number to the end, numbered as the next outbound message. A number that was already used
  ends the session: the reply is a logout and the transport is told to disconnect. (Number
  zero, or none, is let through instead.)
\<close>

theorem out_of_sequence:
  assumes "session_wf s" and "env_ok E (soh s)" and "state s \<noteq> Disconnected" and "in_buf s = []"
    and "body_ok (soh s) body" and "map_of body tag_MsgSeqNum = Some (show_u64 q)" and "q \<noteq> in_seq s + 1" and "q \<noteq> 0"
  shows "\<exists>w s'. in_seq s' = in_seq s \<and>
    (if q > in_seq s + 1
     then on_bytes E (build (soh s) body) s = Some (Inr (no_step\<lparr>step_out := [w]\<rparr>, s')) \<and> out_seq s' = out_seq s + 1 \<and>
       peek (soh s) w tag_MsgType = Some msgtype_ResendRequest \<and>
       peek (soh s) w tag_MsgSeqNum = Some (show_u64 (out_seq s + 1)) \<and>
       peek (soh s) w tag_BeginSeqNo = Some (show_u64 (in_seq s + 1)) \<and> peek (soh s) w tag_EndSeqNo = Some ''0''
     else on_bytes E (build (soh s) body) s = Some (Inr (no_step\<lparr>step_out := [w], step_disconnect := True\<rparr>, s')) \<and>
       peek (soh s) w tag_MsgType = Some msgtype_Logout \<and> state s' = LogoutSent)"
proof (cases "q > in_seq s + 1")
  case True
  with gap_requests_resend [OF assms(1-6)] show ?thesis by auto
next
  case False
  with assms(7) have "q < in_seq s + 1" by simp
  from low_number_disconnects [OF assms(1-6) this assms(8)] False show ?thesis by auto
qed

theorem out_of_sequence_witness:
  "(\<exists>w s'. on_bytes sample_env (build kSohText (order_body 5 ''A'')) logged_in = Some (Inr (no_step\<lparr>step_out := [w]\<rparr>, s')) \<and>
     in_seq s' = 0 \<and> peek kSohText w tag_BeginSeqNo = Some (show_u64 1)) \<and>
   (\<exists>w s'. on_bytes sample_env (build kSohText (order_body 1 ''A'')) (logged_in\<lparr>in_seq := 3\<rparr>) =
      Some (Inr (no_step\<lparr>step_out := [w], step_disconnect := True\<rparr>, s')) \<and> state s' = LogoutSent)"
proof
  have "map_of (order_body 5 ''A'') tag_MsgSeqNum = Some (show_u64 5)" by (simp add: order_body_def)
  from out_of_sequence [OF logged_in_wf _ _ _ _ this, of sample_env]
  show "\<exists>w s'. on_bytes sample_env (build kSohText (order_body 5 ''A'')) logged_in = Some (Inr (no_step\<lparr>step_out := [w]\<rparr>, s')) \<and>
     in_seq s' = 0 \<and> peek kSohText w tag_BeginSeqNo = Some (show_u64 1)"
    using sample_bodies sample_env_ok by auto
  have "map_of (order_body 1 ''A'') tag_MsgSeqNum = Some (show_u64 1)" by (simp add: order_body_def)
  from out_of_sequence [OF _ _ _ _ _ this, of "logged_in\<lparr>in_seq := 3\<rparr>" sample_env]
  show "\<exists>w s'. on_bytes sample_env (build kSohText (order_body 1 ''A'')) (logged_in\<lparr>in_seq := 3\<rparr>) =
      Some (Inr (no_step\<lparr>step_out := [w], step_disconnect := True\<rparr>, s')) \<and> state s' = LogoutSent"
    using sample_bodies sample_env_ok logged_in_wf by auto
qed

text \<open>
  C26. Bytes that are not a message: when the parser rejects what is in the buffer, the
  session answers with a logout, tells the transport to disconnect, discards the buffer
  and hands nothing to the application.
\<close>

theorem malformed_disconnects:
  assumes "session_wf s" and "env_ok E (soh s)" and "in_buf s = []" and "data \<noteq> []"
    and "parse_one (soh s) data = Some r" and "err r \<noteq> PE_None" and "err r \<noteq> Incomplete"
  shows "\<exists>w s'. on_bytes E data s = Some (Inr (no_step\<lparr>step_out := [w], step_disconnect := True\<rparr>, s')) \<and>
    peek (soh s) w tag_MsgType = Some msgtype_Logout \<and> state s' = LogoutSent \<and> in_buf s' = [] \<and> in_seq s' = in_seq s"
proof -
  let ?s = "s\<lparr>in_buf := data, state := LogoutSent\<rparr>" and ?b = "[(tag_Text, ''malformed message'')]"
  note p = session_wf_plain [OF assms(1)]
  have t: "text_ok (soh s) msgtype_Logout" "sendable (soh s) ?b" using p by (simp_all add: text_ok_def sendable_own(4))
  have "send_logout E ''malformed message'' (s\<lparr>in_buf := data\<rparr>) =
      (build (soh s) (std_fields E ?s msgtype_Logout ?b), sent E msgtype_Logout ?b ?s)"
    using build_message_wf [of ?s ?b E msgtype_Logout] assms(1) t by (simp add: send_logout_def)
  with on_bytes_loop_unfold [of "s\<lparr>in_buf := data\<rparr>" r E no_step] assms(3-)
  have "on_bytes E data s = Some (Inr (no_step\<lparr>step_out := [build (soh s) (std_fields E ?s msgtype_Logout ?b)],
      step_disconnect := True\<rparr>, (sent E msgtype_Logout ?b ?s)\<lparr>in_buf := []\<rparr>))"
    by (simp add: on_bytes_def no_step_def)
  moreover have "peek (soh s) (build (soh s) (std_fields E ?s msgtype_Logout ?b)) tag_MsgType = Some msgtype_Logout"
    using std_peek [of ?s E ?b msgtype_Logout] assms(1,2) t by (simp add: std_fields_def)
  ultimately show ?thesis
    by (intro exI [of _ "build (soh s) (std_fields E ?s msgtype_Logout ?b)"]
        exI [of _ "(sent E msgtype_Logout ?b ?s)\<lparr>in_buf := []\<rparr>"]) simp
qed

theorem malformed_disconnects_witness:
  "\<exists>w s'. on_bytes sample_env ''GET / HTTP/1.1 Host: x'' logged_in =
      Some (Inr (no_step\<lparr>step_out := [w], step_disconnect := True\<rparr>, s')) \<and> state s' = LogoutSent \<and> in_buf s' = []"
proof -
  have p: "parse_one (soh logged_in) ''GET / HTTP/1.1 Host: x'' = Some (parse_fail BadHeader)" by (simp, code_simp)
  from malformed_disconnects [OF logged_in_wf _ _ _ p, of sample_env] show ?thesis
    using sample_env_ok by (auto simp: parse_fail_def)
qed


definition logon_body :: Fields where
  "logon_body = [(tag_MsgType, msgtype_Logon), (tag_MsgSeqNum, show_u64 1), (tag_TargetCompID, ''OB'')]"

lemma logon_length: "length (build kSohText logon_body) = 38"
  by code_simp

lemma logon_body_ok: "body_ok kSohText logon_body"
  unfolding body_ok_def logon_length
  using plain_text(1) [OF sample_plain] by (simp add: fields_ok_def field_ok_def logon_body_def)


section \<open>Timers\<close>

text \<open>
  C28. A silent counterparty is noticed: whatever the other ticks, if one tick comes when
  nothing has been received for one and a half heartbeat intervals and a later one comes
  another one and a half intervals after it, and no bytes arrive in between, then some
  tick has told the transport to disconnect.
\<close>

theorem silent_peer_disconnected:
  assumes "timing E (length (as @ t1 # bs)) s" and "\<not> test_request_outstanding s" and "sorted (as @ [t1])"
    and "t1 - last_inbound s \<ge> window s" and "t2 \<in> set bs" and "t2 - t1 \<ge> window s"
  shows "\<exists>st \<in> set (ticks E (as @ t1 # bs) s). step_disconnect st"
  by (rule ticks_silent [OF assms])

theorem silent_peer_disconnected_witness:
  "\<exists>st \<in> set (ticks sample_env ([secs 31] @ secs 46 # [secs 60, secs 92]) logged_in). step_disconnect st"
proof (rule silent_peer_disconnected)
  show "timing sample_env (length ([secs 31] @ secs 46 # [secs 60, secs 92])) logged_in"
    by (simp add: timing_def logged_in_wf sample_env_ok room_def timed_def sample_cfg_def)
  show "secs 46 - last_inbound logged_in \<ge> window logged_in" "secs 92 - secs 46 \<ge> window logged_in"
    by (simp_all add: window_def secs_def sample_cfg_def)
qed (simp_all add: secs_def)

section \<open>Where the session departs from the protocol\<close>

text \<open>
  C38. A gap fill is accepted but not applied. A \<^verbatim>\<open>SequenceReset\<close> that fills the gap up to
  \<open>n\<close> moves the inbound counter by one only; the message numbered \<open>n\<close> that follows it is
  again taken for a gap and answered by a resend request for numbers already filled.
\<close>

theorem gap_fill_not_applied:
  assumes "session_wf s" and "env_ok E (soh s)" and "state s \<noteq> Disconnected" and "in_buf s = []"
    and "body_ok (soh s) fill" and "map_of fill tag_MsgType = Some msgtype_SequenceReset"
    and "map_of fill tag_MsgSeqNum = Some (show_u64 (in_seq s + 1))" and "map_of fill tag_NewSeqNo = Some (show_u64 n)"
    and "body_ok (soh s) body" and "map_of body tag_MsgSeqNum = Some (show_u64 n)" and "n > in_seq s + 2"
  shows "\<exists>s1 w s2. on_bytes E (build (soh s) fill) s = Some (Inr (no_step, s1)) \<and> in_seq s1 = in_seq s + 1 \<and>
    on_bytes E (build (soh s) body) s1 = Some (Inr (no_step\<lparr>step_out := [w]\<rparr>, s2)) \<and> in_seq s2 = in_seq s + 1 \<and>
    peek (soh s) w tag_MsgType = Some msgtype_ResendRequest \<and>
    peek (soh s) w tag_BeginSeqNo = Some (show_u64 (in_seq s + 2))"
proof -
  have sep: "sep_ok (soh s)" using session_wf_plain [OF assms(1)] by (rule plain_ok)
  let ?s1 = "(read_one E s)\<lparr>in_seq := in_seq s + 1\<rparr>"
  have 1: "on_bytes E (build (soh s) fill) s = Some (Inr (no_step, ?s1))"
    using on_bytes_message [OF sep assms(5,4), of E] assms(3,6,7)
    by (simp add: handle_message_def wire_message_seq dispatch_def wire_message_type Let_def)
  have n: "n > in_seq ?s1 + 1" using assms(11) by (simp add: add.commute)
  obtain w where w: "handle_message E (wire_message (soh s) body) (read_one E ?s1) =
      Some (Inr (no_step\<lparr>step_out := [w]\<rparr>, sent E msgtype_ResendRequest
        [(tag_BeginSeqNo, show_u64 (in_seq s + 2)), (tag_EndSeqNo, ''0'')] (read_one E ?s1)))"
      "peek (soh s) w tag_MsgType = Some msgtype_ResendRequest" "peek (soh s) w tag_BeginSeqNo = Some (show_u64 (in_seq s + 2))"
    using gap_message [of "read_one E ?s1" E "wire_message (soh s) body" n] assms(1-3,10) n
    by (auto simp: wire_message_seq add.assoc)
  have "on_bytes E (build (soh s) body) ?s1 = Some (Inr (no_step\<lparr>step_out := [w]\<rparr>, sent E msgtype_ResendRequest
        [(tag_BeginSeqNo, show_u64 (in_seq s + 2)), (tag_EndSeqNo, ''0'')] (read_one E ?s1)))"
    using on_bytes_message [of ?s1 body E] sep assms(9) w(1) by simp
  with 1 w show ?thesis by auto
qed

definition fill_body :: Fields where
  "fill_body = [(tag_MsgType, msgtype_SequenceReset), (tag_MsgSeqNum, show_u64 1), (tag_NewSeqNo, show_u64 5)]"

lemma fill_body_ok: "body_ok kSohText fill_body"
proof -
  have "length (build kSohText fill_body) = 37" by code_simp
  then show ?thesis
    using plain_text(1) [OF sample_plain] by (simp add: body_ok_def) (simp add: fields_ok_def field_ok_def fill_body_def)
qed

theorem gap_fill_not_applied_witness:
  "\<exists>s1 w s2. on_bytes sample_env (build kSohText fill_body) logged_in = Some (Inr (no_step, s1)) \<and>
    on_bytes sample_env (build kSohText (order_body 5 ''A'')) s1 = Some (Inr (no_step\<lparr>step_out := [w]\<rparr>, s2)) \<and>
    peek kSohText w tag_BeginSeqNo = Some (show_u64 2)"
proof -
  have f: "map_of fill_body tag_MsgType = Some msgtype_SequenceReset" "map_of fill_body tag_MsgSeqNum = Some (show_u64 (in_seq logged_in + 1))"
    "map_of fill_body tag_NewSeqNo = Some (show_u64 5)" "map_of (order_body 5 ''A'') tag_MsgSeqNum = Some (show_u64 5)"
    by (simp_all add: fill_body_def order_body_def)
  from gap_fill_not_applied [OF logged_in_wf _ _ _ _ f(1-3) _ f(4), of sample_env] show ?thesis
    using sample_env_ok fill_body_ok sample_bodies by auto
qed

text \<open>
  C39. A sequence number that is not a number is not an error reply: the conversion of
  \<^verbatim>\<open>MsgSeqNum\<close> throws out of \<^verbatim>\<open>on_bytes\<close>, in every state of the session.
\<close>

theorem bad_number_throws:
  assumes "sep_ok (soh s)" and "body_ok (soh s) body" and "in_buf s = []"
    and "map_of body tag_MsgSeqNum = Some v" and "stoull v = Inl e"
  shows "on_bytes E (build (soh s) body) s = Some (Inl e)"
  using on_bytes_message [OF assms(1-3), of E] assms(4,5) by (simp add: handle_message_def wire_message_seq)

definition bad_body :: Fields where
  "bad_body = [(tag_MsgType, msgtype_NewOrderSingle), (tag_MsgSeqNum, ''x'')]"

theorem bad_number_throws_witness:
  "on_bytes sample_env (build kSohText bad_body) logged_in = Some (Inl InvalidArgument)"
proof -
  have "length (build kSohText bad_body) = 32" by code_simp
  then have ok: "body_ok (soh logged_in) bad_body"
    by (simp add: body_ok_def) (simp add: fields_ok_def field_ok_def bad_body_def)
  have v: "map_of bad_body tag_MsgSeqNum = Some ''x''" by (simp add: bad_body_def)
  have "stoull ''x'' = Inl InvalidArgument" by code_simp
  from bad_number_throws [OF _ ok _ v this, of sample_env] show ?thesis by (simp add: sep_ok_text)
qed

text \<open>
  C40. An initiator never becomes logged in: after its own logon, the counterparty's
  logon reply is treated as an unsupported message and rejected, and the session stays in
  the state it took when it sent the logon.
\<close>

theorem initiator_rejects_logon:
  assumes "session_wf s" and "env_ok E (soh s)" and "state s = LogonSent" and "in_buf s = []"
    and "body_ok (soh s) body" and "map_of body tag_MsgType = Some msgtype_Logon"
    and "map_of body tag_MsgSeqNum = Some (show_u64 (in_seq s + 1))"
  shows "\<exists>w s'. on_bytes E (build (soh s) body) s = Some (Inr (no_step\<lparr>step_out := [w]\<rparr>, s')) \<and>
    state s' = LogonSent \<and> peek (soh s) w tag_MsgType = Some msgtype_Reject"
proof -
  let ?r = "(read_one E s)\<lparr>in_seq := in_seq s + 1\<rparr>"
  let ?b = "[(tag_RefSeqNum, show_u64 (in_seq s + 1)), (tag_Text, ''unsupported MsgType=A'')]"
  note p = session_wf_plain [OF assms(1)]
  have t: "text_ok (soh ?r) msgtype_Reject" "sendable (soh ?r) ?b" and wf: "session_wf ?r"
    using p assms(1) by (simp_all add: text_ok_def sendable_own(3))
  have "on_bytes E (build (soh s) body) s = Some (Inr (out_step (build_message E ((tag_MsgType, msgtype_Reject) # ?b) ?r)))"
    using on_bytes_message [OF plain_ok(1) [OF p] assms(5,4), of E] assms(3,6,7)
    by (simp add: handle_message_def wire_message_seq dispatch_def wire_message_type build_reject_def Let_def)
  then show ?thesis
    using build_message_wf [OF wf t(2), of E msgtype_Reject] std_peek [OF wf _ t(2,1), of E] assms(2,3)
    by (intro exI [of _ "build (soh s) (std_fields E ?r msgtype_Reject ?b)"] exI [of _ "sent E msgtype_Reject ?b ?r"])
      (simp add: out_step_def, simp add: std_fields_def)
qed

theorem initiator_rejects_logon_witness:
  "\<exists>w s'. on_bytes sample_env (build kSohText logon_body) (snd (initiate_logon sample_env (new_session sample_cfg kSohText))) =
      Some (Inr (no_step\<lparr>step_out := [w]\<rparr>, s')) \<and> state s' = LogonSent"
proof -
  let ?n = "new_session sample_cfg kSohText"
  let ?s = "snd (initiate_logon sample_env ?n)"
  have n: "session_wf (?n\<lparr>state := LogonSent\<rparr>)" using new_session_wf [OF sample_plain sample_cfg_ok] by simp
  have i: "?s = sent sample_env msgtype_Logon [(108, show_int 30)] (?n\<lparr>state := LogonSent\<rparr>)"
    unfolding initiate_logon_def using build_message_wf [OF n, of "[(108, show_int 30)]"]
    by (simp add: new_session_def sample_cfg_def sendable_own(1) [OF sample_plain])
  have "room 1 ?n" by (simp add: room_def new_session_def)
  from initiate_advances [OF new_session_wf [OF sample_plain sample_cfg_ok] _ this, of sample_env]
  have wf: "session_wf ?s" using sample_env_ok by (simp add: advances_def new_session_def)
  have s: "soh ?s = kSohText" "state ?s = LogonSent" "in_buf ?s = []" "in_seq ?s = 0"
    unfolding i by (simp_all add: new_session_def)
  from initiator_rejects_logon [OF wf _ s(2,3), of sample_env logon_body] show ?thesis
    using sample_env_ok logon_body_ok by (auto simp: s logon_body_def)
qed

end
