(* ===== verification/Net_Server.thy ===== *)
theory Net_Server
  imports FIX_Delivery OB_Engine
begin

text \<open>
  \<^verbatim>\<open>src/net/tcp_server.{h,cpp}\<close>: the server that joins sessions and the matching engine.
  One iteration of a connection's loop is a function of what the operating system
  delivered (\<open>Input\<close>), the connection and the state the connections share. What
  \<^verbatim>\<open>::send\<close> returns is the parameter \<open>Net\<close>, and where \<^verbatim>\<open>std::make_unique\<close> puts a new
  order the parameter \<open>place\<close>. Sockets and threads themselves are not modelled; the book
  is only touched under its lock, by \<open>handle_app\<close>.
\<close>

record ServerConfig =
  srv_host :: string
  srv_port :: "16 word"
  srv_sender_comp_id :: string
  srv_heartbeat_secs :: int
  srv_algo :: MatchAlgo

definition default_config :: ServerConfig where
  "default_config = \<lparr>srv_host = ''127.0.0.1'', srv_port = 0, srv_sender_comp_id = ''OBFIX'',
     srv_heartbeat_secs = 30, srv_algo = ProRata\<rparr>"

record Server =
  sv_cfg :: ServerConfig
  sv_heap :: heap
  sv_book :: OrderBook
  next_order_id :: OrderId
  msgs_in :: u64
  msgs_out :: u64

definition new_server :: "ServerConfig \<Rightarrow> Server" where
  "new_server c = \<lparr>sv_cfg = c, sv_heap = Map.empty, sv_book = new_book ''SYM'', next_order_id = 1,
     msgs_in = 0, msgs_out = 0\<rparr>"

section \<open>Execution reports\<close>

definition exec_report_for_ack :: "Ack \<Rightarrow> OrderId \<Rightarrow> Fields" where
  "exec_report_for_ack a i =
     [(tag_OrderID, show_u64 i),
      (tag_ClOrdID, clord_value (ack_clord_id a)),
      (tag_ExecID, show_u64 i @ ''-A''),
      (tag_ExecType, ''0''),
      (tag_OrdStatus, ''0''),
      (tag_LeavesQty, ''0''),
      (tag_CumQty, ''0''),
      (tag_AvgPx, ''0'')]"

definition exec_report_for_trade :: "Trade \<Rightarrow> OrderId \<Rightarrow> OrderId \<Rightarrow> bool \<Rightarrow> Fields" where
  "exec_report_for_trade t resting aggressor for_aggressor =
     (let oid = (if for_aggressor then aggressor else resting);
          cl = (if for_aggressor then aggressor_clord t else resting_clord t) in
      [(tag_OrderID, show_u64 oid),
       (tag_ClOrdID, clord_value cl),
       (tag_ExecID, show_u64 oid @ ''-T'' @ show_u64 (trade_qty t)),
       (tag_ExecType, ''F''),
       (tag_OrdStatus, ''1''),
       (tag_LastQty, show_u64 (trade_qty t)),
       (tag_LastPx, show_int (trade_price t))])"

definition report_body :: "Event \<Rightarrow> Fields option" where
  "report_body ev =
     (case ev of
        AckEv a \<Rightarrow> Some (exec_report_for_ack a (ack_id a))
      | TradeEv t \<Rightarrow> Some (exec_report_for_trade t (resting_id t) (aggressor_id t) True)
      | OrdRejectEv r \<Rightarrow> Some
          [(tag_ClOrdID, clord_value (rej_clord_id r)), (tag_ExecType, ''8''), (tag_OrdStatus, ''8''),
           (tag_Text, rej_reason r)]
      | CancelAckEv c \<Rightarrow> Some
          [(tag_ClOrdID, clord_value (ca_clord_id c)), (tag_OrigClOrdID, clord_value (ca_orig_clord_id c)),
           (tag_ExecType, ''4''), (tag_OrdStatus, ''4'')]
      | ReplaceAckEv _ \<Rightarrow> None)"

section \<open>Routing an application message\<close>

definition value_or :: "string option \<Rightarrow> string \<Rightarrow> string" where
  "value_or f d = (case f of None \<Rightarrow> d | Some v \<Rightarrow> v)"

text \<open>\<^verbatim>\<open>s[0]\<close> of a \<^verbatim>\<open>std::string\<close> is the terminating null character when it is empty.\<close>

definition first_char :: "string \<Rightarrow> char" where
  "first_char s = (case s of [] \<Rightarrow> CHR 0x00 | c # _ \<Rightarrow> c)"

definition new_order :: "Message \<Rightarrow> OrderId \<Rightarrow> exn + Order" where
  "new_order m oid =
     (case stoll (value_or (get m tag_Price) ''0'') of
        Inl e \<Rightarrow> Inl e
      | Inr p \<Rightarrow>
          (case stoull (value_or (get m tag_OrderQty) ''0'') of
             Inl e \<Rightarrow> Inl e
           | Inr q \<Rightarrow> Inr \<lparr>order_id = oid, session = 0,
               clord_id = \<lparr>clord_value = value_or (get m tag_ClOrdID) ''''\<rparr>,
               side = first_char (value_or (get m tag_Side) ''1''), ord_type = Limit, price = p,
               orig_qty = q, leaves_qty = q, ts = 0, prv = None, nxt = None\<rparr>))"

definition submit_app ::
  "(heap \<Rightarrow> addr) \<Rightarrow> Message \<Rightarrow> Server \<Rightarrow> (exn + (EventList \<times> Server)) option"
where
  "submit_app place m sv =
     (let oid = next_order_id sv;
          sv = sv\<lparr>next_order_id := oid + 1\<rparr>;
          a = place (sv_heap sv)
      in case new_order m oid of
           Inl e \<Rightarrow> Some (Inl e)
         | Inr v \<Rightarrow> do {
             (h, b, evs) \<leftarrow> submit (srv_algo (sv_cfg sv)) ((sv_heap sv)(a \<mapsto> v)) (sv_book sv) a [];
             Some (Inr (evs, sv\<lparr>sv_heap := h, sv_book := b\<rparr>)) })"

definition cancel_app :: "Message \<Rightarrow> Server \<Rightarrow> (exn + (EventList \<times> Server)) option" where
  "cancel_app m sv =
     (let orig = \<lparr>clord_value = value_or (get m tag_OrigClOrdID) ''''\<rparr>;
          cl = \<lparr>clord_value = value_or (get m tag_ClOrdID) ''''\<rparr>
      in do {
        ((h, b), res) \<leftarrow> cancel (sv_heap sv) (sv_book sv) 0 orig;
        Some (Inr (
          [if ok res then CancelAckEv \<lparr>ca_id = 0, ca_clord_id = cl, ca_orig_clord_id = orig\<rparr>
           else OrdRejectEv \<lparr>rej_clord_id = cl, rej_reason = ''cancel: unknown order''\<rparr>],
          sv\<lparr>sv_heap := h, sv_book := b\<rparr>)) })"

definition handle_app ::
  "(heap \<Rightarrow> addr) \<Rightarrow> Message \<Rightarrow> Server \<Rightarrow> (exn + (EventList \<times> Server)) option"
where
  "handle_app place m sv =
     (let mt = msg_type m in
      if mt = msgtype_NewOrderSingle then submit_app place m sv
      else if mt = msgtype_OrderCancelRequest then cancel_app m sv
      else Some (Inr ([], sv)))"

section \<open>Writing\<close>

record Net =
  net_send :: "nat \<Rightarrow> string \<Rightarrow> int"

record Conn =
  conn_session :: Session
  conn_wire :: string
  conn_sends :: nat

text \<open>
  The loop of \<^verbatim>\<open>write_all\<close>. Each call of \<^verbatim>\<open>::send\<close> is given the bytes left and returns how
  many it took; \<^verbatim>\<open>conn_wire\<close> collects them. More than it was given would make the code
  read past the string.
\<close>

function write_all :: "Net \<Rightarrow> string \<Rightarrow> Conn \<Rightarrow> (bool \<times> Conn) option" where
  "write_all N s c =
     (if s = [] then Some (True, c)
      else
        let w = net_send N (conn_sends c) s; c = c\<lparr>conn_sends := Suc (conn_sends c)\<rparr> in
        if w \<le> 0 then Some (False, c)
        else if nat w > length s then None
        else write_all N (drop (nat w) s) (c\<lparr>conn_wire := conn_wire c @ take (nat w) s\<rparr>))"
  by pat_completeness auto
termination
  by (relation "measure (\<lambda>(N, s, c). length s)") auto

declare write_all.simps [simp del]

fun write_outs :: "Net \<Rightarrow> WireOut list \<Rightarrow> Conn \<Rightarrow> Server \<Rightarrow> (bool \<times> Conn \<times> Server) option" where
  "write_outs N [] c sv = Some (True, c, sv)"
| "write_outs N (w # ws) c sv = do {
     (done', c) \<leftarrow> write_all N w c;
     if \<not> done' then Some (False, c, sv)
     else write_outs N ws c (sv\<lparr>msgs_out := msgs_out sv + 1\<rparr>) }"

fun send_reports ::
  "Env \<Rightarrow> Net \<Rightarrow> EventList \<Rightarrow> Conn \<Rightarrow> Server \<Rightarrow> (bool \<times> Conn \<times> Server) option"
where
  "send_reports E N [] c sv = Some (True, c, sv)"
| "send_reports E N (ev # evs) c sv =
     (case report_body ev of
        None \<Rightarrow> send_reports E N evs c sv
      | Some body \<Rightarrow>
          (let (w, s) = send_execution_report E body (conn_session c) in do {
             (done', c) \<leftarrow> write_all N w (c\<lparr>conn_session := s\<rparr>);
             if \<not> done' then Some (False, c, sv)
             else send_reports E N evs c (sv\<lparr>msgs_out := msgs_out sv + 1\<rparr>) }))"

definition route_app ::
  "Env \<Rightarrow> Net \<Rightarrow> (heap \<Rightarrow> addr) \<Rightarrow> AppMessage \<Rightarrow> Conn \<Rightarrow> Server \<Rightarrow> (exn + (bool \<times> Conn \<times> Server)) option"
where
  "route_app E N place m c sv = do {
     r \<leftarrow> handle_app place m (sv\<lparr>msgs_in := msgs_in sv + 1\<rparr>);
     (case r of
        Inl e \<Rightarrow> Some (Inl e)
      | Inr (evs, sv) \<Rightarrow> map_option Inr (send_reports E N evs c sv)) }"

fun route_apps ::
  "Env \<Rightarrow> Net \<Rightarrow> (heap \<Rightarrow> addr) \<Rightarrow> AppMessage list \<Rightarrow> Conn \<Rightarrow> Server \<Rightarrow>
     (exn + (bool \<times> Conn \<times> Server)) option"
where
  "route_apps E N place [] c sv = Some (Inr (True, c, sv))"
| "route_apps E N place (m # ms) c sv = do {
     r \<leftarrow> route_app E N place m c sv;
     (case r of
        Inl e \<Rightarrow> Some (Inl e)
      | Inr (sent', c, sv) \<Rightarrow> do {
          r \<leftarrow> route_apps E N place ms c sv;
          (case r of Inl e \<Rightarrow> Some (Inl e)
           | Inr (sent'', c, sv) \<Rightarrow> Some (Inr (sent' \<and> sent'', c, sv))) }) }"

section \<open>The loop of a connection\<close>

text \<open>
  What one round of \<^verbatim>\<open>poll\<close> and \<^verbatim>\<open>recv\<close> gives: an error (interrupted or not), nothing for
  250 ms, a closed connection, or bytes. The times are those of \<^verbatim>\<open>Clock::now()\<close>.
\<close>

datatype Input = PollError bool | Idle time_point | Closed | Data string time_point

definition open_session :: "ServerConfig \<Rightarrow> Session" where
  "open_session c = new_session
     \<lparr>sender_comp_id = srv_sender_comp_id c, target_comp_id = '''', heartbeat_secs = srv_heartbeat_secs c,
      reset_on_logon = True, outbound_history_size = 10000\<rparr> kSohWire"

text \<open>
  What an iteration does before it routes messages: it answers the bytes read and runs the
  timers. It returns whether the connection goes on and the messages to route.
\<close>

definition read_phase ::
  "Env \<Rightarrow> Net \<Rightarrow> string \<Rightarrow> time_point \<Rightarrow> Conn \<Rightarrow> Server \<Rightarrow> (exn + (bool \<times> AppMessage list \<times> Conn \<times> Server)) option"
where
  "read_phase E N bytes now c sv = do {
     r \<leftarrow> on_bytes E bytes (conn_session c);
     (case r of
        Inl e \<Rightarrow> Some (Inl e)
      | Inr (st, s) \<Rightarrow>
          (let (tstep, s) = tick E now s in do {
             (sent', c, sv) \<leftarrow> write_outs N (step_out st @ step_out tstep) (c\<lparr>conn_session := s\<rparr>) sv;
             Some (Inr (\<not> step_disconnect st \<and> \<not> step_disconnect tstep \<and> sent', step_app st, c, sv)) })) }"

definition tick_phase ::
  "Env \<Rightarrow> Net \<Rightarrow> time_point \<Rightarrow> Conn \<Rightarrow> Server \<Rightarrow> (bool \<times> Conn \<times> Server) option"
where
  "tick_phase E N now c sv =
     (let (tstep, s) = tick E now (conn_session c) in do {
        (sent', c, sv) \<leftarrow> write_outs N (step_out tstep) (c\<lparr>conn_session := s\<rparr>) sv;
        Some (sent' \<and> \<not> step_disconnect tstep, c, sv) })"

definition session_iter ::
  "Env \<Rightarrow> Net \<Rightarrow> (heap \<Rightarrow> addr) \<Rightarrow> Input \<Rightarrow> Conn \<Rightarrow> Server \<Rightarrow> (exn + (bool \<times> Conn \<times> Server)) option"
where
  "session_iter E N place i c sv =
     (case i of
        PollError interrupted \<Rightarrow> Some (Inr (interrupted, c, sv))
      | Idle now \<Rightarrow> map_option Inr (tick_phase E N now c sv)
      | Closed \<Rightarrow> Some (Inr (False, c, sv))
      | Data bytes now \<Rightarrow> do {
          r \<leftarrow> read_phase E N bytes now c sv;
          (case r of
             Inl e \<Rightarrow> Some (Inl e)
           | Inr (continue, ms, c, sv) \<Rightarrow> do {
               r \<leftarrow> route_apps E N place ms c sv;
               (case r of
                  Inl e \<Rightarrow> Some (Inl e)
                | Inr (sent', c, sv) \<Rightarrow> Some (Inr (continue \<and> sent', c, sv))) }) })"

text \<open>The inputs are those of the rounds begun while \<^verbatim>\<open>running_\<close> is set.\<close>

fun session_loop ::
  "Env \<Rightarrow> Net \<Rightarrow> (heap \<Rightarrow> addr) \<Rightarrow> Input list \<Rightarrow> Conn \<Rightarrow> Server \<Rightarrow> (exn + (Conn \<times> Server)) option"
where
  "session_loop E N place [] c sv = Some (Inr (c, sv))"
| "session_loop E N place (i # is) c sv = do {
     r \<leftarrow> session_iter E N place i c sv;
     (case r of
        Inl e \<Rightarrow> Some (Inl e)
      | Inr (continue, c, sv) \<Rightarrow> if continue then session_loop E N place is c sv else Some (Inr (c, sv))) }"

end
