(* ===== verification/Net_Server_Spec.thy ===== *)
theory Net_Server_Spec
  imports Net_Server
begin

text \<open>
  The state the connections share: every message routed to the engine keeps the book
  sound and the order numbers unique.
\<close>

section \<open>Where orders come from\<close>

definition taken :: "Order \<Rightarrow> (Price \<times> entry list) list \<Rightarrow> Event \<Rightarrow> bool" where
  "taken g ls ev \<longleftrightarrow> (\<exists>t xs. ev = TradeEv t \<and> (trade_price t, xs) \<in> set ls \<and> xs \<noteq> [] \<and>
     aggressor_id t = order_id g \<and> aggressor_clord t = clord_id g)"

lemma taken_mono: "taken g ls ev \<Longrightarrow> taken g (l # ls) ev"
  unfolding taken_def by force

lemma taken_fill:
  assumes "ev \<in> set (fill_trades g p xs qs)" and "xs \<noteq> []"
  shows "taken g ((p, xs) # ls) ev"
proof -
  from assms(1) have "\<exists>t. ev = TradeEv t \<and> trade_price t = p \<and> aggressor_id t = order_id g \<and> aggressor_clord t = clord_id g"
    by (induction g p xs qs rule: fill_trades.induct) (auto simp: mk_trade_def split: if_splits)
  with assms(2) show ?thesis unfolding taken_def by force
qed

lemma abs_match_taken: "abs_match al g r ls = (ls', r', tr) \<Longrightarrow> ev \<in> set tr \<Longrightarrow> taken g ls ev"
proof (induction ls arbitrary: r ls' tr)
  case (Cons l ls)
  obtain p xs where l: "l = (p, xs)" by (cases l)
  from Cons.prems(1) [unfolded l] show ?case
  proof (cases rule: abs_match_cases)
    case empty
    show ?thesis by (rule taken_mono [OF Cons.IH [OF empty(2) Cons.prems(2)]])
  next
    case stop
    with Cons.prems(2) show ?thesis by simp
  next
    case exact
    with taken_fill Cons.prems(2) show ?thesis unfolding l by blast
  next
    case (more ls2 tr2)
    then consider "ev \<in> set (fill_trades g p xs (al r (leaves xs)))" | "ev \<in> set tr2" using Cons.prems(2) by auto
    then show ?thesis
    proof cases
      case 1
      show ?thesis unfolding l by (rule taken_fill [OF 1 more(1)])
    next
      case 2
      show ?thesis by (rule taken_mono [OF Cons.IH [OF more(5) 2]])
    qed
  qed
qed simp

lemma abs_submit_entries:
  assumes wf: "abook_wf A" and sub: "abs_submit al a v A = (A', r, evs)" and e: "e \<in> set (book_entries A')"
  shows "same_order (a, v) e \<or> (\<exists>e' \<in> set (book_entries A). same_order e' e)"
proof -
  let ?op = "opposite (own_side v)"
  obtain ls r' tr where m: "abs_match al v (leaves_qty v) (A ?op) = (ls, r', tr)" by (rule prod_cases3)
  let ?A1 = "A(?op := sweep_levels ls)"
  have A': "A' = (if r' = 0 then ?A1 else abs_rest a (v\<lparr>leaves_qty := r'\<rparr>) ?A1)"
    using sub m by (auto simp: abs_submit_def Let_def)
  have wf1: "abook_wf ?A1" by (rule abook_wf_match_sweep [OF wf m])
  have "e \<in> insert (a, v\<lparr>leaves_qty := r'\<rparr>) (set (book_entries ?A1))"
    using e set_abs_rest [OF wf1] by (auto simp: A' split: if_splits)
  then consider "e = (a, v\<lparr>leaves_qty := r'\<rparr>)" | "e \<in> set (book_entries ?A1)" by blast
  then show ?thesis
  proof cases
    case 1
    then show ?thesis by (simp add: same_order_def own_side_def index_key_def)
  next
    case 2
    then obtain sd p xs where x: "(p, xs) \<in> set (?A1 sd)" "e \<in> set xs" unfolding book_entries_mem by blast
    show ?thesis
    proof (cases "sd = ?op")
      case True
      with x obtain ys where "(p, ys) \<in> set ls" "e \<in> set ys" by (auto simp: sweep_levels_mem)
      from abs_match_same_order [OF m this] obtain zs x where
        z: "(p, zs) \<in> set (A ?op)" "x \<in> set zs" "same_order x e" by blast
      have "x \<in> set (book_entries A)" unfolding book_entries_mem using z(1,2) by (intro exI conjI)
      with z(3) show ?thesis by (intro disjI2 bexI [of _ x])
    next
      case False
      have "same_order e e" by (simp add: same_order_def)
      moreover have "e \<in> set (book_entries A)" unfolding book_entries_mem
        using x False by (intro exI [of _ sd] exI [of _ p] exI [of _ xs]) simp
      ultimately show ?thesis by (intro disjI2 bexI [of _ e])
    qed
  qed
qed

lemma submit_origin:
  assumes E: "engine_rep algo (h, b) A" and a: "h a = None"
    and key: "find b (session v) (clord_id v) = None" and adm: "admits algo h v"
    and s: "submit algo (h(a \<mapsto> v)) b a [] = Some (h', b', evs)" and w: "h' c = Some w"
  shows "\<exists>u. (h(a \<mapsto> v)) c = Some u \<and> order_id w = order_id u \<and> price w = price u \<and> clord_id w = clord_id u"
proof -
  obtain A' r where A': "abs_submit (level_alloc algo) a (payload v) A = (A', r, evs)" "engine_rep algo (h', b') A'"
    by (rule submitted [OF E a key adm s])
  note rep' = engine_repD(1,4) [OF A'(2)]
  obtain u' where u': "(c, u') \<in> set (book_entries A')" using w rep'(2) by force
  from book_rep_mem [OF rep'(1) u'] w have pw: "payload w = u'" by simp
  from abs_submit_entries [OF book_repD(2) [OF engine_repD(1) [OF E]] A'(1) u']
  consider "same_order (a, payload v) (c, u')" | e where "e \<in> set (book_entries A)" "same_order e (c, u')" by blast
  then show ?thesis
  proof cases
    case 1
    with pw show ?thesis by (auto simp: same_order_def index_key_def intro: ClOrdID.equality)
  next
    case 2
    obtain d y where e: "e = (d, y)" by (cases e)
    from book_rep_mem [OF engine_repD(1) [OF E] 2(1) [unfolded e]] obtain z where z: "h d = Some z" "payload z = y" by blast
    with 2(2) e pw a show ?thesis by (auto simp: same_order_def index_key_def intro: ClOrdID.equality)
  qed
qed

lemma submit_orders:
  assumes "engine_rep algo (h, b) A" and "h a = None" and "find b (session v) (clord_id v) = None" and "admits algo h v"
    and "submit algo (h(a \<mapsto> v)) b a [] = Some (h', b', evs)" and "h' c = Some w"
  shows "\<exists>u. (h(a \<mapsto> v)) c = Some u \<and> order_id w = order_id u \<and> price w = price u"
  using submit_origin [OF assms] by blast

text \<open>What a submission adds to the memory: at most its own order, and at most its quantity.\<close>

lemma submit_size:
  assumes E: "engine_rep algo (h, b) A" and a: "h a = None"
    and key: "find b (session v) (clord_id v) = None" and adm: "admits algo h v"
    and s: "submit algo (h(a \<mapsto> v)) b a [] = Some (h', b', evs)"
  shows "heap_volume h' \<le> heap_volume h + unat (leaves_qty v)" "card (dom h') \<le> Suc (card (dom h))"
proof -
  obtain A' r where A': "abs_submit (level_alloc algo) a (payload v) A = (A', r, evs)" "engine_rep algo (h', b') A'"
    by (rule submitted [OF E a key adm s])
  have wf: "abook_wf A" by (rule book_repD(2) [OF engine_repD(1) [OF E]])
  have "own_side (payload v) = own_side v" by (simp add: own_side_def)
  then have "volume (book_entries A') + traded evs = volume (book_entries A) + unat r" "unat (leaves_qty v) = unat r + traded evs"
    using matching.abs_submit_conserves [OF A'(1) wf engine_fits [OF E]] by simp_all
  then show "heap_volume h' \<le> heap_volume h + unat (leaves_qty v)"
    using heap_volume_rep [OF engine_repD(1,4) [OF E]] heap_volume_rep [OF engine_repD(1,4) [OF A'(2)]] by simp
  have "finite (dom h)" using engine_repD(4) [OF E] by simp
  moreover have "dom h' \<subseteq> insert a (dom h)"
    using submit_orders [OF E a key adm s] by (fastforce split: if_splits)
  ultimately show "card (dom h') \<le> Suc (card (dom h))"
    using card_mono [of "insert a (dom h)" "dom h'"] by (simp add: card_insert_if split: if_splits)
qed

lemma cancel_orders:
  assumes E: "engine_rep algo (h, b) A" and s: "cancel h b i k = Some ((h', b'), res)" and w: "h' c = Some w"
  shows "\<exists>u. h c = Some u \<and> order_id w = order_id u \<and> price w = price u"
proof (cases "index b (i, clord_value k)")
  case None
  from cancel_unknown [OF None] s w show ?thesis by auto
next
  case (Some a)
  then obtain v where v: "(a, v) \<in> set (book_entries A)" "index_key v = (i, clord_value k)"
    using index_repD [OF book_repD(3) [OF engine_repD(1) [OF E]]] by blast
  from engine_cancel [OF E v] s have E': "engine_rep algo (h', b') (abs_remove a A)" by auto
  obtain u where u: "(c, u) \<in> set (book_entries (abs_remove a A))" using w engine_repD(4) [OF E'] by force
  then have "(c, u) \<in> set (book_entries A)" by (simp add: book_entries_abs_remove)
  from book_rep_mem [OF engine_repD(1) [OF E] this] book_rep_mem [OF engine_repD(1) [OF E'] u] w
  obtain z where "h c = Some z" "payload z = payload w" by auto
  then show ?thesis using payload_eqD(1,5) by metis
qed

section \<open>The state the connections share\<close>

definition orders_ok :: "OrderId \<Rightarrow> heap \<Rightarrow> bool" where
  "orders_ok n h \<longleftrightarrow>
     (\<forall>a v. h a = Some v \<longrightarrow> 0 < order_id v \<and> order_id v < n \<and> - (2 ^ 63) \<le> price v \<and> price v < 2 ^ 63) \<and>
     (\<forall>a b v w. h a = Some v \<longrightarrow> h b = Some w \<longrightarrow> order_id v = order_id w \<longrightarrow> a = b)"

definition server_ok :: "Server \<Rightarrow> bool" where
  "server_ok sv \<longleftrightarrow> reachable (srv_algo (sv_cfg sv)) (sv_heap sv, sv_book sv) \<and> 0 < next_order_id sv \<and>
     orders_ok (next_order_id sv) (sv_heap sv)"

text \<open>
  What the engine needs of a message and of the memory allocator: a fresh address, a
  client order id that is not resting, and quantities and numbers within their range.
\<close>

definition acceptable :: "(heap \<Rightarrow> addr) \<Rightarrow> Message \<Rightarrow> Server \<Rightarrow> bool" where
  "acceptable place m sv \<longleftrightarrow> sv_heap sv (place (sv_heap sv)) = None \<and> next_order_id sv < next_order_id sv + 1 \<and>
     (case new_order m (next_order_id sv) of
        Inl _ \<Rightarrow> True
      | Inr v \<Rightarrow> find (sv_book sv) 0 (clord_id v) = None \<and> admits (srv_algo (sv_cfg sv)) (sv_heap sv) v)"

lemma stoll_bounds: "stoll s = Inr p \<Longrightarrow> - (2 ^ 63) \<le> p \<and> p < 2 ^ 63"
  by (auto simp: stoll_def Let_def split: prod.splits if_splits)

lemma new_order_fields:
  assumes "new_order m n = Inr v"
  shows "order_id v = n" "session v = 0" "- (2 ^ 63) \<le> price v" "price v < 2 ^ 63" "leaves_qty v = orig_qty v"
    "clord_value (clord_id v) = value_or (get m tag_ClOrdID) ''''"
  using assms by (auto simp: new_order_def dest!: stoll_bounds split: sum.splits)

lemma orders_ok_from:
  assumes "orders_ok n h" and "\<And>c w. h' c = Some w \<Longrightarrow> \<exists>u. h c = Some u \<and> order_id w = order_id u \<and> price w = price u"
  shows "orders_ok n h'"
  unfolding orders_ok_def
proof (intro conjI allI impI)
  fix a v assume "h' a = Some v"
  with assms(2) obtain u where "h a = Some u" "order_id v = order_id u" "price v = price u" by blast
  with assms(1) show "0 < order_id v" "order_id v < n" "- (2 ^ 63) \<le> price v" "price v < 2 ^ 63"
    by (auto simp: orders_ok_def)
next
  fix a b v w assume 1: "h' a = Some v" "h' b = Some w" "order_id v = order_id w"
  obtain u where u: "h a = Some u" "order_id v = order_id u" using assms(2) [OF 1(1)] by blast
  obtain z where z: "h b = Some z" "order_id w = order_id z" using assms(2) [OF 1(2)] by blast
  show "a = b" using assms(1) u z 1(3) unfolding orders_ok_def by metis
qed

lemma orders_ok_insert:
  assumes "orders_ok n h" and "n < n + 1" and "0 < n" and "order_id v = n" and "- (2 ^ 63) \<le> price v" and "price v < 2 ^ 63"
  shows "orders_ok (n + 1) (h(a \<mapsto> v))"
proof -
  have old: "0 < order_id w" "order_id w < n" "- (2 ^ 63) \<le> price w" "price w < 2 ^ 63" if "h c = Some w" for c w
    using assms(1) that by (auto simp: orders_ok_def)
  have uniq: "c = d" if "h c = Some u" "h d = Some w" "order_id u = order_id w" for c d u w
    using assms(1) that unfolding orders_ok_def by blast
  show ?thesis unfolding orders_ok_def
    using old less_trans [OF old(2) assms(2)] uniq assms(2-) old(2) [THEN less_imp_neq]
    by (intro conjI allI impI) (auto split: if_splits)
qed

lemma submit_app_ok:
  assumes sv: "server_ok sv" and acc: "acceptable place m sv" and v: "new_order m (next_order_id sv) = Inr v"
  shows "\<exists>h b evs. submit (srv_algo (sv_cfg sv)) ((sv_heap sv)(place (sv_heap sv) \<mapsto> v)) (sv_book sv) (place (sv_heap sv)) []
      = Some (h, b, evs) \<and>
    submit_app place m sv = Some (Inr (evs, sv\<lparr>next_order_id := next_order_id sv + 1, sv_heap := h, sv_book := b\<rparr>)) \<and>
    server_ok (sv\<lparr>next_order_id := next_order_id sv + 1, sv_heap := h, sv_book := b\<rparr>)"
proof -
  let ?al = "srv_algo (sv_cfg sv)" and ?h = "sv_heap sv" and ?b = "sv_book sv"
  let ?a = "place ?h" and ?n = "next_order_id sv"
  obtain A where E: "engine_rep ?al (?h, ?b) A" using sv reachable_rep unfolding server_ok_def by blast
  have a: "?h ?a = None" and key: "find ?b (session v) (clord_id v) = None" and adm: "admits ?al ?h v" and n: "?n < ?n + 1"
    using acc v new_order_fields(2) [OF v] by (auto simp: acceptable_def)
  obtain A' r evs' where "abs_submit (level_alloc ?al) ?a (payload v) A = (A', r, evs')" by (rule prod_cases3)
  from engine_submit [OF E a key adm this] obtain h b evs where s: "submit ?al (?h(?a \<mapsto> v)) ?b ?a [] = Some (h, b, evs)" by blast
  have "reachable ?al (h, b)"
    using sv s by (intro reachable.step [OF _ engine_step.submit_step [OF a key adm s]]) (simp add: server_ok_def)
  moreover have "orders_ok (?n + 1) h"
  proof (rule orders_ok_from)
    show "orders_ok (?n + 1) (?h(?a \<mapsto> v))"
      using sv n new_order_fields [OF v] by (intro orders_ok_insert) (simp_all add: server_ok_def)
  qed (rule submit_orders [OF E a key adm s])
  moreover have "0 < ?n + 1" by (rule le_less_trans [OF word_zero_le n])
  ultimately show ?thesis using s v by (simp add: submit_app_def server_ok_def Let_def)
qed

lemma cancel_app_ok:
  assumes sv: "server_ok sv"
  shows "\<exists>h b res. cancel (sv_heap sv) (sv_book sv) 0 \<lparr>clord_value = value_or (get m tag_OrigClOrdID) ''''\<rparr> = Some ((h, b), res) \<and>
    (ok res \<longleftrightarrow> find (sv_book sv) 0 \<lparr>clord_value = value_or (get m tag_OrigClOrdID) ''''\<rparr> \<noteq> None) \<and>
    find b 0 \<lparr>clord_value = value_or (get m tag_OrigClOrdID) ''''\<rparr> = None \<and>
    server_ok (sv\<lparr>sv_heap := h, sv_book := b\<rparr>)"
proof -
  let ?al = "srv_algo (sv_cfg sv)" and ?k = "\<lparr>clord_value = value_or (get m tag_OrigClOrdID) ''''\<rparr>"
  obtain A where E: "engine_rep ?al (sv_heap sv, sv_book sv) A" using sv reachable_rep unfolding server_ok_def by blast
  from engine_cancel_total [OF E, of 0 ?k] obtain h b res where
    c: "cancel (sv_heap sv) (sv_book sv) 0 ?k = Some ((h, b), res)" "ok res \<longleftrightarrow> find (sv_book sv) 0 ?k \<noteq> None" "find b 0 ?k = None"
    by blast
  have "reachable ?al (h, b)"
    using sv by (intro reachable.step [OF _ engine_step.cancel_step [OF c(1)]]) (simp add: server_ok_def)
  moreover have "orders_ok (next_order_id sv) h"
  proof (rule orders_ok_from)
    show "orders_ok (next_order_id sv) (sv_heap sv)" using sv by (simp add: server_ok_def)
  qed (rule cancel_orders [OF E c(1)])
  ultimately show ?thesis using c sv by (simp add: server_ok_def)
qed

lemma handle_app_ok:
  assumes sv: "server_ok sv" and acc: "acceptable place m sv"
  shows "\<exists>r. handle_app place m sv = Some r \<and>
    (case r of Inl _ \<Rightarrow> True | Inr (_, sv') \<Rightarrow> server_ok sv' \<and> sv_cfg sv' = sv_cfg sv)"
proof -
  have "\<exists>r. submit_app place m sv = Some r \<and> (case r of Inl _ \<Rightarrow> True | Inr (_, sv') \<Rightarrow> server_ok sv' \<and> sv_cfg sv' = sv_cfg sv)"
  proof (cases "new_order m (next_order_id sv)")
    case (Inl e)
    then show ?thesis by (simp add: submit_app_def Let_def)
  next
    case (Inr v)
    from submit_app_ok [OF sv acc Inr] show ?thesis by auto
  qed
  moreover have "\<exists>r. cancel_app m sv = Some r \<and> (case r of Inl _ \<Rightarrow> True | Inr (_, sv') \<Rightarrow> server_ok sv' \<and> sv_cfg sv' = sv_cfg sv)"
    using cancel_app_ok [OF sv, of m] by (auto simp: cancel_app_def Let_def)
  ultimately show ?thesis using sv by (simp add: handle_app_def Let_def)
qed

lemma new_server_ok: "server_ok (new_server c)"
  by (simp add: server_ok_def new_server_def reachable.start orders_ok_def)

end
