(* ===== verification/FIX_Apps.thy ===== *)
theory FIX_Apps
  imports FIX_Delivery
begin

text \<open>
  What \<^verbatim>\<open>on_bytes\<close> hands to the application: each delivered message was parsed from the
  bytes read, so its values do not contain the separator, and there are at most as many as
  bytes.
\<close>

lemma step_app_simps:
  "step_app (fst (out_step r)) = []" "step_app (fst (disconnected p)) = step_app (fst p)" "step_app no_step = []"
  by (simp_all add: out_step_def disconnected_def no_step_def)

lemma out_step_app: "out_step r = (st, s') \<Longrightarrow> step_app st = []"
  by (metis fst_conv step_app_simps(1))

lemma dispatch_app:
  assumes "dispatch E m sq s = Some (Inr (st, s'))"
  shows "step_app st \<in> {[], [m]}"
  using assms
  by (auto simp: dispatch_def Let_def step_app_simps disconnected_def dest!: out_step_app
      split: if_splits sum.splits bind_splits prod.splits)

lemma handle_message_app:
  assumes "handle_message E m s = Some (Inr (st, s'))"
  shows "step_app st \<in> {[], [m]}"
proof -
  have "step_app (fst (handle_logon E m q s)) = []" for q
    by (simp add: handle_logon_alt step_app_simps)
  then have logon: "handle_logon E m q s = (st, s') \<Longrightarrow> step_app st = []" for q by (metis fst_conv)
  have low: "disconnected (out_step r) = (st, s') \<Longrightarrow> step_app st = []" for r by (metis fst_conv step_app_simps(1,2))
  from assms show ?thesis unfolding handle_message_def Let_def
    by (auto split: sum.splits if_splits dest: logon low out_step_app dispatch_app)
qed

definition apps_ok :: "Session \<Rightarrow> SessionStep \<Rightarrow> SessionStep \<Rightarrow> bool" where
  "apps_ok s tot st \<longleftrightarrow> (\<exists>ms. step_app st = step_app tot @ ms \<and> list_all (values_ok (soh s)) ms \<and> length ms \<le> length (in_buf s))"

lemma parsed_values:
  assumes "session_wf s" and "length (in_buf s) \<le> 2 ^ 58" and "parse_one (soh s) (in_buf s) = Some pr" "err pr = PE_None"
  shows "values_ok (soh s) (msg pr)"
proof -
  have nd: "\<not> is_digit (soh s)" using plain_ok(1) [OF session_wf_plain [OF assms(1)]] by (simp add: sep_ok_def)
  show ?thesis using parse_one_values [OF assms(3,4) _ nd] assms(2) by (fastforce simp: values_ok_def text_ok_def)
qed

lemma on_bytes_loop_apps: "loop_ready E s \<Longrightarrow> on_bytes_loop E tot s = Some (Inr (st, s')) \<Longrightarrow> apps_ok s tot st"
proof (induction "length (in_buf s)" arbitrary: s tot rule: less_induct)
  case less
  note s = less.prems(1) [unfolded loop_ready_def]
  from less.prems(1) show ?case
  proof (cases rule: on_bytes_loop_cases [where tot = tot])
    case idle
    with less.prems(2) show ?thesis by (simp add: apps_ok_def)
  next
    case bad
    with less.prems(2) show ?thesis by (auto simp: apps_ok_def)
  next
    case throw
    with less.prems(2) show ?thesis by simp
  next
    case (round pr st1 s1)
    have v: "list_all (values_ok (soh s)) (step_app st1)" "length (step_app st1) \<le> 1"
      using handle_message_app [OF round(3)] parsed_values [OF _ _ round(1,2)] s by auto
    show ?thesis
    proof (cases "step_disconnect st1")
      case True
      with less.prems(2) round(7,9) v show ?thesis by (auto simp: apps_ok_def)
    next
      case False
      with less.prems(2) round(9) have "on_bytes_loop E (totalled tot st1) s1 = Some (Inr (st, s'))" by simp
      from less.hyps [OF round(7,4) this] obtain ms where "step_app st = step_app tot @ step_app st1 @ ms"
          "list_all (values_ok (soh s)) ms" "length ms \<le> length (in_buf s1)" by (auto simp: apps_ok_def round(5))
      then show ?thesis using v round(7) by (auto simp: apps_ok_def)
    qed
  qed
qed

lemma on_bytes_apps:
  assumes "session_wf s" and "env_ok E (soh s)" and "room (length (in_buf s @ data)) s"
    and "length (in_buf s @ data) \<le> 2 ^ 58" and "tame (soh s) (in_buf s @ data)"
    and "on_bytes E data s = Some (Inr (st, s'))"
  shows "list_all (values_ok (soh s)) (step_app st)" "length (step_app st) \<le> length (in_buf s @ data)"
  using on_bytes_loop_apps [of E "s\<lparr>in_buf := in_buf s @ data\<rparr>" no_step st s'] assms
  by (auto simp: on_bytes_def apps_ok_def no_step_def loop_ready_def)

end
