(* ===== verification/Net_Wire_Spec.thy ===== *)
theory Net_Wire_Spec
  imports Net_Server_Spec FIX_Apps
begin

text \<open>
  The connection side of the server: what is written, what a client reads back from an
  order or a cancel it entered, and that one round of a connection's loop keeps the
  connection and the shared state sound whatever the bytes and whatever the network does.
\<close>

section \<open>Writing\<close>

text \<open>What \<^verbatim>\<open>::send\<close> documents: it takes at most the bytes it is given.\<close>

definition net_law :: "Net \<Rightarrow> bool" where
  "net_law N \<longleftrightarrow> (\<forall>k s. net_send N k s \<le> int (length s))"

text \<open>A peer that keeps reading.\<close>

definition net_up :: "Net \<Rightarrow> bool" where
  "net_up N \<longleftrightarrow> net_law N \<and> (\<forall>k s. s \<noteq> [] \<longrightarrow> net_send N k s > 0)"

text \<open>
  A loop over \<^verbatim>\<open>::send\<close> on some state that holds the bytes sent and the number of calls. The
  server's \<^verbatim>\<open>write_all\<close> is one, and so is the \<^verbatim>\<open>send_all\<close> of the replay benchmark.
\<close>

locale send_loop =
  fixes loop :: "Net \<Rightarrow> string \<Rightarrow> 'c \<Rightarrow> (bool \<times> 'c) option"
    and wire :: "'c \<Rightarrow> string" and calls :: "'c \<Rightarrow> nat" and put :: "string \<Rightarrow> nat \<Rightarrow> 'c \<Rightarrow> 'c"
  assumes loop_nil: "loop N [] c = Some (True, c)"
    and loop_step: "s \<noteq> [] \<Longrightarrow> loop N s c =
      (let w = net_send N (calls c) s in
       if w \<le> 0 then Some (False, put (wire c) (Suc (calls c)) c)
       else if nat w > length s then None
       else loop N (drop (nat w) s) (put (wire c @ take (nat w) s) (Suc (calls c)) c))"
    and put_laws: "wire (put x k c) = x" "calls (put x k c) = k" "put (wire c) (calls c) c = c" "put x k (put y l c) = put x k c"
begin

lemma loop_total:
  assumes "net_law N"
  shows "\<exists>b k n. loop N s c = Some (b, put (wire c @ take n s) k c) \<and> (b \<longrightarrow> n = length s) \<and> n \<le> length s \<and> (net_up N \<longrightarrow> b)"
proof (induction "length s" arbitrary: s c rule: less_induct)
  case less
  let ?w = "net_send N (calls c) s"
  consider (stop) "s = []" | (fail) "s \<noteq> []" "?w \<le> 0" | (more) "s \<noteq> []" "\<not> ?w \<le> 0" by blast
  then show ?case
  proof cases
    case stop
    then show ?thesis by - (rule exI [of _ True], rule exI [of _ "calls c"], simp add: loop_nil put_laws)
  next
    case fail
    then have "\<not> net_up N" by (auto simp: net_up_def not_less)
    with fail show ?thesis by - (rule exI [of _ False], rule exI [of _ "Suc (calls c)"], rule exI [of _ 0], simp add: loop_step)
  next
    case more
    let ?d = "put (wire c @ take (nat ?w) s) (Suc (calls c)) c"
    have w: "nat ?w \<le> length s" "0 < nat ?w" using assms more by (auto simp: net_law_def nat_le_iff)
    have "length (drop (nat ?w) s) < length s" using w more by (simp add: diff_less)
    from less [OF this, of ?d] obtain b k n where
      h: "loop N (drop (nat ?w) s) ?d = Some (b, put (wire c @ take (nat ?w + n) s) k c)"
        "b \<longrightarrow> n = length s - nat ?w" "n \<le> length s - nat ?w" "net_up N \<longrightarrow> b" by (auto simp: put_laws take_add)
    then have "loop N s c = Some (b, put (wire c @ take (nat ?w + n) s) k c)" using more w by (simp add: loop_step Let_def)
    moreover have "b \<longrightarrow> nat ?w + n = length s" "nat ?w + n \<le> length s" using h(2,3) w(1) by auto
    ultimately show ?thesis using h(4) by blast
  qed
qed

lemma loop_up: "net_up N \<Longrightarrow> \<exists>k. loop N s c = Some (True, put (wire c @ s) k c)"
  using loop_total [of N s c] by (auto simp: net_up_def)

end

interpretation server_writer: send_loop write_all conn_wire conn_sends "\<lambda>x k c. c\<lparr>conn_wire := x, conn_sends := k\<rparr>"
proof unfold_locales
  show "write_all N [] c = Some (True, c)" for N c by (simp add: write_all.simps)
  show "write_all N s c = (let w = net_send N (conn_sends c) s in
      if w \<le> 0 then Some (False, c\<lparr>conn_wire := conn_wire c, conn_sends := Suc (conn_sends c)\<rparr>)
      else if length s < nat w then None
      else write_all N (drop (nat w) s) (c\<lparr>conn_wire := conn_wire c @ take (nat w) s, conn_sends := Suc (conn_sends c)\<rparr>))"
    if "s \<noteq> []" for s N c using that by (subst write_all.simps, cases c) (simp add: Let_def)
qed simp_all

lemmas write_all_total = server_writer.loop_total

lemmas write_all_up = server_writer.loop_up

section \<open>Reports\<close>

definition event_ok :: "char \<Rightarrow> Event \<Rightarrow> bool" where
  "event_ok sep ev \<longleftrightarrow>
     (case ev of
        AckEv a \<Rightarrow> text_ok sep (clord_value (ack_clord_id a))
      | TradeEv t \<Rightarrow> text_ok sep (clord_value (aggressor_clord t)) \<and> - (2 ^ 63) \<le> trade_price t \<and> trade_price t < 2 ^ 63
      | OrdRejectEv r \<Rightarrow> text_ok sep (clord_value (rej_clord_id r)) \<and> text_ok sep (rej_reason r)
      | CancelAckEv c \<Rightarrow> text_ok sep (clord_value (ca_clord_id c)) \<and> text_ok sep (clord_value (ca_orig_clord_id c))
      | ReplaceAckEv _ \<Rightarrow> False)"

lemma event_ok_report: "event_ok sep ev \<Longrightarrow> \<exists>body. report_body ev = Some body"
  by (auto simp: event_ok_def report_body_def split: Event.splits)

lemma report_sendable:
  assumes "plain sep" and "event_ok sep ev" and "report_body ev = Some body"
  shows "sendable sep body"
proof -
  note l = length_show_int [of 37] length_show_int [of 11] length_show_int [of 17] length_show_int [of 150]
    length_show_int [of 39] length_show_int [of 151] length_show_int [of 14] length_show_int [of 6] length_show_int [of 32]
    length_show_int [of 31] length_show_int [of 58] length_show_int [of 41] length_show_u64
  show ?thesis
  proof (cases ev)
    case (TradeEv t)
    with assms l(1-12) l(13) [of "aggressor_id t"] l(13) [of "trade_qty t"] length_show_int64 [of "trade_price t"] show ?thesis
      by (auto simp: event_ok_def report_body_def exec_report_for_trade_def Let_def sendable_def fields_ok_def field_ok_def
          header_tags_def text_ok_def)
  next
    case (AckEv a)
    with assms l(1-12) l(13) [of "ack_id a"] show ?thesis
      by (auto simp: event_ok_def report_body_def exec_report_for_ack_def sendable_def fields_ok_def field_ok_def
          header_tags_def text_ok_def)
  next
    case (OrdRejectEv r)
    with assms l(1-12) show ?thesis
      by (auto simp: event_ok_def report_body_def sendable_def fields_ok_def field_ok_def header_tags_def text_ok_def)
  next
    case (CancelAckEv c)
    with assms l(1-12) show ?thesis
      by (auto simp: event_ok_def report_body_def sendable_def fields_ok_def field_ok_def header_tags_def text_ok_def)
  next
    case (ReplaceAckEv r)
    with assms(3) show ?thesis by (simp add: report_body_def)
  qed
qed

text \<open>The reports for a list of events, and what the counterparty reads in them.\<close>

fun reports :: "Env \<Rightarrow> EventList \<Rightarrow> Session \<Rightarrow> WireOut list \<times> Session" where
  "reports E [] s = ([], s)"
| "reports E (ev # evs) s =
     (case report_body ev of
        None \<Rightarrow> reports E evs s
      | Some body \<Rightarrow>
          (let (w, s) = send_execution_report E body s; (ws, s) = reports E evs s in (w # ws, s)))"

definition report_of :: "char \<Rightarrow> nat \<Rightarrow> Event \<Rightarrow> WireOut \<Rightarrow> bool" where
  "report_of sep q ev w \<longleftrightarrow> framed sep w \<and>
     peek sep w tag_MsgType = Some msgtype_ExecutionReport \<and> peek sep w tag_MsgSeqNum = Some (show_nat q) \<and>
     (\<forall>f \<in> set (the (report_body ev)). peek sep w (fst f) = Some (snd f))"

fun reported :: "char \<Rightarrow> nat \<Rightarrow> EventList \<Rightarrow> WireOut list \<Rightarrow> bool" where
  "reported sep q [] ws = (ws = [])"
| "reported sep q (ev # evs) ws =
     (case ws of [] \<Rightarrow> False | w # ws' \<Rightarrow> report_of sep q ev w \<and> reported sep (Suc q) evs ws')"

lemma send_reports_up:
  assumes "net_up N"
  shows "\<exists>k. send_reports E N evs c sv = Some (True,
    c\<lparr>conn_session := snd (reports E evs (conn_session c)),
      conn_wire := conn_wire c @ concat (fst (reports E evs (conn_session c))), conn_sends := k\<rparr>,
    sv\<lparr>msgs_out := msgs_out sv + of_nat (length (fst (reports E evs (conn_session c))))\<rparr>)"
proof (induction evs arbitrary: c sv)
  case Nil
  then show ?case by (auto intro: exI [of _ "conn_sends c"])
next
  case (Cons ev evs)
  show ?case
  proof (cases "report_body ev")
    case None
    with Cons.IH [of c sv] show ?thesis by simp
  next
    case (Some body)
    obtain w s where w: "send_execution_report E body (conn_session c) = (w, s)" by fastforce
    from write_all_up [OF assms, of w "c\<lparr>conn_session := s\<rparr>"] obtain k where
      k: "write_all N w (c\<lparr>conn_session := s\<rparr>) = Some (True, c\<lparr>conn_session := s, conn_wire := conn_wire c @ w, conn_sends := k\<rparr>)"
      by auto
    let ?c = "c\<lparr>conn_session := s, conn_wire := conn_wire c @ w, conn_sends := k\<rparr>" and ?sv = "sv\<lparr>msgs_out := msgs_out sv + 1\<rparr>"
    have "send_reports E N (ev # evs) c sv = send_reports E N evs ?c ?sv" using Some w k by simp
    with Cons.IH [of ?c ?sv] Some w show ?thesis by (simp add: case_prod_unfold Let_def add.assoc)
  qed
qed

lemma reports_read:
  assumes "session_wf s" and "env_ok E (soh s)" and "room (length evs) s" and "list_all (event_ok (soh s)) evs"
  shows "reported (soh s) (Suc (unat (out_seq s))) evs (fst (reports E evs s)) \<and> session_wf (snd (reports E evs s)) \<and>
    unat (out_seq (snd (reports E evs s))) = unat (out_seq s) + length evs \<and> soh (snd (reports E evs s)) = soh s"
  using assms
proof (induction evs arbitrary: s)
  case (Cons ev evs)
  have ev: "event_ok (soh s) ev" and r1: "room 1 s" using Cons.prems(3,4) by (simp_all add: room_def)
  then obtain body where b: "report_body ev = Some body" using event_ok_report by blast
  have sb: "sendable (soh s) body" by (rule report_sendable [OF session_wf_plain [OF Cons.prems(1)] ev b])
  from report_sent [OF Cons.prems(1,2) r1 sb] obtain w s1 where
    w: "send_execution_report E body s = (w, s1)" "unat (out_seq s1) = Suc (unat (out_seq s))"
      "peek (soh s) w tag_MsgType = Some msgtype_ExecutionReport" "peek (soh s) w tag_MsgSeqNum = Some (show_u64 (out_seq s1))"
      "\<forall>f \<in> set body. peek (soh s) w (fst f) = Some (snd f)" by blast
  have "session_step E s (snd (send_execution_report E body s))" by (rule session_step.exec_report [OF r1 sb])
  from session_step_wf [OF this Cons.prems(1,2)] w(1) have s1: "session_wf s1" "soh s1 = soh s" by simp_all
  have "framed (soh s) w" using report_framed [OF Cons.prems(1,2) sb] w(1) by simp
  then have "report_of (soh s) (Suc (unat (out_seq s))) ev w" using w b by (simp add: report_of_def show_u64_def)
  moreover have "room (length evs) s1" using Cons.prems(3) w(2) by (simp add: room_def)
  with Cons.IH [of s1] Cons.prems(2,4) s1
  have "reported (soh s) (Suc (Suc (unat (out_seq s)))) evs (fst (reports E evs s1)) \<and> session_wf (snd (reports E evs s1)) \<and>
      unat (out_seq (snd (reports E evs s1))) = unat (out_seq s1) + length evs \<and> soh (snd (reports E evs s1)) = soh s"
    by (simp add: w(2))
  ultimately show ?case using b w(1,2) by (simp add: case_prod_unfold Let_def)
qed simp

text \<open>Reports leave the reading side of a session alone.\<close>

definition carried :: "Env \<Rightarrow> Session \<Rightarrow> Session \<Rightarrow> bool" where
  "carried E s s' \<longleftrightarrow> cfg s' = cfg s \<and> soh s' = soh s \<and> state s' = state s \<and> in_seq s' = in_seq s \<and> in_buf s' = in_buf s \<and>
     timers_armed s' = timers_armed s \<and> test_request_outstanding s' = test_request_outstanding s \<and>
     last_inbound s' = last_inbound s \<and> last_outbound s' \<in> insert (last_outbound s) (range (env_clock E))"

lemma carried_message: "carried E s (snd (build_message E body s))"
  by (auto simp: carried_def build_message_def default_now_def steady_now_from_def retain_outbound_def Let_def)

lemma carried_reports: "carried E s (snd (reports E evs s))"
proof (induction evs arbitrary: s)
  case (Cons ev evs)
  show ?case
  proof (cases "report_body ev")
    case None
    with Cons.IH show ?thesis by simp
  next
    case (Some body)
    obtain w s1 where w: "send_execution_report E body s = (w, s1)" by fastforce
    have "carried E s s1" using carried_message [of E s "(tag_MsgType, msgtype_ExecutionReport) # body"] w by (simp add: send_execution_report_def)
    with Cons.IH [of s1] have "carried E s (snd (reports E evs s1))" by (auto simp: carried_def)
    with Some w show ?thesis by (simp add: case_prod_unfold Let_def)
  qed
qed (simp add: carried_def)

section \<open>Entering an order\<close>

lemma fill_trades_length: "length (fill_trades g px xs qs) \<le> length xs"
  by (induction g px xs qs rule: fill_trades.induct) auto

lemma abs_match_length: "abs_match al g r ls = (ls', r', tr) \<Longrightarrow> length tr \<le> length (concat (map snd ls))"
proof (induction ls arbitrary: r ls' tr)
  case (Cons l ls)
  obtain p xs where l: "l = (p, xs)" by (cases l)
  from Cons.prems [unfolded l] show ?case
  proof (cases rule: abs_match_cases)
    case empty
    with Cons.IH [OF empty(2)] l show ?thesis by simp
  next
    case exact
    with fill_trades_length [of g p xs "al r (leaves xs)"] l show ?thesis by simp
  next
    case (more ls2 tr2)
    with Cons.IH [OF more(5)] fill_trades_length [of g p xs "al r (leaves xs)"] l show ?thesis by simp
  qed (use l in simp)
qed simp

lemma server_orders:
  assumes "server_ok sv"
  obtains A where "engine_rep (srv_algo (sv_cfg sv)) (sv_heap sv, sv_book sv) A"
    "length (book_entries A) = card (dom (sv_heap sv))" "finite (dom (sv_heap sv))"
proof -
  obtain A where E: "engine_rep (srv_algo (sv_cfg sv)) (sv_heap sv, sv_book sv) A"
    using assms reachable_rep unfolding server_ok_def by blast
  have "distinct (map fst (book_entries A))" by (rule abook_wfD(2) [OF book_repD(2) [OF engine_repD(1) [OF E]]])
  from distinct_card [OF this] have "length (book_entries A) = card (dom (sv_heap sv))"
    by (simp add: engine_repD(4) [OF E])
  with E that show thesis by (simp add: engine_repD(4) [OF E])
qed

lemma submit_events_ok:
  assumes sv: "server_ok sv" and acc: "acceptable place m sv" and v: "new_order m (next_order_id sv) = Inr v"
    and cl: "text_ok sep (clord_value (clord_id v))"
    and s: "submit (srv_algo (sv_cfg sv)) ((sv_heap sv)(place (sv_heap sv) \<mapsto> v)) (sv_book sv) (place (sv_heap sv)) [] = Some (h, b, evs)"
  shows "list_all (event_ok sep) evs" "\<exists>tr. evs = AckEv \<lparr>ack_id = order_id v, ack_clord_id = clord_id v\<rparr> # tr"
    "length evs \<le> Suc (card (dom (sv_heap sv)))"
proof -
  let ?al = "srv_algo (sv_cfg sv)" and ?op = "opposite (own_side (payload v))"
  obtain A where E: "engine_rep ?al (sv_heap sv, sv_book sv) A" and card: "length (book_entries A) = card (dom (sv_heap sv))"
    using server_orders [OF sv] by blast
  have a: "sv_heap sv (place (sv_heap sv)) = None" and key: "find (sv_book sv) (session v) (clord_id v) = None"
      and adm: "admits ?al (sv_heap sv) v"
    using acc v new_order_fields(2) [OF v] by (auto simp: acceptable_def)
  obtain A' r where sub: "abs_submit (level_alloc ?al) (place (sv_heap sv)) (payload v) A = (A', r, evs)"
    by (rule submitted [OF E a key adm s])
  obtain ls r' tr where m: "abs_match (level_alloc ?al) (payload v) (leaves_qty (payload v)) (A ?op) = (ls, r', tr)"
    by (rule prod_cases3)
  have evs: "evs = AckEv \<lparr>ack_id = order_id v, ack_clord_id = clord_id v\<rparr> # tr"
    using sub m by (auto simp: abs_submit_def Let_def)
  have "event_ok sep ev" if "ev \<in> set tr" for ev
  proof -
    from abs_match_taken [OF m that] obtain t xs where
      t: "ev = TradeEv t" "(trade_price t, xs) \<in> set (A ?op)" "xs \<noteq> []" "aggressor_clord t = clord_id v"
      by (auto simp: taken_def)
    then obtain e where e: "e \<in> set xs" by (cases xs) auto
    have "price (snd e) = trade_price t"
      using abook_wfD(3) [OF book_repD(2) [OF engine_repD(1) [OF E]] t(2) e] by simp
    moreover obtain d y where dy: "e = (d, y)" by (cases e)
    moreover have "(d, y) \<in> set (book_entries A)" using t(2) e dy unfolding book_entries_mem by blast
    from book_rep_mem [OF engine_repD(1) [OF E] this] obtain z where z: "sv_heap sv d = Some z" "payload z = y" by blast
    then have "- (2 ^ 63) \<le> price z" "price z < 2 ^ 63" using sv by (auto simp: server_ok_def orders_ok_def)
    ultimately show ?thesis using t cl z by (auto simp: event_ok_def)
  qed
  then show "list_all (event_ok sep) evs" using evs cl by (auto simp: list_all_iff event_ok_def)
  show "\<exists>tr. evs = AckEv \<lparr>ack_id = order_id v, ack_clord_id = clord_id v\<rparr> # tr" using evs by blast
  have "length tr \<le> length (book_entries A)"
    using abs_match_length [OF m] by (cases ?op) (simp_all add: book_entries_def side_entries_def)
  then show "length evs \<le> Suc (card (dom (sv_heap sv)))" using evs card by simp
qed

text \<open>What a message makes of the server: reports that can be sent, and at most one order more.\<close>

lemma handle_app_events:
  assumes sv: "server_ok sv" and acc: "acceptable place m sv" and sep: "plain sep" and vals: "values_ok sep m"
    and h: "handle_app place m sv = Some (Inr (evs, sv'))"
  shows "list_all (event_ok sep) evs \<and> length evs \<le> Suc (card (dom (sv_heap sv))) \<and>
    card (dom (sv_heap sv')) \<le> Suc (card (dom (sv_heap sv)))"
proof -
  have vt: "text_ok sep (value_or (get m t) [])" for t
    using values_ok_get [OF vals] by (auto simp: value_or_def text_ok_def split: option.splits)
  obtain A where E: "engine_rep (srv_algo (sv_cfg sv)) (sv_heap sv, sv_book sv) A" and fin: "finite (dom (sv_heap sv))"
    using server_orders [OF sv] by blast
  consider (new) "msg_type m = msgtype_NewOrderSingle" | (cancel) "msg_type m = msgtype_OrderCancelRequest"
    | (other) "msg_type m \<notin> {msgtype_NewOrderSingle, msgtype_OrderCancelRequest}" by blast
  then show ?thesis
  proof cases
    case new
    with h obtain v where v: "new_order m (next_order_id sv) = Inr v"
      by (cases "new_order m (next_order_id sv)") (auto simp: handle_app_def submit_app_def Let_def)
    from submit_app_ok [OF sv acc v] obtain hp b evs1 where
      s: "submit (srv_algo (sv_cfg sv)) ((sv_heap sv)(place (sv_heap sv) \<mapsto> v)) (sv_book sv) (place (sv_heap sv)) [] = Some (hp, b, evs1)"
        "submit_app place m sv = Some (Inr (evs1, sv\<lparr>next_order_id := next_order_id sv + 1, sv_heap := hp, sv_book := b\<rparr>))" by blast
    have eq: "evs = evs1" "sv_heap sv' = hp" using h new s(2) by (auto simp: handle_app_def)
    have "text_ok sep (clord_value (clord_id v))" using vt new_order_fields(6) [OF v] by simp
    note ev = submit_events_ok [OF sv acc v this s(1)]
    have "card (dom hp) \<le> Suc (card (dom (sv_heap sv)))"
      using submit_size(2) [OF E _ _ _ s(1)] acc v new_order_fields(2) [OF v] by (simp add: acceptable_def)
    then show ?thesis using ev eq by simp
  next
    case cancel
    from cancel_app_ok [OF sv, of m] obtain hp b res where
      c: "cancel (sv_heap sv) (sv_book sv) 0 \<lparr>clord_value = value_or (get m tag_OrigClOrdID) []\<rparr> = Some ((hp, b), res)" by blast
    have "dom hp \<subseteq> dom (sv_heap sv)" using cancel_orders [OF E c] by blast
    then have "card (dom hp) \<le> card (dom (sv_heap sv))" using fin by (rule card_mono [rotated])
    moreover have "text_ok sep ''cancel: unknown order''" using sep by (simp add: text_ok_def)
    ultimately show ?thesis using h cancel c vt by (auto simp: handle_app_def cancel_app_def Let_def event_ok_def)
  next
    case other
    with h show ?thesis by (simp add: handle_app_def Let_def)
  qed
qed

text \<open>The order a message describes, when its numbers are printed numbers.\<close>

lemma new_order_wire:
  assumes "map_of body tag_Price = Some (show_int p)" and "- (2 ^ 63) \<le> p" and "p < 2 ^ 63"
    and "map_of body tag_OrderQty = Some (show_u64 q)" and "map_of body tag_Side = Some [sd]"
    and "map_of body tag_ClOrdID = Some cl"
  shows "new_order (wire_message sep body) n = Inr \<lparr>order_id = n, session = 0, clord_id = \<lparr>clord_value = cl\<rparr>,
    side = sd, ord_type = Limit, price = p, orig_qty = q, leaves_qty = q, ts = 0, prv = None, nxt = None\<rparr>"
  using assms by (simp add: new_order_def wire_message_get value_or_def first_char_def stoll_show_int)

lemma server_ok_count: "server_ok (sv\<lparr>msgs_in := i\<rparr>) = server_ok sv" "server_ok (sv\<lparr>msgs_out := i\<rparr>) = server_ok sv"
  "acceptable place m (sv\<lparr>msgs_in := i\<rparr>) = acceptable place m sv"
  by (simp_all add: server_ok_def acceptable_def cong: sum.case_cong)

text \<open>
  An application message in sequence, on a connection that keeps reading and at a moment
  when no timer is due: it is handed to the server, and a report for every event comes back.
\<close>

lemma app_entry:
  assumes wf: "session_wf (conn_session c)" and env: "env_ok E (soh (conn_session c))"
    and st: "state (conn_session c) \<noteq> Disconnected" and empty: "in_buf (conn_session c) = []"
    and body: "app_body (soh (conn_session c)) (in_seq (conn_session c) + 1) body"
    and app: "handle_app place (wire_message (soh (conn_session c)) body) (sv\<lparr>msgs_in := msgs_in sv + 1\<rparr>) = Some (Inr (evs, sv1))"
    and ev: "list_all (event_ok (soh (conn_session c))) evs"
    and room: "room (length evs) (conn_session c)" and net: "net_up N"
    and quiet: "\<not> test_request_outstanding (read_one E (conn_session c))"
      "now - last_inbound (read_one E (conn_session c)) < window (conn_session c)"
      "now - last_outbound (conn_session c) < secs (heartbeat_secs (cfg (conn_session c)))"
  shows "\<exists>ws c' j. session_iter E N place (Data (build (soh (conn_session c)) body) now) c sv =
      Some (Inr (True, c', sv1\<lparr>msgs_out := j\<rparr>)) \<and>
    conn_wire c' = conn_wire c @ concat ws \<and> session_wf (conn_session c') \<and>
    reported (soh (conn_session c)) (Suc (unat (out_seq (conn_session c)))) evs ws \<and>
    unat (out_seq (conn_session c')) = unat (out_seq (conn_session c)) + length evs \<and>
    carried E ((read_one E (conn_session c))\<lparr>in_seq := in_seq (conn_session c) + 1\<rparr>) (conn_session c')"
proof -
  let ?s = "conn_session c" and ?m = "wire_message (soh (conn_session c)) body"
  let ?s1 = "(read_one E ?s)\<lparr>in_seq := in_seq ?s + 1\<rparr>" and ?c1 = "c\<lparr>conn_session := (read_one E (conn_session c))\<lparr>in_seq := in_seq (conn_session c) + 1\<rparr>\<rparr>"
  have read: "on_bytes E (build (soh ?s) body) ?s = Some (Inr (no_step\<lparr>step_app := [?m]\<rparr>, ?s1))"
    by (rule app_message [OF plain_ok(1) [OF session_wf_plain [OF wf]] body st empty])
  have idle: "tick E now ?s1 = (no_step, ?s1)"
    using quiet by (intro tick_idle) (simp_all add: read_one_def window_def)
  from send_reports_up [OF net, of E evs ?c1 sv1] obtain k where
    snd: "send_reports E N evs ?c1 sv1 = Some (True, ?c1\<lparr>conn_session := snd (reports E evs ?s1),
      conn_wire := conn_wire c @ concat (fst (reports E evs ?s1)), conn_sends := k\<rparr>,
      sv1\<lparr>msgs_out := msgs_out sv1 + of_nat (length (fst (reports E evs ?s1)))\<rparr>)" by auto
  have rd: "reported (soh ?s) (Suc (unat (out_seq ?s))) evs (fst (reports E evs ?s1))" "session_wf (snd (reports E evs ?s1))"
    "unat (out_seq (snd (reports E evs ?s1))) = unat (out_seq ?s) + length evs"
    using reports_read [of ?s1 E evs] wf env room ev by simp_all
  have "session_iter E N place (Data (build (soh ?s) body) now) c sv = Some (Inr (True,
      ?c1\<lparr>conn_session := snd (reports E evs ?s1), conn_wire := conn_wire c @ concat (fst (reports E evs ?s1)), conn_sends := k\<rparr>,
      sv1\<lparr>msgs_out := msgs_out sv1 + of_nat (length (fst (reports E evs ?s1)))\<rparr>))"
    using read idle app snd by (simp add: session_iter_def read_phase_def route_app_def no_step_def)
  then show ?thesis using rd carried_reports [of E ?s1 evs] by (auto intro!: exI [of _ "fst (reports E evs ?s1)"])
qed

lemma body_text_ok:
  assumes "plain sep" and "body_ok sep body" and "length (build sep body) \<le> 2 ^ 58"
  shows "text_ok sep (value_or (get (wire_message sep body) t) '''')"
  using wire_values_ok [OF assms] values_ok_get by (auto simp: value_or_def text_ok_def split: option.splits)

definition entered :: "Conn \<Rightarrow> Env \<Rightarrow> Net \<Rightarrow> time_point \<Rightarrow> string \<Rightarrow> Fields \<Rightarrow> bool" where
  "entered c E N now mt body \<longleftrightarrow>
     (let s = conn_session c in
      session_wf s \<and> env_ok E (soh s) \<and> state s \<noteq> Disconnected \<and> in_buf s = [] \<and> net_up N \<and>
      body_ok (soh s) body \<and> length (build (soh s) body) \<le> 2 ^ 58 \<and> map_of body tag_MsgType = Some mt \<and>
      map_of body tag_MsgSeqNum = Some (show_u64 (in_seq s + 1)) \<and>
      \<not> test_request_outstanding (read_one E s) \<and> now - last_inbound (read_one E s) < window s \<and>
      now - last_outbound s < secs (heartbeat_secs (cfg s)))"

lemma enteredD:
  assumes "entered c E N now mt body" and "mt \<in> app_types"
  shows "session_wf (conn_session c)" "env_ok E (soh (conn_session c))" "state (conn_session c) \<noteq> Disconnected"
    "in_buf (conn_session c) = []" "app_body (soh (conn_session c)) (in_seq (conn_session c) + 1) body" "net_up N"
    "\<not> test_request_outstanding (read_one E (conn_session c))"
    "now - last_inbound (read_one E (conn_session c)) < window (conn_session c)"
    "now - last_outbound (conn_session c) < secs (heartbeat_secs (cfg (conn_session c)))"
    "text_ok (soh (conn_session c)) (value_or (get (wire_message (soh (conn_session c)) body) t) '''')"
    "msg_type (wire_message (soh (conn_session c)) body) = mt"
  using assms body_text_ok [OF session_wf_plain, of "conn_session c" body t]
  by (auto simp: entered_def app_body_def wire_message_type Let_def)

lemma order_entry:
  assumes sv: "server_ok sv" and ent: "entered c E N now msgtype_NewOrderSingle body"
    and v: "new_order (wire_message (soh (conn_session c)) body) (next_order_id sv) = Inr v"
    and acc: "acceptable place (wire_message (soh (conn_session c)) body) sv"
    and room: "room (Suc (card (dom (sv_heap sv)))) (conn_session c)"
  shows "\<exists>h b evs ws c' sv'.
    submit (srv_algo (sv_cfg sv)) ((sv_heap sv)(place (sv_heap sv) \<mapsto> v)) (sv_book sv) (place (sv_heap sv)) [] = Some (h, b, evs) \<and>
    session_iter E N place (Data (build (soh (conn_session c)) body) now) c sv = Some (Inr (True, c', sv')) \<and>
    conn_wire c' = conn_wire c @ concat ws \<and>
    reported (soh (conn_session c)) (Suc (unat (out_seq (conn_session c)))) evs ws \<and>
    sv_heap sv' = h \<and> sv_book sv' = b \<and> next_order_id sv' = next_order_id sv + 1 \<and> server_ok sv' \<and>
    session_wf (conn_session c') \<and> sv_cfg sv' = sv_cfg sv \<and>
    unat (out_seq (conn_session c')) = unat (out_seq (conn_session c)) + length evs \<and>
    carried E ((read_one E (conn_session c))\<lparr>in_seq := in_seq (conn_session c) + 1\<rparr>) (conn_session c')"
proof -
  let ?m = "wire_message (soh (conn_session c)) body" and ?sv = "sv\<lparr>msgs_in := msgs_in sv + 1\<rparr>"
  note e = enteredD [OF ent, unfolded app_types_def, simplified]
  have sv1: "server_ok ?sv" "acceptable place ?m ?sv" using sv acc by (simp_all add: server_ok_count)
  from submit_app_ok [OF sv1, of v] v obtain h b evs where
    s: "submit (srv_algo (sv_cfg sv)) ((sv_heap sv)(place (sv_heap sv) \<mapsto> v)) (sv_book sv) (place (sv_heap sv)) [] = Some (h, b, evs)"
      "submit_app place ?m ?sv = Some (Inr (evs, ?sv\<lparr>next_order_id := next_order_id sv + 1, sv_heap := h, sv_book := b\<rparr>))"
      "server_ok (?sv\<lparr>next_order_id := next_order_id sv + 1, sv_heap := h, sv_book := b\<rparr>)" by auto
  have app: "handle_app place ?m ?sv = Some (Inr (evs, ?sv\<lparr>next_order_id := next_order_id sv + 1, sv_heap := h, sv_book := b\<rparr>))"
    using s(2) e(11) by (simp add: handle_app_def)
  have "text_ok (soh (conn_session c)) (clord_value (clord_id v))" using e(10) [of tag_ClOrdID] new_order_fields(6) [OF v] by simp
  note ev = submit_events_ok [OF sv acc v this s(1)]
  have "room (length evs) (conn_session c)" using room ev(3) by (simp add: room_def)
  from app_entry [OF e(1-5) app ev(1) this e(6-9)] obtain ws c' j where
    "session_iter E N place (Data (build (soh (conn_session c)) body) now) c sv =
      Some (Inr (True, c', ?sv\<lparr>next_order_id := next_order_id sv + 1, sv_heap := h, sv_book := b, msgs_out := j\<rparr>))"
    "conn_wire c' = conn_wire c @ concat ws" "session_wf (conn_session c')"
    "reported (soh (conn_session c)) (Suc (unat (out_seq (conn_session c)))) evs ws"
    "unat (out_seq (conn_session c')) = unat (out_seq (conn_session c)) + length evs"
    "carried E ((read_one E (conn_session c))\<lparr>in_seq := in_seq (conn_session c) + 1\<rparr>) (conn_session c')" by blast
  then show ?thesis using s(1,3) by (auto simp: server_ok_count)
qed

text \<open>
  A cancel request. The order is looked up under session 0 whatever the connection, since
  no order is ever given another one.
\<close>

definition cancel_reply :: "OrderBook \<Rightarrow> string \<Rightarrow> string \<Rightarrow> Event" where
  "cancel_reply b orig cl =
     (if find b 0 \<lparr>clord_value = orig\<rparr> = None
      then OrdRejectEv \<lparr>rej_clord_id = \<lparr>clord_value = cl\<rparr>, rej_reason = ''cancel: unknown order''\<rparr>
      else CancelAckEv \<lparr>ca_id = 0, ca_clord_id = \<lparr>clord_value = cl\<rparr>, ca_orig_clord_id = \<lparr>clord_value = orig\<rparr>\<rparr>)"

lemma cancel_entry:
  assumes sv: "server_ok sv" and ent: "entered c E N now msgtype_OrderCancelRequest body"
    and orig: "map_of body tag_OrigClOrdID = Some orig" and cl: "map_of body tag_ClOrdID = Some cl"
    and room: "room 1 (conn_session c)"
  shows "\<exists>w c' sv'. session_iter E N place (Data (build (soh (conn_session c)) body) now) c sv = Some (Inr (True, c', sv')) \<and>
    conn_wire c' = conn_wire c @ w \<and>
    report_of (soh (conn_session c)) (Suc (unat (out_seq (conn_session c)))) (cancel_reply (sv_book sv) orig cl) w \<and>
    find (sv_book sv') 0 \<lparr>clord_value = orig\<rparr> = None \<and> server_ok sv' \<and> session_wf (conn_session c')"
proof -
  let ?sep = "soh (conn_session c)"
  let ?m = "wire_message ?sep body" and ?sv = "sv\<lparr>msgs_in := msgs_in sv + 1\<rparr>" and ?ev = "cancel_reply (sv_book sv) orig cl"
  note e = enteredD [OF ent, unfolded app_types_def, simplified]
  have get: "value_or (get ?m tag_OrigClOrdID) '''' = orig" "value_or (get ?m tag_ClOrdID) '''' = cl"
    using orig cl by (simp_all add: wire_message_get value_or_def)
  have sv1: "server_ok ?sv" using sv by (simp add: server_ok_count)
  from cancel_app_ok [OF sv1, of ?m] obtain h b res where
    c: "cancel (sv_heap sv) (sv_book sv) 0 \<lparr>clord_value = orig\<rparr> = Some ((h, b), res)"
      "ok res \<longleftrightarrow> find (sv_book sv) 0 \<lparr>clord_value = orig\<rparr> \<noteq> None" "find b 0 \<lparr>clord_value = orig\<rparr> = None"
      "server_ok (?sv\<lparr>sv_heap := h, sv_book := b\<rparr>)" by (auto simp: get)
  have app: "handle_app place ?m ?sv = Some (Inr ([?ev], ?sv\<lparr>sv_heap := h, sv_book := b\<rparr>))"
    using c(1,2) e(11) by (simp add: handle_app_def cancel_app_def Let_def get cancel_reply_def)
  have "text_ok ?sep ''cancel: unknown order''" using session_wf_plain [OF e(1)] by (simp add: text_ok_def)
  then have ev: "list_all (event_ok ?sep) [?ev]"
    using e(10) [of tag_OrigClOrdID] e(10) [of tag_ClOrdID] by (simp add: get cancel_reply_def event_ok_def)
  from app_entry [OF e(1-5) app ev _ e(6-9)] room obtain ws c' j where
    "session_iter E N place (Data (build ?sep body) now) c sv = Some (Inr (True, c', ?sv\<lparr>sv_heap := h, sv_book := b, msgs_out := j\<rparr>))"
    "conn_wire c' = conn_wire c @ concat ws" "session_wf (conn_session c')"
    "reported ?sep (Suc (unat (out_seq (conn_session c)))) [?ev] ws" by auto
  then show ?thesis using c(3,4) by (auto simp: server_ok_count split: list.splits)
qed

section \<open>One iteration, whatever the input\<close>

fun routable :: "(heap \<Rightarrow> addr) \<Rightarrow> Message list \<Rightarrow> Server \<Rightarrow> bool" where
  "routable place [] sv = True"
| "routable place (m # ms) sv = (acceptable place m sv \<and>
     (case handle_app place m sv of Some (Inr (_, sv')) \<Rightarrow> routable place ms sv' | _ \<Rightarrow> True))"

definition counters :: "u64 \<Rightarrow> u64 \<Rightarrow> Server \<Rightarrow> Server" where
  "counters i j sv = sv\<lparr>msgs_in := i, msgs_out := j\<rparr>"

lemma counters_simps [simp]:
  "server_ok (counters i j sv) = server_ok sv" "acceptable place m (counters i j sv) = acceptable place m sv"
  "counters i j (counters i' j' sv) = counters i j sv"
  by (simp_all add: counters_def server_ok_def acceptable_def cong: sum.case_cong)

lemma counters_cases: "sv\<lparr>msgs_in := i\<rparr> = counters i (msgs_out sv) sv" "sv\<lparr>msgs_out := j\<rparr> = counters (msgs_in sv) j sv"
  by (simp_all add: counters_def)

lemma handle_app_counters:
  "handle_app place m (counters i j sv) =
     map_option (map_sum id (apsnd (counters i j))) (handle_app place m sv)"
proof -
  have "submit_app place m (counters i j sv) = map_option (map_sum id (apsnd (counters i j))) (submit_app place m sv)"
    by (auto simp: submit_app_def counters_def Let_def split: sum.splits option.splits bind_splits)
  moreover have "cancel_app m (counters i j sv) = map_option (map_sum id (apsnd (counters i j))) (cancel_app m sv)"
    by (auto simp: cancel_app_def counters_def Let_def split: bind_splits)
  ultimately show ?thesis by (simp add: handle_app_def Let_def)
qed

lemma routable_counters: "routable place ms (counters i j sv) = routable place ms sv"
proof (induction ms arbitrary: sv)
  case (Cons m ms)
  show ?case
    by (simp add: handle_app_counters Cons.IH split: option.split sum.split)
qed simp

lemma write_outs_total:
  assumes "net_law N"
  shows "\<exists>b c' i. write_outs N ws c sv = Some (b, c', counters (msgs_in sv) i sv) \<and> conn_session c' = conn_session c"
proof (induction ws arbitrary: c sv)
  case Nil
  then show ?case by (auto simp: counters_def intro: exI [of _ "msgs_out sv"])
next
  case (Cons w ws)
  from write_all_total [OF assms, of w c] obtain b c' where
    c': "write_all N w c = Some (b, c')" "conn_session c' = conn_session c" by auto
  show ?case
  proof (cases b)
    case True
    from Cons.IH [of c' "sv\<lparr>msgs_out := msgs_out sv + 1\<rparr>"] c' True show ?thesis by (simp add: counters_def)
  next
    case False
    with c' show ?thesis by (auto simp: counters_def intro: exI [of _ "msgs_out sv"])
  qed
qed

text \<open>How far a connection got: its session is still sound, after at most \<open>n\<close> more messages.\<close>

definition grown :: "nat \<Rightarrow> Conn \<Rightarrow> Conn \<Rightarrow> bool" where
  "grown n c c' \<longleftrightarrow> session_wf (conn_session c') \<and> soh (conn_session c') = soh (conn_session c) \<and>
     unat (out_seq (conn_session c')) \<le> unat (out_seq (conn_session c)) + n"

lemma grown_trans: "grown m a b \<Longrightarrow> grown n b c \<Longrightarrow> grown (m + n) a c"
  by (auto simp: grown_def)

lemma grown_mono: "grown m a b \<Longrightarrow> m \<le> n \<Longrightarrow> grown n a b"
  by (auto simp: grown_def)

lemma send_reports_total:
  assumes net: "net_law N"
  shows "session_wf (conn_session c) \<Longrightarrow> env_ok E (soh (conn_session c)) \<Longrightarrow> room (length evs) (conn_session c) \<Longrightarrow>
    list_all (event_ok (soh (conn_session c))) evs \<Longrightarrow>
    \<exists>b c' i. send_reports E N evs c sv = Some (b, c', counters (msgs_in sv) i sv) \<and> grown (length evs) c c'"
proof (induction evs arbitrary: c sv)
  case Nil
  then show ?case by (auto simp: counters_def grown_def intro: exI [of _ "msgs_out sv"])
next
  case (Cons ev evs)
  let ?s = "conn_session c"
  have ev: "event_ok (soh ?s) ev" and r1: "room 1 ?s" using Cons.prems(3,4) by (simp_all add: room_def)
  then obtain body where body: "report_body ev = Some body" using event_ok_report by blast
  have sb: "sendable (soh ?s) body" by (rule report_sendable [OF session_wf_plain [OF Cons.prems(1)] ev body])
  from report_sent [OF Cons.prems(1,2) r1 sb] obtain w s1 where
    w: "send_execution_report E body ?s = (w, s1)" "unat (out_seq s1) = Suc (unat (out_seq ?s))" by blast
  have "session_step E ?s (snd (send_execution_report E body ?s))" by (rule session_step.exec_report [OF r1 sb])
  from session_step_wf [OF this Cons.prems(1,2)] w(1) have s1: "session_wf s1" "soh s1 = soh ?s" by simp_all
  from write_all_total [OF net, of w "c\<lparr>conn_session := s1\<rparr>"] obtain b c' where
    c': "write_all N w (c\<lparr>conn_session := s1\<rparr>) = Some (b, c')" "conn_session c' = s1" by auto
  have g: "grown 1 c c'" using w(2) s1 c'(2) by (simp add: grown_def)
  show ?case
  proof (cases b)
    case True
    have "room (length evs) s1" using Cons.prems(3) w(2) by (simp add: room_def)
    then have "\<exists>b c2 i. send_reports E N evs c' (sv\<lparr>msgs_out := msgs_out sv + 1\<rparr>) =
        Some (b, c2, counters (msgs_in sv) i (sv\<lparr>msgs_out := msgs_out sv + 1\<rparr>)) \<and> grown (length evs) c' c2"
      using Cons.IH [of c' "sv\<lparr>msgs_out := msgs_out sv + 1\<rparr>"] Cons.prems c'(2) s1 by simp
    then obtain b2 c2 i where c2: "send_reports E N evs c' (sv\<lparr>msgs_out := msgs_out sv + 1\<rparr>) =
        Some (b2, c2, counters (msgs_in sv) i (sv\<lparr>msgs_out := msgs_out sv + 1\<rparr>))" "grown (length evs) c' c2" by blast
    with c'(1) w(1) body True grown_trans [OF g c2(2)] show ?thesis by (auto simp: counters_def)
  next
    case False
    with c'(1) w(1) body grown_mono [OF g, of "length (ev # evs)"] show ?thesis
      by (auto simp: counters_def intro: exI [of _ "msgs_out sv"])
  qed
qed

text \<open>
  The reports \<open>n\<close> messages can cause on a book with \<open>d\<close> orders: each trades with every
  order at most once, and adds at most one.
\<close>

definition report_bound :: "nat \<Rightarrow> nat \<Rightarrow> nat" where
  "report_bound n d = n * (d + n + 1)"

lemma report_bound_Suc: "Suc d + report_bound n (Suc d) \<le> report_bound (Suc n) d"
  by (simp add: report_bound_def)

lemma report_bound_mono: "m \<le> n \<Longrightarrow> d \<le> e \<Longrightarrow> report_bound m d \<le> report_bound n e"
  unfolding report_bound_def by (intro mult_le_mono add_mono) simp_all

definition outcome :: "nat \<Rightarrow> Conn \<Rightarrow> (exn + (bool \<times> Conn \<times> Server)) option \<Rightarrow> bool" where
  "outcome n c r \<longleftrightarrow> (case r of None \<Rightarrow> False | Some (Inl _) \<Rightarrow> True | Some (Inr (_, c', sv')) \<Rightarrow> server_ok sv' \<and> grown n c c')"

lemma route_app_ok:
  assumes net: "net_law N" and sv: "server_ok sv" and acc: "acceptable place m sv" and wf: "session_wf (conn_session c)"
    and env: "env_ok E (soh (conn_session c))" and vals: "values_ok (soh (conn_session c)) m"
    and room: "room (Suc (card (dom (sv_heap sv)))) (conn_session c)"
  shows "(\<exists>e. handle_app place m sv = Some (Inl e) \<and> route_app E N place m c sv = Some (Inl e)) \<or>
    (\<exists>evs sv1 b c' i j. handle_app place m sv = Some (Inr (evs, sv1)) \<and>
       route_app E N place m c sv = Some (Inr (b, c', counters i j sv1)) \<and> server_ok sv1 \<and>
       grown (Suc (card (dom (sv_heap sv)))) c c' \<and> card (dom (sv_heap sv1)) \<le> Suc (card (dom (sv_heap sv))))"
proof -
  from handle_app_ok [OF sv acc] obtain r where
    r: "handle_app place m sv = Some r" "case r of Inl _ \<Rightarrow> True | Inr (_, sv') \<Rightarrow> server_ok sv' \<and> sv_cfg sv' = sv_cfg sv" by blast
  show ?thesis
  proof (cases r)
    case (Inl e)
    with r(1) show ?thesis by (simp add: route_app_def counters_cases handle_app_counters)
  next
    case (Inr p)
    obtain evs sv1 where p: "p = (evs, sv1)" by (cases p)
    let ?sv1 = "counters (msgs_in sv + 1) (msgs_out sv) sv1"
    have h: "handle_app place m (sv\<lparr>msgs_in := msgs_in sv + 1\<rparr>) = Some (Inr (evs, ?sv1))"
      using r(1) Inr p by (simp add: counters_cases handle_app_counters)
    note ev = handle_app_events [OF sv acc session_wf_plain [OF wf] vals r(1) [unfolded Inr p]]
    have "room (length evs) (conn_session c)" using room ev by (simp add: room_def)
    from send_reports_total [OF net wf env this, of ?sv1] ev obtain b c' i where
      s: "send_reports E N evs c ?sv1 = Some (b, c', counters (msgs_in ?sv1) i ?sv1)" "grown (length evs) c c'" by blast
    have "route_app E N place m c sv = Some (Inr (b, c', counters (msgs_in ?sv1) i sv1))"
      using h s(1) by (simp add: route_app_def)
    moreover have "grown (Suc (card (dom (sv_heap sv)))) c c'" using grown_mono [OF s(2)] ev by blast
    ultimately show ?thesis using r Inr p ev by auto
  qed
qed

lemma route_apps_ok:
  assumes net: "net_law N"
  shows "server_ok sv \<Longrightarrow> routable place ms sv \<Longrightarrow> session_wf (conn_session c) \<Longrightarrow> env_ok E (soh (conn_session c)) \<Longrightarrow>
    list_all (values_ok (soh (conn_session c))) ms \<Longrightarrow> card (dom (sv_heap sv)) \<le> d \<Longrightarrow>
    room (report_bound (length ms) d) (conn_session c) \<Longrightarrow>
    outcome (report_bound (length ms) d) c (route_apps E N place ms c sv)"
proof (induction ms arbitrary: c sv d)
  case Nil
  then show ?case by (simp add: outcome_def grown_def)
next
  case (Cons m ms)
  let ?B = "report_bound (length ms) (Suc d)"
  have acc: "acceptable place m sv" and vals: "values_ok (soh (conn_session c)) m" using Cons.prems(2,5) by simp_all
  have total: "Suc d + ?B \<le> report_bound (length (m # ms)) d" using report_bound_Suc [of d "length ms"] by simp
  have "room (Suc (card (dom (sv_heap sv)))) (conn_session c)" using Cons.prems(6,7) total by (simp add: room_def)
  from route_app_ok [OF net Cons.prems(1) acc Cons.prems(3,4) vals this] show ?case
  proof (elim disjE exE conjE)
    fix e assume "route_app E N place m c sv = Some (Inl e)"
    then show ?thesis by (simp add: outcome_def)
  next
    fix evs sv1 b c' i j
    assume h: "handle_app place m sv = Some (Inr (evs, sv1))" "route_app E N place m c sv = Some (Inr (b, c', counters i j sv1))"
      "server_ok sv1" "grown (Suc (card (dom (sv_heap sv)))) c c'" "card (dom (sv_heap sv1)) \<le> Suc (card (dom (sv_heap sv)))"
    let ?sv2 = "counters i j sv1"
    have g: "grown (Suc d) c c'" using grown_mono [OF h(4)] Cons.prems(6) by simp
    have sv2: "server_ok ?sv2" "routable place ms ?sv2" using h(1,3) Cons.prems(2) by (simp_all add: routable_counters)
    have "outcome ?B c' (route_apps E N place ms c' ?sv2)"
      using g Cons.prems(4-7) h(5) total by (intro Cons.IH sv2) (auto simp: grown_def room_def counters_def)
    then have "outcome (report_bound (length (m # ms)) d) c (route_apps E N place ms c' ?sv2)"
      using grown_mono [OF grown_trans [OF g] total] by (auto simp: outcome_def split: option.splits sum.splits)
    then show ?thesis using h(2)
      by (cases "route_apps E N place ms c' ?sv2") (auto simp: outcome_def split: sum.splits)
  qed
qed

text \<open>
  What the loop needs of its input: bytes the parser can read, messages the engine can
  take, and outbound numbers left.
\<close>

definition input_bound :: "Input \<Rightarrow> Conn \<Rightarrow> Server \<Rightarrow> nat" where
  "input_bound i c sv =
     (case i of
        Data bytes now \<Rightarrow>
          (let n = length (in_buf (conn_session c) @ bytes) in Suc (n + report_bound n (card (dom (sv_heap sv)))))
      | _ \<Rightarrow> 1)"

definition input_ok :: "Env \<Rightarrow> (heap \<Rightarrow> addr) \<Rightarrow> Input \<Rightarrow> Conn \<Rightarrow> Server \<Rightarrow> bool" where
  "input_ok E place i c sv \<longleftrightarrow> room (input_bound i c sv) (conn_session c) \<and>
     (case i of
        Data bytes now \<Rightarrow>
          (let s = conn_session c; buf = in_buf s @ bytes in
           length buf \<le> 2 ^ 58 \<and> tame (soh s) buf \<and>
           (case on_bytes E bytes s of Some (Inr (st, _)) \<Rightarrow> routable place (step_app st) sv | _ \<Rightarrow> True))
      | _ \<Rightarrow> True)"

lemma tick_grown:
  assumes "session_wf s" and "env_ok E (soh s)" and "room 1 s" and "tick E now s = (st, s')"
  shows "session_wf s'" "soh s' = soh s" "unat (out_seq s') \<le> Suc (unat (out_seq s))"
  using tick_advances [OF assms(1-3), of now] assms(4) by (simp_all add: advances_def)

definition read_ok :: "string \<Rightarrow> Session \<Rightarrow> bool" where
  "read_ok bytes s \<longleftrightarrow> room (Suc (length (in_buf s @ bytes))) s \<and> length (in_buf s @ bytes) \<le> 2 ^ 58 \<and>
     tame (soh s) (in_buf s @ bytes)"

lemma read_phase_ok:
  assumes wf: "session_wf (conn_session c)" and env: "env_ok E (soh (conn_session c))"
    and net: "net_law N" and i: "read_ok bytes (conn_session c)"
  shows "(\<exists>e. read_phase E N bytes now c sv = Some (Inl e)) \<or>
    (\<exists>k ms c' j st s'. read_phase E N bytes now c sv = Some (Inr (k, ms, c', counters (msgs_in sv) j sv)) \<and>
      on_bytes E bytes (conn_session c) = Some (Inr (st, s')) \<and> ms = step_app st \<and>
      grown (Suc (length (in_buf (conn_session c) @ bytes))) c c' \<and>
      list_all (values_ok (soh (conn_session c))) ms \<and> length ms \<le> length (in_buf (conn_session c) @ bytes))"
proof -
  let ?s = "conn_session c" and ?n = "length (in_buf (conn_session c) @ bytes)"
  have room: "room (Suc ?n) ?s" and buf: "?n \<le> 2 ^ 58" "tame (soh ?s) (in_buf ?s @ bytes)" using i by (simp_all add: read_ok_def)
  have room0: "room ?n ?s" using room by (simp add: room_def)
  note ret = on_bytes_returns [OF wf env room0 buf]
  then obtain r where r: "on_bytes E bytes ?s = Some r" by (auto simp: returns_def split: option.splits)
  show ?thesis
  proof (cases r)
    case (Inl e)
    with r show ?thesis by (simp add: read_phase_def)
  next
    case (Inr p)
    obtain st s where p: "p = (st, s)" by (cases p)
    have s: "session_wf s" "soh s = soh ?s" "unat (out_seq s) \<le> unat (out_seq ?s) + ?n"
      using ret r Inr p by (auto simp: returns_def)
    have apps: "list_all (values_ok (soh ?s)) (step_app st)" "length (step_app st) \<le> ?n"
      using on_bytes_apps [OF wf env room0 buf] r Inr p by blast+
    obtain tst s2 where t: "tick E now s = (tst, s2)" by fastforce
    have "room 1 s" using room s(3) by (simp add: room_def)
    from tick_grown [OF s(1) _ this t] env s have s2: "session_wf s2" "soh s2 = soh ?s" "unat (out_seq s2) \<le> Suc (unat (out_seq ?s) + ?n)"
      by (simp_all add: le_trans)
    from write_outs_total [OF net, of "step_out st @ step_out tst" "c\<lparr>conn_session := s2\<rparr>" sv] obtain b c' k where
      w: "write_outs N (step_out st @ step_out tst) (c\<lparr>conn_session := s2\<rparr>) sv = Some (b, c', counters (msgs_in sv) k sv)"
        "conn_session c' = s2" by auto
    have g: "grown (Suc ?n) c c'" using s2 w(2) by (simp add: grown_def)
    have "\<exists>q. read_phase E N bytes now c sv = Some (Inr (q, step_app st, c', counters (msgs_in sv) k sv))"
      using r Inr p t w(1) by (simp add: read_phase_def)
    with r Inr p g apps show ?thesis by blast
  qed
qed

lemma tick_phase_ok:
  assumes wf: "session_wf (conn_session c)" and env: "env_ok E (soh (conn_session c))"
    and net: "net_law N" and room: "room 1 (conn_session c)"
  shows "\<exists>k c' j. tick_phase E N now c sv = Some (k, c', counters (msgs_in sv) j sv) \<and> grown 1 c c'"
proof -
  obtain st s where t: "tick E now (conn_session c) = (st, s)" by fastforce
  note s = tick_grown [OF wf env room t]
  from write_outs_total [OF net, of "step_out st" "c\<lparr>conn_session := s\<rparr>" sv] obtain b c' k where
    "write_outs N (step_out st) (c\<lparr>conn_session := s\<rparr>) sv = Some (b, c', counters (msgs_in sv) k sv)" "conn_session c' = s" by auto
  with t s show ?thesis by (auto simp: tick_phase_def grown_def)
qed

lemma session_iter_ok:
  assumes sv: "server_ok sv" and wf: "session_wf (conn_session c)" and env: "env_ok E (soh (conn_session c))"
    and net: "net_law N" and i: "input_ok E place i c sv"
  shows "outcome (input_bound i c sv) c (session_iter E N place i c sv)"
proof (cases i)
  case (Idle now)
  have "room 1 (conn_session c)" using i Idle by (simp add: input_ok_def input_bound_def)
  from tick_phase_ok [OF wf env net this, of now sv] obtain k c' j where
    "tick_phase E N now c sv = Some (k, c', counters (msgs_in sv) j sv)" "grown 1 c c'" by blast
  with Idle sv show ?thesis by (simp add: session_iter_def outcome_def input_bound_def)
next
  case (Data bytes now)
  let ?n = "length (in_buf (conn_session c) @ bytes)" and ?d = "card (dom (sv_heap sv))"
  have b: "input_bound i c sv = Suc (?n + report_bound ?n ?d)" using Data by (simp add: input_bound_def Let_def)
  then have room: "room (Suc (?n + report_bound ?n ?d)) (conn_session c)" using i by (simp add: input_ok_def)
  have "read_ok bytes (conn_session c)" using i Data room by (auto simp: input_ok_def read_ok_def room_def Let_def)
  from read_phase_ok [OF wf env net this, of now sv] show ?thesis
  proof (elim disjE exE conjE)
    fix e assume "read_phase E N bytes now c sv = Some (Inl e)"
    then show ?thesis by (simp add: Data session_iter_def outcome_def)
  next
    fix k ms c' j st s'
    assume r: "read_phase E N bytes now c sv = Some (Inr (k, ms, c', counters (msgs_in sv) j sv))"
      "on_bytes E bytes (conn_session c) = Some (Inr (st, s'))" "ms = step_app st" "grown (Suc ?n) c c'"
      "list_all (values_ok (soh (conn_session c))) ms" "length ms \<le> ?n"
    let ?sv = "counters (msgs_in sv) j sv" and ?B = "report_bound (length ms) ?d"
    have B: "?B \<le> report_bound ?n ?d" by (rule report_bound_mono [OF r(6) le_refl])
    have sv1: "server_ok ?sv" "routable place ms ?sv" using sv i Data r(2,3) by (simp_all add: routable_counters input_ok_def Let_def)
    have "outcome ?B c' (route_apps E N place ms c' ?sv)"
      using env r(4,5) room B by (intro route_apps_ok [OF net] sv1) (auto simp: counters_def room_def grown_def)
    then have "outcome (Suc (?n + report_bound ?n ?d)) c (route_apps E N place ms c' ?sv)"
      using grown_mono [OF grown_trans [OF r(4)], of ?B _ "Suc (?n + report_bound ?n ?d)"] B
      by (auto simp: outcome_def split: option.splits sum.splits)
    then show ?thesis unfolding b using r(1) Data
      by (cases "route_apps E N place ms c' ?sv") (auto simp: session_iter_def outcome_def split: sum.splits)
  qed
qed (use sv wf in \<open>auto simp: session_iter_def outcome_def grown_def\<close>)

end
