(* ===== verification/Net_System.thy ===== *)
theory Net_System
  imports Net_Wire_Spec
begin

text \<open>
  The running server: the listening socket with \<^verbatim>\<open>start\<close>, \<^verbatim>\<open>stop\<close> and \<^verbatim>\<open>accept_loop\<close>, the
  acceptor and one thread per connection over the shared state, and the thread that calls
  \<^verbatim>\<open>stop\<close> and joins them. A connection's round is cut where another thread can come in
  between: a read with its replies, then for each message the part under the book's lock
  and, after it, one report at a time. What the socket calls return is an input.
\<close>

section \<open>The listener\<close>

record Listener =
  listen_fd :: int
  bound_port :: "16 word"
  running :: bool

definition new_listener :: Listener where
  "new_listener = \<lparr>listen_fd = - 1, bound_port = 0, running = False\<rparr>"

record Sockets =
  os_socket :: int
  os_bind :: "string \<Rightarrow> 16 word \<Rightarrow> bool"
  os_port :: "16 word"
  os_listen :: bool

text \<open>The result of \<^verbatim>\<open>start\<close>, the listener afterwards and the descriptors it closed.\<close>

definition start :: "Sockets \<Rightarrow> ServerConfig \<Rightarrow> Listener \<Rightarrow> bool \<times> Listener \<times> int list" where
  "start os c l =
     (let fd = os_socket os in
      if fd < 0 then (False, l, [])
      else if \<not> os_bind os (srv_host c) (srv_port c) then (False, l, [fd])
      else let l = l\<lparr>bound_port := os_port os\<rparr> in
        if \<not> os_listen os then (False, l, [fd])
        else (True, l\<lparr>listen_fd := fd, running := True\<rparr>, []))"

definition stop :: "Listener \<Rightarrow> Listener \<times> int list" where
  "stop l =
     (if \<not> running l then (l, [])
      else let fd = listen_fd l; l = l\<lparr>running := False, listen_fd := - 1\<rparr> in
        (l, if fd \<ge> 0 then [fd] else []))"

datatype Accepted = Return | Again | Spawn int

text \<open>
  A round of \<^verbatim>\<open>accept_loop\<close>: whether it comes to call \<^verbatim>\<open>accept\<close>, and what it does with the
  result, given the listener when the call came back.
\<close>

definition accept_enter :: "Listener \<Rightarrow> bool" where
  "accept_enter l \<longleftrightarrow> running l \<and> \<not> listen_fd l < 0"

definition accept_leave :: "int \<Rightarrow> Listener \<Rightarrow> Accepted" where
  "accept_leave cli l = (if cli < 0 then (if \<not> running l then Return else Again) else Spawn cli)"

lemma start_stop:
  assumes "start os c l = (done', l1, closed1)" and "stop l1 = (l2, closed2)" and "\<not> running l" and "os_socket os \<ge> 0"
  shows "\<not> running l2 \<and> closed1 @ closed2 = [os_socket os] \<and> (done' \<longleftrightarrow> running l1) \<and> \<not> accept_enter l2 \<and> stop l2 = (l2, [])"
  using assms by (auto simp: start_def stop_def accept_enter_def Let_def split: if_splits)

section \<open>Threads\<close>

text \<open>
  A connection's thread: the messages its last read delivered and not yet routed, the
  events of the message routed last that are still to be reported, whether its loop goes
  on, and whether it has tested the loop condition and waits in \<^verbatim>\<open>poll\<close>.
\<close>

record Thread =
  th_conn :: Conn
  th_pending :: "AppMessage list"
  th_events :: EventList
  th_open :: bool
  th_polling :: bool

definition new_thread :: "ServerConfig \<Rightarrow> Thread" where
  "new_thread c = \<lparr>th_conn = \<lparr>conn_session = open_session c, conn_wire = [], conn_sends = 0\<rparr>, th_pending = [],
     th_events = [], th_open = True, th_polling = False\<rparr>"

text \<open>
  Where the acceptor is (about to test its loop condition, in \<^verbatim>\<open>accept\<close>, returned) and how
  far \<^verbatim>\<open>stop\<close> has come.
\<close>

datatype Acceptor = AtLoop | InAccept | Ended

datatype Phase = Serving | Stopping | Joined

record System =
  sys_listener :: Listener
  sys_acceptor :: Acceptor
  sys_threads :: "int \<rightharpoonup> Thread"
  sys_server :: Server
  sys_phase :: Phase

definition boot :: "Listener \<Rightarrow> ServerConfig \<Rightarrow> System" where
  "boot l c = \<lparr>sys_listener = l, sys_acceptor = AtLoop, sys_threads = Map.empty, sys_server = new_server c, sys_phase = Serving\<rparr>"

definition input_phase ::
  "Env \<Rightarrow> Net \<Rightarrow> Input \<Rightarrow> Conn \<Rightarrow> Server \<Rightarrow> (exn + (bool \<times> AppMessage list \<times> Conn \<times> Server)) option"
where
  "input_phase E N i c sv =
     (case i of
        PollError interrupted \<Rightarrow> Some (Inr (interrupted, [], c, sv))
      | Idle now \<Rightarrow> map_option (\<lambda>(k, c, sv). Inr (k, [], c, sv)) (tick_phase E N now c sv)
      | Closed \<Rightarrow> Some (Inr (False, [], c, sv))
      | Data bytes now \<Rightarrow> read_phase E N bytes now c sv)"

text \<open>An iteration is its phases in a row.\<close>

lemma session_iter_phases:
  "session_iter E N place i c sv = do {
     r \<leftarrow> input_phase E N i c sv;
     (case r of
        Inl e \<Rightarrow> Some (Inl e)
      | Inr (k, ms, c, sv) \<Rightarrow> do {
          r \<leftarrow> route_apps E N place ms c sv;
          (case r of Inl e \<Rightarrow> Some (Inl e) | Inr (sent', c, sv) \<Rightarrow> Some (Inr (k \<and> sent', c, sv))) }) }"
  by (cases i) (auto simp: session_iter_def input_phase_def map_conv_bind_option split: bind_splits)

definition phase_ok :: "Input \<Rightarrow> Session \<Rightarrow> bool" where
  "phase_ok i s \<longleftrightarrow> (case i of Data bytes now \<Rightarrow> read_ok bytes s | _ \<Rightarrow> room 1 s)"

section \<open>Interleaving\<close>

text \<open>
  Steps are labelled with what they do to the messages: a read delivers some, and the part
  under the lock handles one, with its events.
\<close>

datatype Act = Silent | Delivered int "AppMessage list" | Handled int AppMessage EventList

inductive system_step :: "(int \<Rightarrow> Env) \<Rightarrow> (int \<Rightarrow> Net) \<Rightarrow> (heap \<Rightarrow> addr) \<Rightarrow> System \<Rightarrow> Act \<Rightarrow> System \<Rightarrow> bool"
  for E N place
where
  enter: "sys_acceptor y = AtLoop \<Longrightarrow>
    system_step E N place y Silent (y\<lparr>sys_acceptor := (if accept_enter (sys_listener y) then InAccept else Ended)\<rparr>)"
| leave: "sys_acceptor y = InAccept \<Longrightarrow> accept_leave cli (sys_listener y) \<in> {Return, Again} \<Longrightarrow>
    system_step E N place y Silent (y\<lparr>sys_acceptor := (if accept_leave cli (sys_listener y) = Return then Ended else AtLoop)\<rparr>)"
| spawn: "sys_acceptor y = InAccept \<Longrightarrow> accept_leave cli (sys_listener y) = Spawn cli \<Longrightarrow> sys_threads y cli = None \<Longrightarrow>
    system_step E N place y Silent
      (y\<lparr>sys_acceptor := AtLoop, sys_threads := (sys_threads y)(cli \<mapsto> new_thread (sv_cfg (sys_server y)))\<rparr>)"
| test: "running (sys_listener y) \<Longrightarrow> sys_threads y fd = Some t \<Longrightarrow> th_open t \<Longrightarrow> \<not> th_polling t \<Longrightarrow> th_pending t = [] \<Longrightarrow> th_events t = [] \<Longrightarrow>
    system_step E N place y Silent (y\<lparr>sys_threads := (sys_threads y)(fd \<mapsto> t\<lparr>th_polling := True\<rparr>)\<rparr>)"
| input: "sys_threads y fd = Some t \<Longrightarrow> th_polling t \<Longrightarrow> th_pending t = [] \<Longrightarrow> th_events t = [] \<Longrightarrow>
    phase_ok i (conn_session (th_conn t)) \<Longrightarrow>
    input_phase (E fd) (N fd) i (th_conn t) (sys_server y) = Some (Inr (k, ms, c, sv)) \<Longrightarrow>
    system_step E N place y (Delivered fd ms)
      (y\<lparr>sys_threads := (sys_threads y)(fd \<mapsto> t\<lparr>th_conn := c, th_pending := ms, th_open := k, th_polling := False\<rparr>), sys_server := sv\<rparr>)"
| locked: "sys_threads y fd = Some t \<Longrightarrow> th_pending t = m # ms \<Longrightarrow> th_events t = [] \<Longrightarrow> acceptable place m (sys_server y) \<Longrightarrow>
    handle_app place m ((sys_server y)\<lparr>msgs_in := msgs_in (sys_server y) + 1\<rparr>) = Some (Inr (evs, sv)) \<Longrightarrow>
    system_step E N place y (Handled fd m evs)
      (y\<lparr>sys_threads := (sys_threads y)(fd \<mapsto> t\<lparr>th_pending := ms, th_events := evs\<rparr>), sys_server := sv\<rparr>)"
| report: "sys_threads y fd = Some t \<Longrightarrow> th_events t = ev # evs \<Longrightarrow> room 1 (conn_session (th_conn t)) \<Longrightarrow>
    send_reports (E fd) (N fd) [ev] (th_conn t) (sys_server y) = Some (k, c, sv) \<Longrightarrow>
    system_step E N place y Silent
      (y\<lparr>sys_threads := (sys_threads y)(fd \<mapsto>
           t\<lparr>th_conn := c, th_events := (if k then evs else []), th_open := th_open t \<and> k\<rparr>), sys_server := sv\<rparr>)"
| close: "sys_threads y fd = Some t \<Longrightarrow> \<not> th_polling t \<Longrightarrow> th_pending t = [] \<Longrightarrow> th_events t = [] \<Longrightarrow> \<not> th_open t \<or> \<not> running (sys_listener y) \<Longrightarrow>
    system_step E N place y Silent (y\<lparr>sys_threads := (sys_threads y)(fd := None)\<rparr>)"
| halt: "sys_phase y = Serving \<Longrightarrow> running (sys_listener y) \<Longrightarrow>
    system_step E N place y Silent (y\<lparr>sys_listener := fst (stop (sys_listener y)), sys_phase := Stopping\<rparr>)"
| join: "sys_phase y = Stopping \<Longrightarrow> sys_acceptor y = Ended \<Longrightarrow> sys_threads y = Map.empty \<Longrightarrow>
    system_step E N place y Silent (y\<lparr>sys_phase := Joined\<rparr>)"

inductive system_run ::
  "(int \<Rightarrow> Env) \<Rightarrow> (int \<Rightarrow> Net) \<Rightarrow> (heap \<Rightarrow> addr) \<Rightarrow> Listener \<Rightarrow> ServerConfig \<Rightarrow> Act list \<Rightarrow> System \<Rightarrow> bool"
  for E N place l c
where
  boot: "system_run E N place l c [] (boot l c)"
| step: "system_run E N place l c as y \<Longrightarrow> system_step E N place y a y' \<Longrightarrow> system_run E N place l c (as @ [a]) y'"

text \<open>The reports of a message one at a time are its reports in a row.\<close>

lemma send_reports_single: "send_reports E N (ev # evs) c sv = do {
    (k, c, sv) \<leftarrow> send_reports E N [ev] c sv;
    if k then send_reports E N evs c sv else Some (False, c, sv) }"
proof (cases "report_body ev")
  case (Some body)
  obtain w s where w: "send_execution_report E body (conn_session c) = (w, s)" by fastforce
  show ?thesis using Some w by (cases "write_all N w (c\<lparr>conn_session := s\<rparr>)") auto
qed simp

section \<open>The invariant\<close>

definition thread_ok :: "Thread \<Rightarrow> bool" where
  "thread_ok t \<longleftrightarrow> session_wf (conn_session (th_conn t)) \<and> soh (conn_session (th_conn t)) = kSohWire \<and>
     list_all (values_ok kSohWire) (th_pending t) \<and> list_all (event_ok kSohWire) (th_events t)"

definition system_ok :: "ServerConfig \<Rightarrow> System \<Rightarrow> bool" where
  "system_ok c y \<longleftrightarrow> server_ok (sys_server y) \<and> sv_cfg (sys_server y) = c \<and> finite (dom (sys_threads y)) \<and>
     (\<forall>fd t. sys_threads y fd = Some t \<longrightarrow> thread_ok t)"

definition surroundings_ok :: "(int \<Rightarrow> Env) \<Rightarrow> (int \<Rightarrow> Net) \<Rightarrow> ServerConfig \<Rightarrow> bool" where
  "surroundings_ok E N c \<longleftrightarrow> (\<forall>fd. env_ok (E fd) kSohWire \<and> net_law (N fd)) \<and>
     text_ok kSohWire (srv_sender_comp_id c) \<and> \<bar>srv_heartbeat_secs c\<bar> < 2 ^ 31"

lemma thread_ok_polling [simp]: "thread_ok (t\<lparr>th_polling := b\<rparr>) = thread_ok t"
  by (simp add: thread_ok_def)

lemma new_thread_ok:
  assumes "surroundings_ok E N c"
  shows "thread_ok (new_thread c)"
proof -
  have "config_ok kSohWire \<lparr>sender_comp_id = srv_sender_comp_id c, target_comp_id = [], heartbeat_secs = srv_heartbeat_secs c,
      reset_on_logon = True, outbound_history_size = 10000\<rparr>"
    using assms by (simp add: surroundings_ok_def config_ok_def text_ok_def)
  then have "session_wf (open_session c)" unfolding open_session_def by (intro new_session_wf) (simp_all add: plain_def)
  then show ?thesis by (simp add: thread_ok_def new_thread_def open_session_def new_session_def)
qed

lemma input_phase_ok:
  assumes t: "thread_ok t" and env: "env_ok E kSohWire" and net: "net_law N" and i: "phase_ok i (conn_session (th_conn t))"
  shows "(\<exists>e. input_phase E N i (th_conn t) sv = Some (Inl e)) \<or>
    (\<exists>k ms c a b. input_phase E N i (th_conn t) sv = Some (Inr (k, ms, c, counters a b sv)) \<and>
       thread_ok (t\<lparr>th_conn := c, th_pending := ms, th_open := k\<rparr>))"
proof -
  have wf: "session_wf (conn_session (th_conn t))" and sep: "soh (conn_session (th_conn t)) = kSohWire"
    using t by (simp_all add: thread_ok_def)
  have env': "env_ok E (soh (conn_session (th_conn t)))" using env sep by simp
  show ?thesis
  proof (cases i)
    case (Idle now)
    then have "room 1 (conn_session (th_conn t))" using i by (simp add: phase_ok_def)
    from tick_phase_ok [OF wf env' net this, of now sv] obtain k c b where
      "tick_phase E N now (th_conn t) sv = Some (k, c, counters (msgs_in sv) b sv)" "grown 1 (th_conn t) c" by blast
    with Idle sep t show ?thesis by (auto simp: input_phase_def thread_ok_def grown_def)
  next
    case (Data bytes now)
    then have "read_ok bytes (conn_session (th_conn t))" using i by (simp add: phase_ok_def)
    from read_phase_ok [OF wf env' net this, of now sv] Data sep t show ?thesis
      by (fastforce simp: input_phase_def thread_ok_def grown_def)
  next
    case (PollError x)
    have "sv = counters (msgs_in sv) (msgs_out sv) sv" by (simp add: counters_def)
    with PollError t show ?thesis by (auto simp: input_phase_def thread_ok_def)
  next
    case Closed
    have "sv = counters (msgs_in sv) (msgs_out sv) sv" by (simp add: counters_def)
    with Closed t show ?thesis by (auto simp: input_phase_def thread_ok_def)
  qed
qed

lemma locked_ok:
  assumes t: "thread_ok t" and sv: "server_ok sv" and p: "th_pending t = m # ms" and acc: "acceptable place m sv"
  shows "(\<exists>e. handle_app place m (sv\<lparr>msgs_in := i\<rparr>) = Some (Inl e)) \<or>
    (\<exists>evs sv'. handle_app place m (sv\<lparr>msgs_in := i\<rparr>) = Some (Inr (evs, sv')) \<and> server_ok sv' \<and> sv_cfg sv' = sv_cfg sv \<and>
       thread_ok (t\<lparr>th_pending := ms, th_events := evs\<rparr>))"
proof -
  have sv1: "server_ok (sv\<lparr>msgs_in := i\<rparr>)" "acceptable place m (sv\<lparr>msgs_in := i\<rparr>)" using sv acc by (simp_all add: server_ok_count)
  have v: "values_ok kSohWire m" using t p by (simp add: thread_ok_def)
  have "plain kSohWire" by (simp add: plain_def)
  note ev = handle_app_events [OF sv1 this v]
  from handle_app_ok [OF sv1] obtain r where
    r: "handle_app place m (sv\<lparr>msgs_in := i\<rparr>) = Some r" "case r of Inl _ \<Rightarrow> True | Inr (_, sv') \<Rightarrow> server_ok sv' \<and> sv_cfg sv' = sv_cfg (sv\<lparr>msgs_in := i\<rparr>)" by blast
  show ?thesis
  proof (cases r)
    case (Inl e)
    with r(1) show ?thesis by simp
  next
    case (Inr q)
    obtain evs sv' where "q = (evs, sv')" by (cases q)
    with r Inr ev [of evs sv'] t p show ?thesis by (simp add: thread_ok_def)
  qed
qed

lemma report_ok:
  assumes t: "thread_ok t" and env: "env_ok E kSohWire" and net: "net_law N" and ev: "th_events t = ev # evs"
    and room: "room 1 (conn_session (th_conn t))"
  shows "\<exists>k c i. send_reports E N [ev] (th_conn t) sv = Some (k, c, counters (msgs_in sv) i sv) \<and>
    thread_ok (t\<lparr>th_conn := c, th_events := (if k then evs else []), th_open := th_open t \<and> k\<rparr>)"
proof -
  have wf: "session_wf (conn_session (th_conn t))" "env_ok E (soh (conn_session (th_conn t)))"
      "list_all (event_ok (soh (conn_session (th_conn t)))) [ev]"
    using t env ev by (simp_all add: thread_ok_def)
  from send_reports_total [OF net wf(1,2) _ wf(3), of sv] room obtain k c i where
    "send_reports E N [ev] (th_conn t) sv = Some (k, c, counters (msgs_in sv) i sv)" "grown 1 (th_conn t) c" by auto
  then show ?thesis using t ev by (auto simp: thread_ok_def grown_def)
qed

lemma counters_ok: "server_ok (counters i j sv) = server_ok sv" "sv_cfg (counters i j sv) = sv_cfg sv"
  by simp (simp add: counters_def)

lemma system_ok_thread:
  assumes "system_ok c y" and "thread_ok t" and "server_ok sv" and "sv_cfg sv = c"
  shows "system_ok c (y\<lparr>sys_threads := (sys_threads y)(fd \<mapsto> t), sys_server := sv\<rparr>)"
  using assms by (auto simp: system_ok_def)

lemma system_step_ok:
  assumes "system_step E N place y a y'" and ok: "system_ok c y" and sur: "surroundings_ok E N c"
  shows "system_ok c y'"
proof -
  have sv: "server_ok (sys_server y)" "sv_cfg (sys_server y) = c" and th: "\<And>fd t. sys_threads y fd = Some t \<Longrightarrow> thread_ok t"
    using ok by (auto simp: system_ok_def)
  have env: "env_ok (E fd) kSohWire" "net_law (N fd)" for fd using sur by (simp_all add: surroundings_ok_def)
  from assms(1) show ?thesis
  proof cases
    case (spawn cli)
    with ok sv(2) new_thread_ok [OF sur] show ?thesis by (auto simp: system_ok_def)
  next
    case (test fd t)
    with ok th show ?thesis by (auto simp: system_ok_def)
  next
    case (input fd t i k ms c1 sv1)
    from input_phase_ok [OF th [OF input(3)] env [of fd] input(7), of "sys_server y"] input(8)
    have "thread_ok (t\<lparr>th_conn := c1, th_pending := ms, th_open := k, th_polling := False\<rparr>)" "\<exists>a b. sv1 = counters a b (sys_server y)"
      by (auto simp: thread_ok_def)
    then show ?thesis unfolding input(2) using ok sv by (intro system_ok_thread) (auto simp: counters_ok)
  next
    case (locked fd t m ms evs sv1)
    from locked_ok [OF th [OF locked(3)] sv(1) locked(4,6), of "msgs_in (sys_server y) + 1"] locked(7)
    have "thread_ok (t\<lparr>th_pending := ms, th_events := evs\<rparr>)" "server_ok sv1" "sv_cfg sv1 = c" by (auto simp: sv(2))
    then show ?thesis unfolding locked(2) using ok by (intro system_ok_thread)
  next
    case (report fd t ev evs k c1 sv1)
    from report_ok [OF th [OF report(3)] env [of fd] report(4,5), of "sys_server y"] report(6)
    have "thread_ok (t\<lparr>th_conn := c1, th_events := (if k then evs else []), th_open := th_open t \<and> k\<rparr>)"
      "\<exists>i. sv1 = counters (msgs_in (sys_server y)) i (sys_server y)" by auto
    then show ?thesis unfolding report(2) using ok sv by (intro system_ok_thread) (auto simp: counters_ok)
  next
    case (close fd t)
    with ok show ?thesis by (auto simp: system_ok_def)
  qed (use ok in \<open>simp_all add: system_ok_def\<close>)
qed

lemma system_run_ok:
  assumes "system_run E N place l c as y" and "surroundings_ok E N c"
  shows "system_ok c y"
  using assms(1)
proof induction
  case boot
  show ?case using new_server_ok by (simp add: system_ok_def boot_def new_server_def)
next
  case (step as y a y')
  then show ?case using system_step_ok assms(2) by blast
qed

end
