(* ===== verification/Net_Concurrency.thy ===== *)
theory Net_Concurrency
  imports Net_System
begin

text \<open>
  What the threads of the server do together. The lock serialises the engine: whatever the
  interleaving, the book is the one a single thread would get from the same messages in the
  order in which they took the lock, and each connection's messages are handled in the
  order it sent them. And after \<^verbatim>\<open>stop\<close> every thread comes to its end, so the joins return.
\<close>

section \<open>One message after the other\<close>

fun serial :: "(heap \<Rightarrow> addr) \<Rightarrow> AppMessage list \<Rightarrow> Server \<Rightarrow> (EventList list \<times> Server) option" where
  "serial place [] sv = Some ([], sv)"
| "serial place (m # ms) sv = do {
     r \<leftarrow> handle_app place m sv;
     (case r of
        Inl _ \<Rightarrow> None
      | Inr (evs, sv) \<Rightarrow> do {
          (es, sv) \<leftarrow> serial place ms sv;
          Some (evs # es, sv) }) }"

lemma serial_snoc:
  "serial place ms sv = Some (es, sv1) \<Longrightarrow> handle_app place m sv1 = Some (Inr (evs, sv2)) \<Longrightarrow>
   serial place (ms @ [m]) sv = Some (es @ [evs], sv2)"
  by (induction ms arbitrary: sv es) (auto split: bind_splits sum.splits)

fun handled :: "Act list \<Rightarrow> (int \<times> AppMessage \<times> EventList) list" where
  "handled [] = []"
| "handled (a # as) = (case a of Handled fd m evs \<Rightarrow> [(fd, m, evs)] | _ \<Rightarrow> []) @ handled as"

fun delivered :: "int \<Rightarrow> Act list \<Rightarrow> AppMessage list" where
  "delivered fd [] = []"
| "delivered fd (a # as) = (case a of Delivered x ms \<Rightarrow> if x = fd then ms else [] | _ \<Rightarrow> []) @ delivered fd as"

definition handled_by :: "int \<Rightarrow> Act list \<Rightarrow> AppMessage list" where
  "handled_by fd as = map (\<lambda>(_, m, _). m) (filter (\<lambda>h. fst h = fd) (handled as))"

lemma handled_snoc [simp]: "handled (as @ [a]) = handled as @ (case a of Handled fd m evs \<Rightarrow> [(fd, m, evs)] | _ \<Rightarrow> [])"
  by (induction as) simp_all

lemma delivered_snoc [simp]:
  "delivered fd (as @ [a]) = delivered fd as @ (case a of Delivered x ms \<Rightarrow> if x = fd then ms else [] | _ \<Rightarrow> [])"
  by (induction as) simp_all

lemma handled_by_snoc [simp]:
  "handled_by fd (as @ [a]) = handled_by fd as @ (case a of Handled x m evs \<Rightarrow> if x = fd then [m] else [] | _ \<Rightarrow> [])"
  by (cases a) (simp_all add: handled_by_def)

abbreviation pending :: "System \<Rightarrow> int \<Rightarrow> AppMessage list" where
  "pending y fd \<equiv> (case sys_threads y fd of None \<Rightarrow> [] | Some t \<Rightarrow> th_pending t)"

lemma handle_app_counted:
  assumes "handle_app place m (counters i j sv) = Some (Inr (evs, sv'))"
  shows "\<exists>sv1. handle_app place m sv = Some (Inr (evs, sv1)) \<and> sv' = counters i j sv1"
  using assms unfolding handle_app_counters
  by (cases "handle_app place m sv") (auto simp: map_sum_def apsnd_def split: sum.splits)

text \<open>What a step does to the shared state, up to the message counters, and to the pending messages.\<close>

lemma system_step_server:
  assumes "system_step E N place y a y'" and ok: "system_ok c y" and sur: "surroundings_ok E N c"
  shows "\<exists>i j. case a of
      Handled fd m evs \<Rightarrow> \<exists>sv. handle_app place m (sys_server y) = Some (Inr (evs, sv)) \<and> sys_server y' = counters i j sv
    | _ \<Rightarrow> sys_server y' = counters i j (sys_server y)"
proof -
  have same: "sys_server y = counters (msgs_in (sys_server y)) (msgs_out (sys_server y)) (sys_server y)" by (simp add: counters_def)
  have th: "\<And>fd t. sys_threads y fd = Some t \<Longrightarrow> thread_ok t" using ok by (auto simp: system_ok_def)
  have env: "env_ok (E fd) kSohWire" "net_law (N fd)" for fd using sur by (simp_all add: surroundings_ok_def)
  from assms(1) show ?thesis
  proof cases
    case (input fd t i k ms c1 sv1)
    from input_phase_ok [OF th [OF input(3)] env [of fd] input(7), of "sys_server y"] input show ?thesis by auto
  next
    case (locked fd t m ms evs sv1)
    from locked(7) have "handle_app place m (counters (msgs_in (sys_server y) + 1) (msgs_out (sys_server y)) (sys_server y)) = Some (Inr (evs, sv1))"
      by (simp add: counters_cases)
    from handle_app_counted [OF this] locked show ?thesis by auto
  next
    case (report fd t ev evs k c1 sv1)
    from report_ok [OF th [OF report(3)] env [of fd] report(4,5), of "sys_server y"] report show ?thesis by auto
  qed (use same in auto)
qed

lemma system_step_pending:
  assumes "system_step E N place y a y'"
  shows "pending y fd @ (case a of Delivered x ms \<Rightarrow> if x = fd then ms else [] | _ \<Rightarrow> []) =
    (case a of Handled x m evs \<Rightarrow> if x = fd then [m] else [] | _ \<Rightarrow> []) @ pending y' fd"
  using assms by cases (auto simp: new_thread_def split: option.splits)

lemma run_serial:
  assumes "system_run E N place l c as y" and sur: "surroundings_ok E N c"
  shows "(\<exists>i j sv. serial place (map (\<lambda>(_, m, _). m) (handled as)) (new_server c) =
      Some (map (\<lambda>(_, _, evs). evs) (handled as), sv) \<and> sys_server y = counters i j sv) \<and>
    (\<forall>fd. delivered fd as = handled_by fd as @ pending y fd)"
  using assms(1)
proof induction
  case boot
  have "new_server c = counters 0 0 (new_server c)" by (simp add: counters_def new_server_def)
  then show ?case by (auto simp: boot_def handled_by_def)
next
  case (step as y a y')
  then obtain i j sv where s: "serial place (map (\<lambda>(_, m, _). m) (handled as)) (new_server c) =
      Some (map (\<lambda>(_, _, evs). evs) (handled as), sv)" "sys_server y = counters i j sv" by blast
  from system_step_server [OF step(2) system_run_ok [OF step(1) sur] sur] obtain i' j' where
    sv': "case a of Handled fd m evs \<Rightarrow> \<exists>sv. handle_app place m (sys_server y) = Some (Inr (evs, sv)) \<and> sys_server y' = counters i' j' sv
      | _ \<Rightarrow> sys_server y' = counters i' j' (sys_server y)" by blast
  have "\<exists>i j sv. serial place (map (\<lambda>(_, m, _). m) (handled (as @ [a]))) (new_server c) =
      Some (map (\<lambda>(_, _, evs). evs) (handled (as @ [a])), sv) \<and> sys_server y' = counters i j sv"
  proof (cases a)
    case (Handled fd m evs)
    with sv' s(2) obtain sv1 where "handle_app place m (counters i j sv) = Some (Inr (evs, sv1))" "sys_server y' = counters i' j' sv1" by auto
    with handle_app_counted [OF this(1)] serial_snoc [OF s(1)] Handled show ?thesis by fastforce
  qed (use s sv' in auto)
  moreover have "delivered fd (as @ [a]) = handled_by fd (as @ [a]) @ pending y' fd" for fd
    using step.IH system_step_pending [OF step(2), of fd] by (simp add: append_assoc)
  ultimately show ?case by blast
qed

section \<open>Shutting down\<close>

definition total :: "(Thread \<Rightarrow> nat) \<Rightarrow> System \<Rightarrow> nat" where
  "total f y = (\<Sum>fd \<in> dom (sys_threads y). f (the (sys_threads y fd)))"

lemma total_remove:
  assumes "finite (dom (sys_threads y))" and "sys_threads y fd = Some t"
  shows "total f y = f t + total f (y\<lparr>sys_threads := (sys_threads y)(fd := None)\<rparr>)"
proof -
  have "total f y = f t + (\<Sum>x \<in> dom (sys_threads y) - {fd}. f (the (sys_threads y x)))"
    unfolding total_def using assms by (subst sum.remove [of _ fd]) auto
  also have "(\<Sum>x \<in> dom (sys_threads y) - {fd}. f (the (sys_threads y x))) = total f (y\<lparr>sys_threads := (sys_threads y)(fd := None)\<rparr>)"
    unfolding total_def by (rule sum.cong) auto
  finally show ?thesis .
qed

lemma total_replace:
  assumes "finite (dom (sys_threads y))" and "sys_threads y fd = Some t"
  shows "total f (y\<lparr>sys_threads := (sys_threads y)(fd \<mapsto> t'), sys_server := sv\<rparr>) + f t = total f y + f t'"
proof -
  let ?y = "y\<lparr>sys_threads := (sys_threads y)(fd \<mapsto> t'), sys_server := sv\<rparr>"
  have "total f ?y = f t' + total f (?y\<lparr>sys_threads := (sys_threads ?y)(fd := None)\<rparr>)"
    using assms by (intro total_remove) simp_all
  moreover have "total f (?y\<lparr>sys_threads := (sys_threads ?y)(fd := None)\<rparr>) = total f (y\<lparr>sys_threads := (sys_threads y)(fd := None)\<rparr>)"
    by (simp add: total_def fun_upd_upd)
  ultimately show ?thesis using total_remove [OF assms, of f] by simp
qed

text \<open>
  What is left to do, most significant first: the acceptor, the threads that tested the
  flag before it was cleared and will read once more, the messages to handle, the reports
  to send, the threads to end, the join.
\<close>

primrec acceptor_left :: "Acceptor \<Rightarrow> nat" where
  "acceptor_left AtLoop = 1"
| "acceptor_left InAccept = 2"
| "acceptor_left Ended = 0"

definition remaining :: "(System \<times> System) set" where
  "remaining = measures [\<lambda>y. acceptor_left (sys_acceptor y), total (\<lambda>t. of_bool (th_polling t)), total (\<lambda>t. length (th_pending t)), total (\<lambda>t. length (th_events t)),
     total (\<lambda>_. 1), \<lambda>y. if sys_phase y = Joined then 0 else 1]"

lemma stopped_step_decreases:
  assumes "system_step E N place y a y'" and fin: "finite (dom (sys_threads y))" and stop: "\<not> running (sys_listener y)"
  shows "(y', y) \<in> remaining"
  using assms(1)
proof cases
  case (input fd t i k ms c sv)
  from total_replace [OF fin input(3), of "\<lambda>t. of_bool (th_polling t)" sv "t\<lparr>th_conn := c, th_pending := ms, th_open := k, th_polling := False\<rparr>"] input
  show ?thesis by (simp add: remaining_def)
next
  case (locked fd t m ms evs sv)
  let ?t = "t\<lparr>th_pending := ms, th_events := evs\<rparr>"
  from total_replace [OF fin locked(3), of "\<lambda>t. of_bool (th_polling t)" sv ?t] total_replace [OF fin locked(3), of "\<lambda>t. length (th_pending t)" sv ?t] locked
  show ?thesis by (simp add: remaining_def)
next
  case (report fd t ev evs k c sv)
  let ?t = "t\<lparr>th_conn := c, th_events := (if k then evs else []), th_open := th_open t \<and> k\<rparr>"
  from total_replace [OF fin report(3), of "\<lambda>t. of_bool (th_polling t)" sv ?t] total_replace [OF fin report(3), of "\<lambda>t. length (th_pending t)" sv ?t]
    total_replace [OF fin report(3), of "\<lambda>t. length (th_events t)" sv ?t] report
  show ?thesis by (simp add: remaining_def split: if_splits)
next
  case (close fd t)
  from total_remove [OF fin close(3), of "\<lambda>t. of_bool (th_polling t)"] total_remove [OF fin close(3), of "\<lambda>t. length (th_pending t)"] total_remove [OF fin close(3), of "\<lambda>t. length (th_events t)"]
    total_remove [OF fin close(3), of "\<lambda>_. 1"] close
  show ?thesis by (simp add: remaining_def)
qed (use stop in \<open>auto simp: remaining_def accept_enter_def accept_leave_def total_def split: if_splits\<close>)

text \<open>The phases of \<^verbatim>\<open>stop\<close>.\<close>

definition phase_inv :: "System \<Rightarrow> bool" where
  "phase_inv y \<longleftrightarrow> (running (sys_listener y) \<longleftrightarrow> sys_phase y = Serving) \<and>
     (sys_phase y \<noteq> Serving \<longrightarrow> listen_fd (sys_listener y) = - 1) \<and>
     (sys_phase y = Joined \<longrightarrow> sys_acceptor y = Ended \<and> sys_threads y = Map.empty)"

lemma phase_inv_step: "system_step E N place y a y' \<Longrightarrow> phase_inv y \<Longrightarrow> phase_inv y'"
  by (cases rule: system_step.cases, assumption) (auto simp: phase_inv_def stop_def Let_def)

lemma system_run_phase: "system_run E N place l c as y \<Longrightarrow> running l \<Longrightarrow> phase_inv y"
proof (induction rule: system_run.induct)
  case boot
  then show ?case by (simp add: phase_inv_def boot_def)
next
  case (step as y a y')
  then show ?case using phase_inv_step by blast
qed

text \<open>
  What a thread needs to go on: numbers for its reports, and a next message the engine
  takes and that does not throw.
\<close>

definition able :: "(heap \<Rightarrow> addr) \<Rightarrow> System \<Rightarrow> bool" where
  "able place y \<longleftrightarrow> (\<forall>fd t. sys_threads y fd = Some t \<longrightarrow> room 1 (conn_session (th_conn t)) \<and>
     (\<forall>m ms. th_pending t = m # ms \<longrightarrow> acceptable place m (sys_server y) \<and> (\<forall>e. handle_app place m (sys_server y) \<noteq> Some (Inl e))))"

lemma thread_progress:
  assumes ok: "system_ok c y" and sur: "surroundings_ok E N c" and able: "able place y" and t: "sys_threads y fd = Some t"
    and stop: "\<not> running (sys_listener y)"
  shows "\<exists>a y'. system_step E N place y a y'"
proof -
  have th: "thread_ok t" and sv: "server_ok (sys_server y)" using ok t by (auto simp: system_ok_def)
  have env: "env_ok (E fd) kSohWire" "net_law (N fd)" using sur by (simp_all add: surroundings_ok_def)
  have room: "room 1 (conn_session (th_conn t))" using able t unfolding able_def by blast
  consider (report) ev evs where "th_events t = ev # evs" | (locked) m ms where "th_events t = []" "th_pending t = m # ms"
    | (input) "th_events t = []" "th_pending t = []" "th_polling t" | (close) "th_events t = []" "th_pending t = []" "\<not> th_polling t" by (metis list.exhaust)
  then show ?thesis
  proof cases
    case report
    from report_ok [OF th env report room] system_step.report [OF t report room] show ?thesis by blast
  next
    case locked
    have acc: "acceptable place m (sys_server y)" "\<And>e. handle_app place m (sys_server y) \<noteq> Some (Inl e)"
      using able t locked unfolding able_def by blast+
    let ?i = "msgs_in (sys_server y) + 1"
    have "handle_app place m ((sys_server y)\<lparr>msgs_in := ?i\<rparr>) \<noteq> Some (Inl e)" for e
      using acc(2) by (cases "handle_app place m (sys_server y)")
        (auto simp: counters_cases handle_app_counters map_sum_def split: sum.splits)
    with locked_ok [OF th sv locked(2) acc(1), of ?i] system_step.locked [OF t locked(2,1) acc(1)] show ?thesis by blast
  next
    case input
    have i: "phase_ok (Idle now) (conn_session (th_conn t))" for now using room by (simp add: phase_ok_def)
    have "input_phase (E fd) (N fd) (Idle now) (th_conn t) (sys_server y) \<noteq> Some (Inl e)" for now e by (auto simp: input_phase_def)
    with input_phase_ok [OF th env i, of 0 "sys_server y"] system_step.input [OF t input(3,2,1) i, of E N 0] show ?thesis by blast
  next
    case close
    from system_step.close [OF t close(3,2,1)] stop show ?thesis by blast
  qed
qed

lemma stopping_progress:
  assumes ok: "system_ok c y" and sur: "surroundings_ok E N c" and able: "able place y" and inv: "phase_inv y" and ph: "sys_phase y = Stopping"
  shows "\<exists>a y'. system_step E N place y a y'"
proof -
  have stop: "\<not> running (sys_listener y)" using inv ph by (simp add: phase_inv_def)
  show ?thesis
  proof (cases "sys_acceptor y")
    case AtLoop
    from system_step.enter [OF this] show ?thesis by blast
  next
    case InAccept
    have "accept_leave (- 1) (sys_listener y) \<in> {Return, Again}" by (simp add: accept_leave_def)
    from system_step.leave [OF InAccept this] show ?thesis by blast
  next
    case Ended
    show ?thesis
    proof (cases "sys_threads y = Map.empty")
      case True
      from system_step.join [OF ph Ended this] show ?thesis by blast
    next
      case False
      then obtain fd t where "sys_threads y fd = Some t" by (meson not_Some_eq)
      from thread_progress [OF ok sur able this stop] show ?thesis .
    qed
  qed
qed

lemma shutdown:
  assumes sur: "surroundings_ok E N c" and l: "running l"
  shows "wf {(y', y). (\<exists>as. system_run E N place l c as y) \<and> sys_phase y \<noteq> Serving \<and> (\<exists>a. system_step E N place y a y')}"
    and "system_run E N place l c as y \<Longrightarrow> sys_phase y \<noteq> Serving \<Longrightarrow> able place y \<Longrightarrow>
      (sys_phase y = Joined \<and> sys_acceptor y = Ended \<and> sys_threads y = Map.empty \<and> listen_fd (sys_listener y) = - 1) \<or>
      (\<exists>a y'. system_step E N place y a y')"
proof -
  have "wf remaining" by (simp add: remaining_def)
  moreover have "(y', y) \<in> remaining" if "system_run E N place l c as y" "sys_phase y \<noteq> Serving" "system_step E N place y a y'" for y y' as a
    using stopped_step_decreases [OF that(3)] system_run_ok [OF that(1) sur] system_run_phase [OF that(1) l] that(2)
    by (auto simp: system_ok_def phase_inv_def)
  ultimately show "wf {(y', y). (\<exists>as. system_run E N place l c as y) \<and> sys_phase y \<noteq> Serving \<and> (\<exists>a. system_step E N place y a y')}"
    by (auto intro: wf_subset)
  assume r: "system_run E N place l c as y" and ph: "sys_phase y \<noteq> Serving" and able: "able place y"
  have inv: "phase_inv y" by (rule system_run_phase [OF r l])
  show "(sys_phase y = Joined \<and> sys_acceptor y = Ended \<and> sys_threads y = Map.empty \<and> listen_fd (sys_listener y) = - 1) \<or>
      (\<exists>a y'. system_step E N place y a y')"
    using stopping_progress [OF system_run_ok [OF r sur] sur able inv] inv ph by (cases "sys_phase y") (auto simp: phase_inv_def)
qed

end
