(* ===== verification/Server_Main.thy ===== *)
theory Server_Main
  imports Net_System
begin

text \<open>
  \<^verbatim>\<open>src/main.cpp\<close>: the configuration the server is started with, from the command line and
  the environment, and the life of the server in \<^verbatim>\<open>main\<close>, from its start to the signal that
  ends it, with the lines it logs (\<^verbatim>\<open>src/obs/logger.h\<close>). When signals arrive is an input.
\<close>

text \<open>\<^verbatim>\<open>std::stoi\<close>, which reads a \<^verbatim>\<open>long\<close> and checks that it is an \<^verbatim>\<open>int\<close>.\<close>

definition stoi :: "string \<Rightarrow> exn + int" where
  "stoi s =
     (case stoll s of
        Inl e \<Rightarrow> Inl e
      | Inr i \<Rightarrow> if i < - (2 ^ 31) \<or> i \<ge> 2 ^ 31 then Inl OutOfRange else Inr i)"

definition algo_of :: "string \<Rightarrow> MatchAlgo" where
  "algo_of v = (if v = ''fifo'' then Fifo else ProRata)"

fun parse_args :: "string list \<Rightarrow> ServerConfig \<Rightarrow> exn + ServerConfig" where
  "parse_args [] c = Inr c"
| "parse_args [a] c = Inr c"
| "parse_args (a # v # as) c =
     (if a = ''--port'' then
        (case stoi v of Inl e \<Rightarrow> Inl e | Inr i \<Rightarrow> parse_args as (c\<lparr>srv_port := of_int i\<rparr>))
      else if a = ''--host'' then parse_args as (c\<lparr>srv_host := v\<rparr>)
      else if a = ''--algo'' then parse_args as (c\<lparr>srv_algo := algo_of v\<rparr>)
      else parse_args (v # as) c)"

definition main_config :: "string list \<Rightarrow> string option \<Rightarrow> exn + ServerConfig" where
  "main_config as env =
     (case parse_args as (default_config\<lparr>srv_host := ''127.0.0.1'', srv_port := 9876\<rparr>) of
        Inl e \<Rightarrow> Inl e
      | Inr c \<Rightarrow> Inr (case env of None \<Rightarrow> c | Some v \<Rightarrow> c\<lparr>srv_algo := algo_of v\<rparr>))"

section \<open>Logging\<close>

text \<open>
  The lines of \<^verbatim>\<open>obs/logger.h\<close> on the error output. \<^verbatim>\<open>%.*s\<close> stops at a null byte; the sizes
  of both texts are below 2^31.
\<close>

definition printed :: "string \<Rightarrow> string" where
  "printed s = takeWhile (\<lambda>c. c \<noteq> CHR 0x00) s"

definition log_info :: "string \<Rightarrow> string \<Rightarrow> string" where
  "log_info t m = ''[INFO] '' @ printed t @ '': '' @ printed m @ [CHR 0x0A]"

definition log_warn :: "string \<Rightarrow> string \<Rightarrow> string" where
  "log_warn t m = ''[WARN] '' @ printed t @ '': '' @ printed m @ [CHR 0x0A]"

section \<open>Running the server\<close>

datatype Signal = SIGINT | SIGTERM

definition on_sig :: "Signal \<Rightarrow> bool \<Rightarrow> bool" where
  "on_sig sig g_stop = True"

text \<open>
  The loop that waits for a signal, over the signals delivered in each of its sleeps.
  \<^const>\<open>False\<close> means that it is still waiting after the last one.
\<close>

fun sleep_loop :: "bool \<Rightarrow> Signal list list \<Rightarrow> bool" where
  "sleep_loop g_stop [] = g_stop"
| "sleep_loop g_stop (sigs # rounds) = (if g_stop then True else sleep_loop (fold on_sig sigs g_stop) rounds)"

lemma fold_on_sig: "fold on_sig sigs g \<longleftrightarrow> g \<or> sigs \<noteq> []"
  by (induction sigs arbitrary: g) (simp_all add: on_sig_def)

lemma sleep_loop_signalled: "sleep_loop g rounds \<longleftrightarrow> g \<or> list_ex (\<lambda>sigs. sigs \<noteq> []) rounds"
  by (induction rounds arbitrary: g) (auto simp: fold_on_sig)

text \<open>
  The exit status (\<^const>\<open>None\<close> while the server runs), the listener, the descriptors closed
  and what was logged. \<^verbatim>\<open>stop\<close> is also the destructor.
\<close>

definition listening :: "ServerConfig \<Rightarrow> Listener \<Rightarrow> string" where
  "listening c l = log_info ''main'' (''listening on '' @ srv_host c @ '':'' @ show_nat (unat (bound_port l)))"

definition server_main ::
  "Sockets \<Rightarrow> string list \<Rightarrow> string option \<Rightarrow> Signal list list \<Rightarrow> exn + (int option \<times> Listener \<times> int list \<times> string)"
where
  "server_main os as env rounds =
     (case main_config as env of
        Inl e \<Rightarrow> Inl e
      | Inr c \<Rightarrow>
          (let (started, l, closed1) = start os c new_listener in
           if \<not> started then
             let out = log_warn ''main'' ''server failed to start''; (l, closed2) = stop l in
             Inr (Some 1, l, closed1 @ closed2, out)
           else
             let out = listening c l in
             if \<not> sleep_loop False rounds then Inr (None, l, closed1, out)
             else let (l, closed2) = stop l; (l, closed3) = stop l in Inr (Some 0, l, closed1 @ closed2 @ closed3, out)))"

lemma server_main_closes:
  assumes "start os c new_listener = (started, l1, closed1)" and "stop l1 = (l2, closed2)" and "os_socket os \<ge> 0" and "main_config as env = Inr c"
  shows "server_main os as env rounds = Inr (
    if \<not> started then (Some 1, l2, [os_socket os], log_warn ''main'' ''server failed to start'')
    else if list_ex (\<lambda>sigs. sigs \<noteq> []) rounds then (Some 0, l2, [os_socket os], listening c l1)
    else (None, l1, [], listening c l1))"
proof -
  have "closed1 @ closed2 = [os_socket os]" "started \<longleftrightarrow> running l1" "stop l2 = (l2, [])" "started \<longrightarrow> closed1 = []"
    using start_stop [OF assms(1,2) _ assms(3)] assms(1) by (auto simp: new_listener_def start_def Let_def split: if_splits)
  with assms show ?thesis by (auto simp: server_main_def sleep_loop_signalled)
qed

section \<open>Options\<close>

definition option_ok :: "string \<times> string \<Rightarrow> bool" where
  "option_ok kv \<longleftrightarrow> fst kv \<in> {''--port'', ''--host'', ''--algo''} \<and> (fst kv = ''--port'' \<longrightarrow> \<not> isl (stoi (snd kv)))"

definition flatten :: "(string \<times> string) list \<Rightarrow> string list" where
  "flatten os = concat (map (\<lambda>(k, v). [k, v]) os)"

definition apply_option :: "ServerConfig \<Rightarrow> string \<times> string \<Rightarrow> ServerConfig" where
  "apply_option c kv =
     (if fst kv = ''--port'' then c\<lparr>srv_port := of_int (projr (stoi (snd kv)))\<rparr>
      else if fst kv = ''--host'' then c\<lparr>srv_host := snd kv\<rparr>
      else c\<lparr>srv_algo := algo_of (snd kv)\<rparr>)"

lemma parse_args_step:
  assumes "option_ok (k, v)"
  shows "parse_args (k # v # as) c = parse_args as (apply_option c (k, v))"
proof -
  from assms consider "k = ''--port''" "\<not> isl (stoi v)" | "k = ''--host''" | "k = ''--algo''" by (auto simp: option_ok_def)
  then show ?thesis by cases (auto simp: apply_option_def split: sum.split)
qed

lemma parse_args_options: "list_all option_ok os \<Longrightarrow> parse_args (flatten os) c = Inr (foldl apply_option c os)"
proof (induction os arbitrary: c)
  case (Cons kv os)
  obtain k v where kv: "kv = (k, v)" by (cases kv)
  have "flatten (kv # os) = k # v # flatten os" by (simp add: kv flatten_def)
  with Cons kv show ?case by (simp add: parse_args_step del: parse_args.simps)
qed (simp add: flatten_def)

definition last_option :: "string \<Rightarrow> (string \<times> string) list \<Rightarrow> ('a) \<Rightarrow> (string \<Rightarrow> 'a) \<Rightarrow> 'a" where
  "last_option k os d f = (case map_of (rev os) k of None \<Rightarrow> d | Some v \<Rightarrow> f v)"

lemma foldl_options:
  assumes "list_all option_ok os"
  shows "srv_host (foldl apply_option c os) = last_option ''--host'' os (srv_host c) id \<and>
    srv_port (foldl apply_option c os) = last_option ''--port'' os (srv_port c) (\<lambda>v. of_int (projr (stoi v))) \<and>
    srv_algo (foldl apply_option c os) = last_option ''--algo'' os (srv_algo c) algo_of \<and>
    srv_sender_comp_id (foldl apply_option c os) = srv_sender_comp_id c \<and>
    srv_heartbeat_secs (foldl apply_option c os) = srv_heartbeat_secs c"
  using assms
proof (induction os rule: rev_induct)
  case (snoc kv os)
  obtain k v where kv: "kv = (k, v)" by (cases kv)
  from snoc.prems kv consider "k = ''--port''" | "k = ''--host''" | "k = ''--algo''" by (auto simp: option_ok_def)
  then show ?case using snoc by cases (simp_all add: kv apply_option_def last_option_def)
qed (simp add: last_option_def)

lemma main_config_options:
  assumes "list_all option_ok os"
  shows "\<exists>c. main_config (flatten os) env = Inr c \<and>
    srv_host c = last_option ''--host'' os ''127.0.0.1'' id \<and>
    srv_port c = last_option ''--port'' os 9876 (\<lambda>v. of_int (projr (stoi v))) \<and>
    srv_algo c = (case env of Some v \<Rightarrow> algo_of v | None \<Rightarrow> last_option ''--algo'' os ProRata algo_of) \<and>
    srv_sender_comp_id c = ''OBFIX'' \<and> srv_heartbeat_secs c = 30"
  using foldl_options [OF assms, of "default_config\<lparr>srv_host := ''127.0.0.1'', srv_port := 9876\<rparr>"]
  by (simp add: main_config_def parse_args_options [OF assms] default_config_def split: option.split)

end
