(* ===== verification/Obs_Histogram.thy ===== *)
theory Obs_Histogram
  imports OB_Types "HOL-Library.Multiset"
begin

text \<open>
  \<^verbatim>\<open>src/obs/histogram.h\<close>: the logarithmic latency histogram. The specification is the list
  of recorded samples: the buckets count them by magnitude, merging is concatenation, and
  a quantile is within a factor of two of the true one.
\<close>

record LogHistogram =
  buckets :: "u64 list"
  hist_count :: u64
  hist_sum :: u64

definition new_histogram :: LogHistogram where
  "new_histogram = \<lparr>buckets = replicate 64 0, hist_count = 0, hist_sum = 0\<rparr>"

function bucket_loop :: "u64 \<Rightarrow> nat \<Rightarrow> nat" where
  "bucket_loop ns b = (let ns = drop_bit 1 ns in if ns = 0 then b else bucket_loop ns (Suc b))"
  by pat_completeness auto
termination
proof (relation "measure (\<lambda>(ns, b). unat ns)")
  fix ns x :: u64 and b :: nat
  assume "x = drop_bit 1 ns" "x \<noteq> 0"
  then have "unat x = unat ns div 2" by (simp add: drop_bit_eq_div unat_div_distrib)
  moreover have "unat x \<noteq> 0" using \<open>x \<noteq> 0\<close> by (simp only: unat_eq_zero not_False_eq_True)
  ultimately show "((x, Suc b), (ns, b)) \<in> measure (\<lambda>(ns, b). unat ns)" by simp
qed simp

declare bucket_loop.simps [simp del]

definition bucket_for :: "u64 \<Rightarrow> nat" where
  "bucket_for ns = (let b = bucket_loop ns 0 in if b \<ge> 64 then 63 else b)"

definition record_ns :: "u64 \<Rightarrow> LogHistogram \<Rightarrow> LogHistogram" where
  "record_ns ns h =
     (let ns = (if ns = 0 then 1 else ns); b = bucket_for ns in
      h\<lparr>buckets := (buckets h)[b := buckets h ! b + 1], hist_count := hist_count h + 1,
        hist_sum := hist_sum h + ns\<rparr>)"

definition merge :: "LogHistogram \<Rightarrow> LogHistogram \<Rightarrow> LogHistogram" where
  "merge h other = h\<lparr>buckets := map (\<lambda>i. buckets h ! i + buckets other ! i) [0..<64],
     hist_count := hist_count h + hist_count other, hist_sum := hist_sum h + hist_sum other\<rparr>"

text \<open>
  The upper bound of bucket \<open>b\<close>. Shifting a 64-bit value by 64 is undefined, which is the
  value \<^const>\<open>None\<close>.
\<close>

definition upper_bound :: "nat \<Rightarrow> u64 option" where
  "upper_bound b = (if b + 1 < 64 then Some (push_bit (b + 1) 1) else None)"

fun quantile_loop :: "u64 \<Rightarrow> u64 \<Rightarrow> u64 list \<Rightarrow> nat \<Rightarrow> u64 option" where
  "quantile_loop target acc [] b = Some (push_bit 63 1)"
| "quantile_loop target acc (n # ns) b =
     (if acc + n \<ge> target then upper_bound b else quantile_loop target (acc + n) ns (Suc b))"

text \<open>
  The product of the requested quantile and the count is computed in floating point and
  truncated; \<open>scale\<close> is that function of the count.
\<close>

definition quantile :: "(u64 \<Rightarrow> u64) \<Rightarrow> LogHistogram \<Rightarrow> u64 option" where
  "quantile scale h = (if hist_count h = 0 then Some 0 else quantile_loop (scale (hist_count h)) 0 (buckets h) 0)"

section \<open>Buckets\<close>

lemma bucket_loop_eq:
  assumes "ns \<noteq> 0"
  shows "\<exists>k. bucket_loop ns b = b + k \<and> 2 ^ k \<le> unat ns \<and> unat ns < 2 ^ Suc k"
  using assms
proof (induction ns b rule: bucket_loop.induct)
  case (1 ns b)
  let ?m = "drop_bit 1 ns"
  have m: "unat ?m = unat ns div 2" by (simp add: drop_bit_eq_div unat_div_distrib)
  show ?case
  proof (cases "?m = 0")
    case True
    then have "unat ns < 2" using m by simp
    moreover have "unat ns \<noteq> 0" using 1(2) by (simp add: unat_eq_zero)
    ultimately have "unat ns = 1" by simp
    with True show ?thesis by (subst bucket_loop.simps) (auto simp: Let_def intro: exI [of _ 0])
  next
    case False
    from 1(1) [OF refl False False] obtain k where
      k: "bucket_loop ?m (Suc b) = Suc b + k" "2 ^ k \<le> unat ?m" "unat ?m < 2 ^ Suc k" by blast
    have "bucket_loop ns b = b + Suc k" using False k(1) by (subst bucket_loop.simps) (simp add: Let_def)
    moreover have "2 ^ Suc k \<le> unat ns" "unat ns < 2 ^ Suc (Suc k)" using k(2,3) m by auto
    ultimately show ?thesis by blast
  qed
qed

lemma bucket_for_bounds:
  assumes "ns \<noteq> 0"
  shows "bucket_for ns < 64" "2 ^ bucket_for ns \<le> unat ns" "unat ns < 2 ^ Suc (bucket_for ns)"
proof -
  from bucket_loop_eq [OF assms, of 0] obtain k where
    k: "bucket_loop ns 0 = k" "2 ^ k \<le> unat ns" "unat ns < 2 ^ Suc k" by auto
  have "(2 :: nat) ^ k < 2 ^ 64" using k(2) unat_u64_lt [of ns] by simp
  then have "k < 64" by (rule power_less_imp_less_exp [rotated]) simp
  with k show "bucket_for ns < 64" "2 ^ bucket_for ns \<le> unat ns" "unat ns < 2 ^ Suc (bucket_for ns)"
    by (simp_all add: bucket_for_def Let_def)
qed

section \<open>Samples\<close>

definition sample :: "u64 \<Rightarrow> u64" where
  "sample ns = (if ns = 0 then 1 else ns)"

lemma sample_nz [simp]: "sample ns \<noteq> 0"
  by (simp add: sample_def)

definition histogram_of :: "u64 list \<Rightarrow> LogHistogram" where
  "histogram_of xs = fold record_ns xs new_histogram"

definition in_bucket :: "nat \<Rightarrow> u64 list \<Rightarrow> nat" where
  "in_bucket b xs = length (filter (\<lambda>x. bucket_for (sample x) = b) xs)"

definition counts :: "u64 list \<Rightarrow> LogHistogram" where
  "counts xs = \<lparr>buckets = map (\<lambda>b. of_nat (in_bucket b xs)) [0..<64], hist_count = of_nat (length xs),
     hist_sum = sum_list (map sample xs)\<rparr>"

lemma record_counts: "record_ns x (counts xs) = counts (xs @ [x])"
proof -
  let ?b = "bucket_for (sample x)"
  have b: "?b < 64" by (rule bucket_for_bounds) simp
  have "(map (\<lambda>b. of_nat (in_bucket b xs)) [0..<64])[?b := of_nat (in_bucket ?b xs) + 1 :: u64] =
      map (\<lambda>b. of_nat (in_bucket b (xs @ [x]))) [0..<64]"
    by (rule nth_equalityI) (auto simp: nth_list_update in_bucket_def)
  then show ?thesis using b by (simp add: record_ns_def counts_def sample_def [symmetric] Let_def)
qed

lemma histogram_of_counts: "histogram_of xs = counts xs"
proof (induction xs rule: rev_induct)
  case Nil
  have "map (\<lambda>b. 0 :: u64) [0..<64] = replicate 64 0" by (rule nth_equalityI) simp_all
  then show ?case by (simp add: histogram_of_def counts_def new_histogram_def in_bucket_def)
next
  case (snoc x xs)
  then show ?case by (simp add: histogram_of_def record_counts)
qed

lemma merge_histogram_of: "merge (histogram_of xs) (histogram_of ys) = histogram_of (xs @ ys)"
  by (simp add: histogram_of_counts merge_def counts_def in_bucket_def)

section \<open>Quantiles\<close>

lemma unat_of_nat_u64: "n < 2 ^ 64 \<Longrightarrow> unat (of_nat n :: u64) = n"
  by (simp add: unat_of_nat take_bit_nat_eq_self)

definition below :: "nat \<Rightarrow> u64 list \<Rightarrow> nat" where
  "below u xs = length (filter (\<lambda>x. unat (sample x) < u) xs)"

lemma bucket_for_iff:
  assumes "y \<noteq> 0"
  shows "bucket_for y = m \<longleftrightarrow> 2 ^ m \<le> unat y \<and> unat y < 2 ^ Suc m"
proof
  assume "2 ^ m \<le> unat y \<and> unat y < 2 ^ Suc m"
  with bucket_for_bounds [OF assms] have "(2 :: nat) ^ m < 2 ^ Suc (bucket_for y)" "(2 :: nat) ^ bucket_for y < 2 ^ Suc m"
    by linarith+
  then have "m < Suc (bucket_for y)" "bucket_for y < Suc m"
    by (simp_all only: power_strict_increasing_iff one_less_numeral_iff semiring_norm)
  then show "bucket_for y = m" by simp
qed (use bucket_for_bounds [OF assms] in auto)

lemma below_Suc: "below (2 ^ Suc m) xs = below (2 ^ m) xs + in_bucket m xs"
proof (induction xs)
  case (Cons x xs)
  have "bucket_for (sample x) = m \<longleftrightarrow> 2 ^ m \<le> unat (sample x) \<and> unat (sample x) < 2 ^ Suc m"
    by (rule bucket_for_iff) simp
  with Cons show ?case by (auto simp: below_def in_bucket_def)
qed (simp add: below_def in_bucket_def)

lemma below_le: "below u xs \<le> length xs"
  by (simp add: below_def)

lemma below_one: "below 1 xs = 0"
  by (simp add: below_def unat_eq_zero)

lemma below_all: "below (2 ^ 64) xs = length xs"
  using unat_u64_lt by (simp add: below_def)

lemma quantile_loop_bucket:
  assumes "unat t \<le> length xs" "length xs < 2 ^ 64"
  shows "b \<le> 64 \<Longrightarrow> below (2 ^ b) xs < unat t \<Longrightarrow>
    \<exists>m<64. quantile_loop t (of_nat (below (2 ^ b) xs)) (map (\<lambda>i. of_nat (in_bucket i xs)) [b..<64]) b = upper_bound m \<and>
      below (2 ^ m) xs < unat t \<and> unat t \<le> below (2 ^ Suc m) xs"
proof (induction "64 - b" arbitrary: b)
  case 0
  then show ?case using assms below_all [of xs] by simp
next
  case (Suc d)
  let ?n = "below (2 ^ Suc b) xs"
  have b: "b < 64" using Suc(2) by simp
  have n: "unat (of_nat ?n :: u64) = ?n"
    using le_less_trans [OF below_le assms(2)] by (rule unat_of_nat_u64)
  have acc: "of_nat (below (2 ^ b) xs) + of_nat (in_bucket b xs) = (of_nat ?n :: u64)"
    by (simp only: below_Suc of_nat_add)
  have eq: "quantile_loop t (of_nat (below (2 ^ b) xs)) (map (\<lambda>i. of_nat (in_bucket i xs)) [b..<64]) b =
      (if unat t \<le> ?n then upper_bound b
       else quantile_loop t (of_nat ?n) (map (\<lambda>i. of_nat (in_bucket i xs)) [Suc b..<64]) (Suc b))"
    by (simp only: upt_conv_Cons [OF b] list.map quantile_loop.simps acc word_le_nat_alt n)
  show ?case
  proof (cases "unat t \<le> ?n")
    case True
    with eq b Suc(4) show ?thesis by auto
  next
    case False
    with Suc(1) [of "Suc b"] Suc(2) b eq show ?thesis by simp
  qed
qed

lemma quantile_bucket:
  assumes "scale (of_nat (length xs)) = t" "0 < unat t" "unat t \<le> length xs" "length xs < 2 ^ 64"
  shows "\<exists>m<64. quantile scale (histogram_of xs) = upper_bound m \<and>
      below (2 ^ m) xs < unat t \<and> unat t \<le> below (2 ^ Suc m) xs"
proof -
  have "unat (of_nat (length xs) :: u64) = length xs" using assms(4) by (rule unat_of_nat_u64)
  then have nz: "(of_nat (length xs) :: u64) \<noteq> 0" using assms(2,3) by (metis le_zero_eq less_not_refl unat_0)
  have "quantile scale (histogram_of xs) = quantile_loop t 0 (map (\<lambda>i. of_nat (in_bucket i xs)) [0..<64]) 0"
    unfolding quantile_def histogram_of_counts counts_def LogHistogram.simps using nz assms(1) by (simp only: if_False)
  moreover have "below (2 ^ 0) xs = 0" by (simp add: below_one [simplified])
  ultimately show ?thesis using quantile_loop_bucket [OF assms(3,4), of 0] assms(2) by (simp only: of_nat_0) simp
qed

lemma sorted_nth_less:
  assumes "sorted ys" "i < length ys"
  shows "ys ! i < (u :: nat) \<longleftrightarrow> i < length (filter (\<lambda>y. y < u) ys)"
  using assms
proof (induction ys arbitrary: i)
  case (Cons y ys)
  show ?case
  proof (cases "y < u")
    case True
    then show ?thesis using Cons by (cases i) auto
  next
    case False
    then have "filter (\<lambda>y. y < u) ys = []" using Cons(2) by (auto simp: filter_empty_conv)
    moreover have "u \<le> (y # ys) ! i"
      using False Cons(2,3) by (cases i) (auto intro: le_trans [of u y] dest: nth_mem)
    ultimately show ?thesis using False by simp
  qed
qed simp

definition rank :: "nat \<Rightarrow> u64 list \<Rightarrow> nat" where
  "rank k xs = sort (map (\<lambda>x. unat (sample x)) xs) ! (k - 1)"

lemma rank_below:
  assumes "0 < k" "k \<le> length xs"
  shows "rank k xs < u \<longleftrightarrow> k \<le> below u xs"
proof -
  let ?ys = "sort (map (\<lambda>x. unat (sample x)) xs)"
  have "length (filter (\<lambda>y. y < u) ?ys) = below u xs"
    by (simp add: filter_sort below_def filter_map comp_def)
  then have "rank k xs < u \<longleftrightarrow> k - 1 < below u xs"
    using sorted_nth_less [of ?ys "k - 1" u] assms by (simp add: rank_def)
  then show ?thesis using assms(1) by auto
qed

lemma upper_bound_eq: "upper_bound m = (if m < 63 then Some (2 ^ Suc m) else None)"
  by (simp add: upper_bound_def push_bit_eq_mult)

lemma quantile_rank:
  assumes "scale (of_nat (length xs)) = t" "0 < unat t" "unat t \<le> length xs" "length xs < 2 ^ 64"
  shows "case quantile scale (histogram_of xs) of
      Some u \<Rightarrow> rank (unat t) xs < unat u \<and> unat u \<le> 2 * rank (unat t) xs
    | None \<Rightarrow> 2 ^ 63 \<le> rank (unat t) xs"
proof -
  from quantile_bucket [of scale xs, OF assms] obtain m where m: "m < 64" "quantile scale (histogram_of xs) = upper_bound m"
    "below (2 ^ m) xs < unat t" "unat t \<le> below (2 ^ Suc m) xs" by blast
  have r: "2 ^ m \<le> rank (unat t) xs" "rank (unat t) xs < 2 ^ Suc m"
    using rank_below [OF assms(2,3)] m(3,4) by (meson not_le, blast)
  show ?thesis
  proof (cases "m < 63")
    case True
    have "(2 :: nat) ^ Suc m < 2 ^ 64" using True by (intro power_strict_increasing) auto
    then have "unat (2 ^ Suc m :: u64) = 2 ^ Suc m" by (drule_tac unat_of_nat_u64) simp
    with True r m(2) show ?thesis by (simp add: upper_bound_eq)
  next
    case False
    with m(1) have "m = 63" by simp
    with r(1) m(2) show ?thesis by (simp add: upper_bound_eq)
  qed
qed

lemma quantile_defined:
  assumes "list_all (\<lambda>x. x < 2 ^ 63) xs" and "length xs < 2 ^ 64" and "scale (of_nat (length xs)) \<le> of_nat (length xs)"
  shows "\<exists>u. quantile scale (histogram_of xs) = Some u"
proof -
  let ?n = "of_nat (length xs) :: u64"
  have n: "unat ?n = length xs" using assms(2) by (rule unat_of_nat_u64)
  show ?thesis
  proof (cases "scale ?n = 0")
    case True
    have "[0..<64] = 0 # [1..<64]" by (subst upt_conv_Cons) simp_all
    then show ?thesis using True by (simp add: quantile_def histogram_of_counts counts_def upper_bound_def)
  next
    case False
    then have t: "0 < unat (scale ?n)" by (simp add: unat_gt_0)
    have le: "unat (scale ?n) \<le> length xs" using assms(3) n by (simp add: word_le_nat_alt)
    have "below (2 ^ 63) xs = length xs" using assms(1) by (auto simp: below_def list_all_iff sample_def word_less_nat_alt)
    then have "rank (unat (scale ?n)) xs < 2 ^ 63" using rank_below [OF t le] le by simp
    with quantile_rank [of scale xs, OF refl t le assms(2)] show ?thesis by (auto split: option.splits)
  qed
qed

end
