(* ===== verification/Bench_Cacheline.thy ===== *)
theory Bench_Cacheline
  imports FIX_Decimal OB_Matcher Obs_Histogram
begin

text \<open>
  \<^verbatim>\<open>bench/cacheline_study.cpp\<close>: the benchmark's two copies of the level's queue and FIFO fill,
  which differ in alignment, the template that measures one of them, and \<^verbatim>\<open>main\<close> up to the
  numbers it reports. Quantities (drawn from a random generator), addresses and measured
  times are inputs, and so are the products of quantiles and counts, which are floating
  point.
\<close>

section \<open>The packed variant\<close>

record BenchOrder =
  bo_id :: u64
  bo_side :: char
  bo_price :: int
  bo_orig_qty :: u64
  bo_leaves_qty :: u64
  bo_prev :: "addr option"
  bo_next :: "addr option"

record BenchLevel =
  bl_head :: "addr option"
  bl_tail :: "addr option"
  bl_count :: u64
  bl_total_qty :: u64

type_synonym bench_heap = "addr \<rightharpoonup> BenchOrder"

definition new_bench_order :: BenchOrder where
  "new_bench_order = \<lparr>bo_id = 0, bo_side = CHR ''1'', bo_price = 0, bo_orig_qty = 0, bo_leaves_qty = 0,
     bo_prev = None, bo_next = None\<rparr>"

definition new_bench_level :: BenchLevel where
  "new_bench_level = \<lparr>bl_head = None, bl_tail = None, bl_count = 0, bl_total_qty = 0\<rparr>"

definition push :: "bench_heap \<Rightarrow> BenchLevel \<Rightarrow> addr \<Rightarrow> (bench_heap \<times> BenchLevel) option" where
  "push h l a = do {
     v \<leftarrow> h a;
     let h = h(a \<mapsto> v\<lparr>bo_prev := bl_tail l, bo_next := None\<rparr>);
     (h, l) \<leftarrow>
       (case bl_tail l of
          Some t \<Rightarrow> do { w \<leftarrow> h t; Some (h(t \<mapsto> w\<lparr>bo_next := Some a\<rparr>), l) }
        | None \<Rightarrow> Some (h, l\<lparr>bl_head := Some a\<rparr>));
     v \<leftarrow> h a;
     Some (h, l\<lparr>bl_tail := Some a, bl_count := bl_count l + 1, bl_total_qty := bl_total_qty l + bo_leaves_qty v\<rparr>) }"

partial_function (option) fill_loop ::
  "u64 \<Rightarrow> bench_heap \<Rightarrow> BenchLevel \<Rightarrow> addr option \<Rightarrow> u64 \<Rightarrow> (bench_heap \<times> BenchLevel \<times> u64) option"
where
  "fill_loop want h l cur filled =
     (case cur of
        None \<Rightarrow> Some (h, l, filled)
      | Some a \<Rightarrow>
          if \<not> filled < want then Some (h, l, filled)
          else do {
            v \<leftarrow> h a;
            let q = min (want - filled) (bo_leaves_qty v);
            let h = h(a \<mapsto> v\<lparr>bo_leaves_qty := bo_leaves_qty v - q\<rparr>);
            v \<leftarrow> h a;
            fill_loop want h (l\<lparr>bl_total_qty := bl_total_qty l - q\<rparr>) (bo_next v) (filled + q) })"

definition fifo_fill :: "bench_heap \<Rightarrow> BenchLevel \<Rightarrow> u64 \<Rightarrow> (bench_heap \<times> BenchLevel \<times> u64) option" where
  "fifo_fill h l want = fill_loop want h l (bl_head l) 0"

section \<open>The aligned variant\<close>

record AlignedOrder =
  ao_id :: u64
  ao_side :: char
  ao_price :: int
  ao_orig_qty :: u64
  ao_leaves_qty :: u64
  ao_prev :: "addr option"
  ao_next :: "addr option"

record AlignedLevel =
  al_head :: "addr option"
  al_tail :: "addr option"
  al_count :: u64
  al_total_qty :: u64

type_synonym aligned_heap = "addr \<rightharpoonup> AlignedOrder"

definition new_aligned_order :: AlignedOrder where
  "new_aligned_order = \<lparr>ao_id = 0, ao_side = CHR ''1'', ao_price = 0, ao_orig_qty = 0, ao_leaves_qty = 0,
     ao_prev = None, ao_next = None\<rparr>"

definition new_aligned_level :: AlignedLevel where
  "new_aligned_level = \<lparr>al_head = None, al_tail = None, al_count = 0, al_total_qty = 0\<rparr>"

definition aligned_push :: "aligned_heap \<Rightarrow> AlignedLevel \<Rightarrow> addr \<Rightarrow> (aligned_heap \<times> AlignedLevel) option" where
  "aligned_push h l a = do {
     v \<leftarrow> h a;
     let h = h(a \<mapsto> v\<lparr>ao_prev := al_tail l, ao_next := None\<rparr>);
     (h, l) \<leftarrow>
       (case al_tail l of
          Some t \<Rightarrow> do { w \<leftarrow> h t; Some (h(t \<mapsto> w\<lparr>ao_next := Some a\<rparr>), l) }
        | None \<Rightarrow> Some (h, l\<lparr>al_head := Some a\<rparr>));
     v \<leftarrow> h a;
     Some (h, l\<lparr>al_tail := Some a, al_count := al_count l + 1, al_total_qty := al_total_qty l + ao_leaves_qty v\<rparr>) }"

partial_function (option) aligned_fill_loop ::
  "u64 \<Rightarrow> aligned_heap \<Rightarrow> AlignedLevel \<Rightarrow> addr option \<Rightarrow> u64 \<Rightarrow> (aligned_heap \<times> AlignedLevel \<times> u64) option"
where
  "aligned_fill_loop want h l cur filled =
     (case cur of
        None \<Rightarrow> Some (h, l, filled)
      | Some a \<Rightarrow>
          if \<not> filled < want then Some (h, l, filled)
          else do {
            v \<leftarrow> h a;
            let q = min (want - filled) (ao_leaves_qty v);
            let h = h(a \<mapsto> v\<lparr>ao_leaves_qty := ao_leaves_qty v - q\<rparr>);
            v \<leftarrow> h a;
            aligned_fill_loop want h (l\<lparr>al_total_qty := al_total_qty l - q\<rparr>) (ao_next v) (filled + q) })"

definition aligned_fifo_fill :: "aligned_heap \<Rightarrow> AlignedLevel \<Rightarrow> u64 \<Rightarrow> (aligned_heap \<times> AlignedLevel \<times> u64) option" where
  "aligned_fifo_fill h l want = aligned_fill_loop want h l (al_head l) 0"

section \<open>Measuring\<close>

text \<open>
  The parameters of the template \<^verbatim>\<open>run_variant\<close>: an order with the id and quantity that the
  loop stores in it, an empty level, the level's total, and the two functions.
\<close>

record ('o, 'l) Variant =
  var_order :: "u64 \<Rightarrow> u64 \<Rightarrow> 'o"
  var_level :: 'l
  var_total :: "'l \<Rightarrow> u64"
  var_push :: "(addr \<rightharpoonup> 'o) \<Rightarrow> 'l \<Rightarrow> addr \<Rightarrow> ((addr \<rightharpoonup> 'o) \<times> 'l) option"
  var_fill :: "(addr \<rightharpoonup> 'o) \<Rightarrow> 'l \<Rightarrow> u64 \<Rightarrow> ((addr \<rightharpoonup> 'o) \<times> 'l \<times> u64) option"

definition baseline :: "(BenchOrder, BenchLevel) Variant" where
  "baseline = \<lparr>var_order = \<lambda>i q. new_bench_order\<lparr>bo_id := i, bo_orig_qty := q, bo_leaves_qty := q\<rparr>,
     var_level = new_bench_level, var_total = bl_total_qty, var_push = push, var_fill = fifo_fill\<rparr>"

definition aligned :: "(AlignedOrder, AlignedLevel) Variant" where
  "aligned = \<lparr>var_order = \<lambda>i q. new_aligned_order\<lparr>ao_id := i, ao_orig_qty := q, ao_leaves_qty := q\<rparr>,
     var_level = new_aligned_level, var_total = al_total_qty, var_push = aligned_push, var_fill = aligned_fifo_fill\<rparr>"

fun push_orders ::
  "('o, 'l) Variant \<Rightarrow> u64 \<Rightarrow> (addr \<times> u64) list \<Rightarrow> (addr \<rightharpoonup> 'o) \<Rightarrow> 'l \<Rightarrow> ((addr \<rightharpoonup> 'o) \<times> 'l) option"
where
  "push_orders V i [] h l = Some (h, l)"
| "push_orders V i ((a, q) # os) h l = do {
     (h, l) \<leftarrow> var_push V (h(a \<mapsto> var_order V i q)) l a;
     push_orders V (i + 1) os h l }"

fun run_variant ::
  "('o, 'l) Variant \<Rightarrow> u64 \<Rightarrow> u64 \<Rightarrow> ((addr \<times> u64) list \<times> u64) list \<Rightarrow> (addr \<rightharpoonup> 'o) \<Rightarrow> LogHistogram \<Rightarrow>
     ((addr \<rightharpoonup> 'o) \<times> LogHistogram) option"
where
  "run_variant V i resting [] h hist = Some (h, hist)"
| "run_variant V i resting ((os, ns) # rs) h hist = do {
     (h, l) \<leftarrow> push_orders V (i * resting) os h (var_level V);
     (h, l, filled) \<leftarrow> var_fill V h l (var_total V l);
     run_variant V (i + 1) resting rs h (record_ns ns hist) }"

abbreviation line_end :: string where
  "line_end \<equiv> [CHR 0x0A]"

record StudyArgs =
  n_iters :: u64
  resting :: u64
  study_out :: string

definition default_study :: StudyArgs where
  "default_study = \<lparr>n_iters = 50000, resting = 8, study_out = []\<rparr>"

fun study_args :: "string list \<Rightarrow> StudyArgs \<Rightarrow> exn + StudyArgs" where
  "study_args [] r = Inr r"
| "study_args [a] r = Inr (if a = ''--smoke'' then r\<lparr>n_iters := 5000\<rparr> else r)"
| "study_args (a # v # as) r =
     (if a = ''--n'' then
        (case stoull v of Inl e \<Rightarrow> Inl e | Inr n \<Rightarrow> study_args as (r\<lparr>n_iters := n\<rparr>))
      else if a = ''--resting'' then
        (case stoull v of Inl e \<Rightarrow> Inl e | Inr n \<Rightarrow> study_args as (r\<lparr>resting := n\<rparr>))
      else if a = ''--out'' then study_args as (r\<lparr>study_out := v\<rparr>)
      else if a = ''--smoke'' then study_args (v # as) (r\<lparr>n_iters := 5000\<rparr>)
      else study_args (v # as) r)"

text \<open>
  What the loop nest of \<^verbatim>\<open>run_variant\<close> draws: the memory and the quantity of order \<open>j\<close> of
  the run, and the time measured in round \<open>i\<close>.
\<close>

record Draws =
  dr_addr :: "nat \<Rightarrow> addr"
  dr_qty :: "nat \<Rightarrow> u64"
  dr_ns :: "nat \<Rightarrow> u64"

definition run_rounds :: "Draws \<Rightarrow> u64 \<Rightarrow> u64 \<Rightarrow> ((addr \<times> u64) list \<times> u64) list" where
  "run_rounds d n per = map (\<lambda>i. (map (\<lambda>k. (dr_addr d (i * unat per + k), dr_qty d (i * unat per + k))) [0..<unat per], dr_ns d i)) [0..<unat n]"

text \<open>
  \<^verbatim>\<open>main\<close> after its options: a warm-up and one run of each variant, every one with a pool of
  its own, and the quantiles of the two runs; then the report, into a buffer of 1024
  bytes. The texts of its four floating-point numbers are parameters.
\<close>

definition study_main ::
  "(u64 \<Rightarrow> u64) \<Rightarrow> (u64 \<Rightarrow> u64) \<Rightarrow> StudyArgs \<Rightarrow> Draws \<Rightarrow> Draws \<Rightarrow> Draws \<Rightarrow> (u64 \<times> u64 \<times> u64 \<times> u64) option"
where
  "study_main half most r dw db da = do {
     _ \<leftarrow> run_variant baseline 0 (resting r) (run_rounds dw 1000 (resting r)) Map.empty new_histogram;
     (_, r_base) \<leftarrow> run_variant baseline 0 (resting r) (run_rounds db (n_iters r) (resting r)) Map.empty new_histogram;
     (_, r_alig) \<leftarrow> run_variant aligned 0 (resting r) (run_rounds da (n_iters r) (resting r)) Map.empty new_histogram;
     b50 \<leftarrow> quantile half r_base;
     b99 \<leftarrow> quantile most r_base;
     a50 \<leftarrow> quantile half r_alig;
     a99 \<leftarrow> quantile most r_alig;
     Some (b50, b99, a50, a99) }"

definition study_report :: "string \<Rightarrow> string \<Rightarrow> string \<Rightarrow> string \<Rightarrow> StudyArgs \<Rightarrow> u64 \<times> u64 \<times> u64 \<times> u64 \<Rightarrow> string" where
  "study_report base_mean alig_mean delta_mean delta_p99 r res =
     (let (b50, b99, a50, a99) = res in
      take 1023 (
        ''{'' @ line_end @
        ''  \"n_iters\": '' @ show_u64 (n_iters r) @ '','' @ line_end @
        ''  \"resting_per_level\": '' @ show_u64 (resting r) @ '','' @ line_end @
        ''  \"baseline_mean_ns\": '' @ base_mean @ '','' @ line_end @
        ''  \"baseline_p50_ns\": '' @ show_u64 b50 @ '','' @ line_end @
        ''  \"baseline_p99_ns\": '' @ show_u64 b99 @ '','' @ line_end @
        ''  \"aligned_mean_ns\": '' @ alig_mean @ '','' @ line_end @
        ''  \"aligned_p50_ns\": '' @ show_u64 a50 @ '','' @ line_end @
        ''  \"aligned_p99_ns\": '' @ show_u64 a99 @ '','' @ line_end @
        ''  \"delta_mean_pct\": '' @ delta_mean @ '','' @ line_end @
        ''  \"delta_p99_pct\": '' @ delta_p99 @ line_end @
        ''}'' @ line_end))"

text \<open>The report goes to the file, when one is named, and to the standard output (\<^const>\<open>None\<close>).\<close>

definition study_emit :: "StudyArgs \<Rightarrow> string \<Rightarrow> (string option \<times> string) list" where
  "study_emit r s = (if study_out r = [] then [(None, s)] else [(Some (study_out r), s), (None, s)])"

definition study_process ::
  "(u64 \<Rightarrow> u64) \<Rightarrow> (u64 \<Rightarrow> u64) \<Rightarrow> string \<Rightarrow> string \<Rightarrow> string \<Rightarrow> string \<Rightarrow> string list \<Rightarrow> Draws \<Rightarrow> Draws \<Rightarrow> Draws \<Rightarrow>
     (exn + (string option \<times> string) list) option"
where
  "study_process half most base_mean alig_mean delta_mean delta_p99 as dw db da =
     (case study_args as default_study of
        Inl e \<Rightarrow> Some (Inl e)
      | Inr r \<Rightarrow> do {
          res \<leftarrow> study_main half most r dw db da;
          Some (Inr (study_emit r (study_report base_mean alig_mean delta_mean delta_p99 r res))) })"

section \<open>The queue\<close>

fun bench_seg :: "bench_heap \<Rightarrow> addr option \<Rightarrow> (addr \<times> u64) list \<Rightarrow> bool" where
  "bench_seg h cur [] \<longleftrightarrow> cur = None"
| "bench_seg h cur ((a, q) # xs) \<longleftrightarrow> cur = Some a \<and>
     (\<exists>v. h a = Some v \<and> bo_leaves_qty v = q \<and> bench_seg h (bo_next v) xs)"

definition bench_rep :: "bench_heap \<Rightarrow> BenchLevel \<Rightarrow> (addr \<times> u64) list \<Rightarrow> bool" where
  "bench_rep h l xs \<longleftrightarrow> bench_seg h (bl_head l) xs \<and> distinct (map fst xs) \<and>
     bl_tail l = (if xs = [] then None else Some (fst (last xs))) \<and> bl_total_qty l = sum_list (map snd xs)"

lemma bench_seg_frame: "(\<And>c. c \<in> fst ` set xs \<Longrightarrow> h' c = h c) \<Longrightarrow> bench_seg h' cur xs = bench_seg h cur xs"
  by (induction xs arbitrary: cur) auto

lemma bench_seg_mem: "bench_seg h cur xs \<Longrightarrow> (a, q) \<in> set xs \<Longrightarrow> \<exists>v. h a = Some v \<and> bo_leaves_qty v = q"
  by (induction xs arbitrary: cur) auto

lemma bench_seg_snoc:
  assumes "bench_seg h cur xs" and "distinct (map fst xs)" and "xs \<noteq> []" and "a \<notin> fst ` set xs"
    and "h a = Some v" and "bo_next v = None" and "h (fst (last xs)) = Some w"
  shows "bench_seg (h(fst (last xs) \<mapsto> w\<lparr>bo_next := Some a\<rparr>)) cur (xs @ [(a, bo_leaves_qty v)])"
  using assms
proof (induction xs arbitrary: cur)
  case (Cons e xs)
  obtain b q where e: "e = (b, q)" by (cases e)
  show ?case
  proof (cases "xs = []")
    case True
    with Cons.prems e show ?thesis by auto
  next
    case False
    then have "last xs \<in> set xs" by simp
    then have "fst (last xs) \<in> fst ` set xs" by (rule imageI)
    then have "fst (last xs) \<noteq> b" using Cons.prems(2) e by auto
    with Cons.prems e False Cons.IH show ?thesis by auto
  qed
qed simp

lemma push_rep:
  assumes rep: "bench_rep h l xs" and v: "h a = Some v" and a: "a \<notin> fst ` set xs"
  shows "\<exists>h' l'. push h l a = Some (h', l') \<and> bench_rep h' l' (xs @ [(a, bo_leaves_qty v)]) \<and>
    (\<forall>c. c \<noteq> a \<longrightarrow> c \<notin> fst ` set xs \<longrightarrow> h' c = h c)"
proof (cases "xs = []")
  case True
  with assms show ?thesis by (simp add: push_def bench_rep_def Let_def)
next
  case False
  let ?t = "fst (last xs)" and ?h1 = "h(a \<mapsto> v\<lparr>bo_prev := Some (fst (last xs)), bo_next := None\<rparr>)"
  have t: "?t \<in> fst ` set xs" using False by simp
  then have ta: "?t \<noteq> a" using a by auto
  have seg1: "bench_seg ?h1 (bl_head l) xs"
    using rep a by (subst bench_seg_frame [of _ _ h]) (auto simp: bench_rep_def)
  moreover from rep t obtain w where w: "h ?t = Some w" unfolding bench_rep_def using bench_seg_mem by force
  ultimately have "bench_seg (?h1(?t \<mapsto> w\<lparr>bo_next := Some a\<rparr>)) (bl_head l) (xs @ [(a, bo_leaves_qty v)])"
    using bench_seg_snoc [of ?h1 "bl_head l" xs a "v\<lparr>bo_prev := Some ?t, bo_next := None\<rparr>" w] rep False a ta
    by (simp add: bench_rep_def)
  then show ?thesis using rep v w False ta a t by (auto simp: push_def bench_rep_def Let_def)
qed

section \<open>The fill\<close>

lemma zero_fill: "zip (map fst xs) (map2 (-) (map snd xs) (map (\<lambda>_. 0 :: u64) (map snd xs))) = xs"
  by (induction xs) auto

text \<open>The benchmark hands out exactly what the engine's FIFO allocation does.\<close>

lemma fill_loop_seg:
  assumes "bench_seg h cur xs" and "distinct (map fst xs)" and "filled \<le> want"
  shows "\<exists>h'. fill_loop want h l cur filled = Some (h',
      l\<lparr>bl_total_qty := bl_total_qty l - sum_list (fifo_alloc (want - filled) (map snd xs))\<rparr>,
      filled + sum_list (fifo_alloc (want - filled) (map snd xs))) \<and>
    bench_seg h' cur (zip (map fst xs) (map2 (-) (map snd xs) (fifo_alloc (want - filled) (map snd xs)))) \<and>
    (\<forall>c. c \<notin> fst ` set xs \<longrightarrow> h' c = h c)"
  using assms
proof (induction xs arbitrary: h l cur filled)
  case Nil
  then show ?case by (simp add: fill_loop.simps)
next
  case (Cons e xs)
  obtain a lv where e: "e = (a, lv)" by (cases e)
  obtain v where v: "cur = Some a" "h a = Some v" "bo_leaves_qty v = lv" "bench_seg h (bo_next v) xs"
    using Cons.prems(1) e by auto
  have d: "a \<notin> fst ` set xs" "distinct (map fst xs)" using Cons.prems(2) e by auto
  define q where "q = min (want - filled) lv"
  have al: "fifo_alloc (want - filled) (map snd (e # xs)) = q # fifo_alloc (want - (filled + q)) (map snd xs)"
    by (simp add: e q_def algebra_simps)
  let ?h1 = "h(a \<mapsto> v\<lparr>bo_leaves_qty := lv - q\<rparr>)" and ?l1 = "l\<lparr>bl_total_qty := bl_total_qty l - q\<rparr>"
  have seg1: "bench_seg ?h1 (bo_next v) xs" using v(4) d(1) by (subst bench_seg_frame [of _ _ h]) auto
  have le: "filled + q \<le> want" unfolding q_def using Cons.prems(3) by (rule word_le_add_min)
  from Cons.IH [OF seg1 d(2) le, of ?l1] obtain h' where IH:
    "fill_loop want ?h1 ?l1 (bo_next v) (filled + q) = Some (h',
      ?l1\<lparr>bl_total_qty := bl_total_qty ?l1 - sum_list (fifo_alloc (want - (filled + q)) (map snd xs))\<rparr>,
      filled + q + sum_list (fifo_alloc (want - (filled + q)) (map snd xs)))"
    "bench_seg h' (bo_next v) (zip (map fst xs) (map2 (-) (map snd xs) (fifo_alloc (want - (filled + q)) (map snd xs))))"
    "\<forall>c. c \<notin> fst ` set xs \<longrightarrow> h' c = ?h1 c" by blast
  show ?case
  proof (cases "filled < want")
    case True
    then have "fill_loop want h l cur filled = fill_loop want ?h1 ?l1 (bo_next v) (filled + q)"
      using v by (subst fill_loop.simps) (simp add: q_def Let_def)
    then show ?thesis unfolding al using IH d(1) e v(1) by (auto simp: algebra_simps)
  next
    case False
    with Cons.prems(3) have z: "want - filled = 0" by auto
    have "fill_loop want h l cur filled = Some (h, l, filled)" using False v(1) by (simp add: fill_loop.simps [of _ _ _ "Some a"])
    then show ?thesis using Cons.prems(1) unfolding z fifo_alloc_zero zero_fill by (simp add: comp_def del: bench_seg.simps)
  qed
qed

lemma fifo_alloc_all: "sum_list (map unat qs) \<le> unat r \<Longrightarrow> fifo_alloc r qs = qs"
proof (induction qs arbitrary: r)
  case (Cons q qs)
  have "q \<le> r" using Cons.prems by (simp add: word_le_nat_alt)
  moreover have "unat (r - q) = unat r - unat q" using \<open>q \<le> r\<close> by (rule unat_minus_le)
  ultimately show ?case using Cons.prems Cons.IH [of "r - q"] by (simp add: min_absorb2)
qed simp

lemma minus_all: "zip as (map2 (-) qs (qs :: u64 list)) = zip as (map (\<lambda>_. 0) qs)"
  by (simp add: zip_same_conv_map comp_def)

lemma fifo_fill_all:
  assumes "bench_rep h l xs" and "sum_list (map (unat \<circ> snd) xs) < 2 ^ 64"
  shows "\<exists>h'. fifo_fill h l (bl_total_qty l) = Some (h', l\<lparr>bl_total_qty := 0\<rparr>, bl_total_qty l) \<and>
    (\<forall>a \<in> fst ` set xs. \<exists>v. h' a = Some v \<and> bo_leaves_qty v = 0) \<and> (\<forall>c. c \<notin> fst ` set xs \<longrightarrow> h' c = h c)"
proof -
  let ?t = "bl_total_qty l" and ?qs = "map snd xs"
  have t: "?t = sum_list ?qs" "bench_seg h (bl_head l) xs" "distinct (map fst xs)" using assms(1) by (simp_all add: bench_rep_def)
  have al: "fifo_alloc ?t ?qs = ?qs" using unat_sum_list [of ?qs] assms(2) t(1) by (intro fifo_alloc_all) simp
  from fill_loop_seg [OF t(2,3), of 0 ?t l, simplified diff_zero al t(1) [symmetric]] obtain h' where
    h': "fill_loop ?t h l (bl_head l) 0 = Some (h', l\<lparr>bl_total_qty := 0\<rparr>, ?t)"
      "bench_seg h' (bl_head l) (zip (map fst xs) (map (\<lambda>_. 0) ?qs))" "\<forall>c. c \<notin> fst ` set xs \<longrightarrow> h' c = h c"
    by (auto simp: minus_all)
  have "zip (map fst xs) (map (\<lambda>_. 0) ?qs) = map (\<lambda>e. (fst e, 0 :: u64)) xs" by (induction xs) auto
  with h'(2) have "\<exists>v. h' a = Some v \<and> bo_leaves_qty v = 0" if "a \<in> fst ` set xs" for a
    using that bench_seg_mem [of h' "bl_head l" "map (\<lambda>e. (fst e, 0)) xs" a 0] by force
  with h'(1,3) show ?thesis by (auto simp: fifo_fill_def)
qed

section \<open>What a measured variant does\<close>

text \<open>
  What \<^verbatim>\<open>run_variant\<close> needs of its template parameters: \<open>rep h l xs\<close> says that the level
  \<open>l\<close> in the memory \<open>h\<close> holds the orders \<open>xs\<close> with these quantities.
\<close>

locale bench_variant =
  fixes V :: "('o, 'l) Variant" and qty :: "'o \<Rightarrow> u64" and rep :: "(addr \<rightharpoonup> 'o) \<Rightarrow> 'l \<Rightarrow> (addr \<times> u64) list \<Rightarrow> bool"
  assumes order_qty: "qty (var_order V i q) = q"
    and rep_new: "rep h (var_level V) []"
    and rep_frame: "rep h l xs \<Longrightarrow> (\<And>c. c \<in> fst ` set xs \<Longrightarrow> h' c = h c) \<Longrightarrow> rep h' l xs"
    and rep_push: "rep h l xs \<Longrightarrow> h a = Some v \<Longrightarrow> a \<notin> fst ` set xs \<Longrightarrow>
      \<exists>h' l'. var_push V h l a = Some (h', l') \<and> rep h' l' (xs @ [(a, qty v)]) \<and> (\<forall>c. c \<noteq> a \<longrightarrow> c \<notin> fst ` set xs \<longrightarrow> h' c = h c)"
    and rep_fill: "rep h l xs \<Longrightarrow> sum_list (map (unat \<circ> snd) xs) < 2 ^ 64 \<Longrightarrow>
      \<exists>h' l'. var_fill V h l (var_total V l) = Some (h', l', var_total V l) \<and>
        (\<forall>a \<in> fst ` set xs. \<exists>v. h' a = Some v \<and> qty v = 0) \<and> (\<forall>c. c \<notin> fst ` set xs \<longrightarrow> h' c = h c)"
begin

lemma orders_pushed:
  assumes "rep h l xs" and "distinct (map fst (xs @ os))"
  shows "\<exists>h' l'. push_orders V i os h l = Some (h', l') \<and> rep h' l' (xs @ os) \<and> (\<forall>c. c \<notin> fst ` set (xs @ os) \<longrightarrow> h' c = h c)"
  using assms
proof (induction os arbitrary: i h l xs)
  case (Cons e os)
  obtain a q where e: "e = (a, q)" by (cases e)
  let ?h = "h(a \<mapsto> var_order V i q)"
  have a: "a \<notin> fst ` set xs" using Cons.prems(2) e by auto
  have "rep ?h l xs" by (rule rep_frame [OF Cons.prems(1)]) (use a in auto)
  from rep_push [OF this _ a] obtain h1 l1 where
    1: "var_push V ?h l a = Some (h1, l1)" "rep h1 l1 (xs @ [(a, q)])"
      "\<forall>c. c \<noteq> a \<longrightarrow> c \<notin> fst ` set xs \<longrightarrow> h1 c = h c" by (fastforce simp: order_qty)
  from Cons.IH [OF 1(2), of "i + 1"] Cons.prems(2) e obtain h' l' where
    "push_orders V (i + 1) os h1 l1 = Some (h', l')" "rep h' l' (xs @ (a, q) # os)"
      "\<forall>c. c \<notin> fst ` set (xs @ (a, q) # os) \<longrightarrow> h' c = h1 c" by auto
  with 1 e show ?case by auto
qed auto

lemma round_drains:
  assumes "distinct (map fst os)" and "sum_list (map (unat \<circ> snd) os) < 2 ^ 64"
  shows "\<exists>h'. run_variant V i n ((os, ns) # rs) h hist = run_variant V (i + 1) n rs h' (record_ns ns hist) \<and>
    (\<forall>a \<in> fst ` set os. \<exists>v. h' a = Some v \<and> qty v = 0) \<and> (\<forall>c. c \<notin> fst ` set os \<longrightarrow> h' c = h c)"
proof -
  from orders_pushed [of h "var_level V" "[]" os "i * n", OF rep_new] assms(1) obtain h1 l1 where
    1: "push_orders V (i * n) os h (var_level V) = Some (h1, l1)" "rep h1 l1 os" "\<forall>c. c \<notin> fst ` set os \<longrightarrow> h1 c = h c" by auto
  from rep_fill [OF 1(2) assms(2)] obtain h2 l2 where
    "var_fill V h1 l1 (var_total V l1) = Some (h2, l2, var_total V l1)"
    "\<forall>a \<in> fst ` set os. \<exists>v. h2 a = Some v \<and> qty v = 0" "\<forall>c. c \<notin> fst ` set os \<longrightarrow> h2 c = h1 c" by auto
  with 1 show ?thesis by auto
qed

lemma run_drains:
  assumes "distinct (map fst (concat (map fst rs)))" and "list_all (\<lambda>(os, _). sum_list (map (unat \<circ> snd) os) < 2 ^ 64) rs"
  shows "\<exists>h'. run_variant V i n rs h hist = Some (h', fold record_ns (map snd rs) hist) \<and>
    (\<forall>a \<in> fst ` set (concat (map fst rs)). \<exists>v. h' a = Some v \<and> qty v = 0) \<and>
    (\<forall>c. c \<notin> fst ` set (concat (map fst rs)) \<longrightarrow> h' c = h c)"
  using assms
proof (induction rs arbitrary: i h hist)
  case (Cons r rs)
  obtain os ns where r: "r = (os, ns)" by (cases r)
  let ?rest = "fst ` set (concat (map fst rs))"
  have disj: "fst ` set os \<inter> ?rest = {}" and d: "distinct (map fst os)" "distinct (map fst (concat (map fst rs)))"
    using Cons.prems(1) r by simp_all
  have sum: "sum_list (map (unat \<circ> snd) os) < 2 ^ 64" "list_all (\<lambda>(os, _). sum_list (map (unat \<circ> snd) os) < 2 ^ 64) rs"
    using Cons.prems(2) r by (simp_all add: comp_def)
  from round_drains [OF d(1) sum(1), of i n ns rs h hist] obtain h2 where
    2: "run_variant V i n (r # rs) h hist = run_variant V (i + 1) n rs h2 (record_ns ns hist)"
      "\<forall>a \<in> fst ` set os. \<exists>v. h2 a = Some v \<and> qty v = 0" "\<forall>c. c \<notin> fst ` set os \<longrightarrow> h2 c = h c" unfolding r by blast
  from Cons.IH [OF d(2) sum(2), of "i + 1" h2 "record_ns ns hist"] obtain h' where
    3: "run_variant V (i + 1) n rs h2 (record_ns ns hist) = Some (h', fold record_ns (map snd rs) (record_ns ns hist))"
      "\<forall>a \<in> ?rest. \<exists>v. h' a = Some v \<and> qty v = 0" "\<forall>c. c \<notin> ?rest \<longrightarrow> h' c = h2 c" by blast
  have "\<forall>a \<in> fst ` set os. \<exists>v. h' a = Some v \<and> qty v = 0" using 2(2) 3(3) disj by (metis disjoint_iff)
  with 2 3 r show ?case by (auto simp: image_Un)
qed simp

end

interpretation base: bench_variant baseline bo_leaves_qty bench_rep
proof unfold_locales
  show "bench_rep h' l xs" if "bench_rep h l xs" "\<And>c. c \<in> fst ` set xs \<Longrightarrow> h' c = h c" for h l xs h'
    using that bench_seg_frame [of xs h' h] by (simp add: bench_rep_def)

  show "\<exists>h' l'. var_fill baseline h l (var_total baseline l) = Some (h', l', var_total baseline l) \<and>
      (\<forall>a \<in> fst ` set xs. \<exists>v. h' a = Some v \<and> bo_leaves_qty v = 0) \<and> (\<forall>c. c \<notin> fst ` set xs \<longrightarrow> h' c = h c)"
    if "bench_rep h l xs" "sum_list (map (unat \<circ> snd) xs) < 2 ^ 64" for h l xs
    using fifo_fill_all [OF that] by (fastforce simp: baseline_def)
qed (auto simp: baseline_def intro: push_rep simp: new_bench_level_def bench_rep_def [of _ "\<lparr>bl_head = None, bl_tail = None, bl_count = 0, bl_total_qty = 0\<rparr>"])

text \<open>
  The aligned variant computes what the packed one does: forgetting the alignment of orders
  and levels turns each of its operations into the other's.
\<close>

definition packed :: "AlignedOrder \<Rightarrow> BenchOrder" where
  "packed v = \<lparr>bo_id = ao_id v, bo_side = ao_side v, bo_price = ao_price v, bo_orig_qty = ao_orig_qty v,
     bo_leaves_qty = ao_leaves_qty v, bo_prev = ao_prev v, bo_next = ao_next v\<rparr>"

definition packed_level :: "AlignedLevel \<Rightarrow> BenchLevel" where
  "packed_level l = \<lparr>bl_head = al_head l, bl_tail = al_tail l, bl_count = al_count l, bl_total_qty = al_total_qty l\<rparr>"

definition packed_heap :: "aligned_heap \<Rightarrow> bench_heap" where
  "packed_heap h a = map_option packed (h a)"

lemma packed_heap_upd [simp]: "packed_heap (h(a \<mapsto> v)) = (packed_heap h)(a \<mapsto> packed v)"
  by (auto simp: packed_heap_def)

lemma packed_sels [simp]:
  "bo_next (packed v) = ao_next v" "bo_leaves_qty (packed v) = ao_leaves_qty v"
  "bl_head (packed_level l) = al_head l" "bl_tail (packed_level l) = al_tail l" "bl_total_qty (packed_level l) = al_total_qty l"
  "bl_count (packed_level l) = al_count l"
  by (simp_all add: packed_def packed_level_def)

lemma packed_upds:
  "packed (v\<lparr>ao_prev := p, ao_next := n\<rparr>) = packed v\<lparr>bo_prev := p, bo_next := n\<rparr>"
  "packed (v\<lparr>ao_next := n\<rparr>) = packed v\<lparr>bo_next := n\<rparr>"
  "packed (v\<lparr>ao_leaves_qty := q\<rparr>) = packed v\<lparr>bo_leaves_qty := q\<rparr>"
  "packed_level (l\<lparr>al_head := p\<rparr>) = packed_level l\<lparr>bl_head := p\<rparr>"
  "packed_level (l\<lparr>al_total_qty := t\<rparr>) = packed_level l\<lparr>bl_total_qty := t\<rparr>"
  "packed_level (l\<lparr>al_tail := p, al_count := c, al_total_qty := t\<rparr>) = packed_level l\<lparr>bl_tail := p, bl_count := c, bl_total_qty := t\<rparr>"
  by (simp_all add: packed_def packed_level_def)

lemma aligned_push_packed:
  "push (packed_heap h) (packed_level l) a = map_option (\<lambda>(h, l). (packed_heap h, packed_level l)) (aligned_push h l a)"
proof (cases "h a")
  case None
  then show ?thesis by (simp add: push_def aligned_push_def packed_heap_def)
next
  case (Some v)
  let ?h = "h(a \<mapsto> v\<lparr>ao_prev := al_tail l, ao_next := None\<rparr>)"
  have p: "packed_heap h a = Some (packed v)" by (simp add: packed_heap_def Some)
  show ?thesis
  proof (cases "al_tail l")
    case None
    with Some p show ?thesis by (simp add: push_def aligned_push_def packed_upds [symmetric] Let_def)
  next
    case t: (Some t)
    have q: "packed_heap ?h t = map_option packed (?h t)" by (simp add: packed_heap_def)
    show ?thesis
    proof (cases "?h t")
      case None
      with Some p t q show ?thesis by (simp add: push_def aligned_push_def packed_upds [symmetric] Let_def split: if_splits)
    next
      case (Some w)
      with \<open>h a = Some v\<close> p t q show ?thesis
        by (auto simp: push_def aligned_push_def packed_upds [symmetric] Let_def split: if_splits)
    qed
  qed
qed

lemma packed_inj: "packed v = packed w \<longleftrightarrow> v = w"
  by (cases v; cases w) (simp add: packed_def)

lemma packed_heap_eq: "packed_heap h c = packed_heap h' c \<longleftrightarrow> h c = h' c"
  by (cases "h c"; cases "h' c") (auto simp: packed_heap_def packed_inj)

lemma aligned_fill_packed:
  assumes "fill_loop want (packed_heap h) (packed_level l) cur filled = Some r"
  shows "\<exists>h' l' n. aligned_fill_loop want h l cur filled = Some (h', l', n) \<and> r = (packed_heap h', packed_level l', n)"
  using assms
proof (induction want "packed_heap h" "packed_level l" cur filled r arbitrary: h l rule: fill_loop.raw_induct [rotated, consumes 1])
  case (1 f want cur filled r h l)
  show ?case
  proof (cases cur)
    case None
    with 1(2) show ?thesis by (simp add: aligned_fill_loop.simps)
  next
    case (Some a)
    show ?thesis
    proof (cases "filled < want")
      case False
      with 1(2) Some show ?thesis by (simp add: aligned_fill_loop.simps)
    next
      case True
      with 1(2) Some obtain v where v: "h a = Some v" by (cases "h a") (auto simp: packed_heap_def)
      let ?q = "min (want - filled) (ao_leaves_qty v)"
      let ?h = "h(a \<mapsto> v\<lparr>ao_leaves_qty := ao_leaves_qty v - ?q\<rparr>)" and ?l = "l\<lparr>al_total_qty := al_total_qty l - ?q\<rparr>"
      have "f want (packed_heap ?h) (packed_level ?l) (ao_next v) (filled + ?q) = Some r"
        using 1(2) Some True v by (simp add: packed_heap_def [of h a] packed_upds Let_def)
      from 1(1) [OF this] Some True v show ?thesis
        by (subst aligned_fill_loop.simps) (simp add: Let_def)
    qed
  qed
qed

interpretation wide: bench_variant aligned ao_leaves_qty "\<lambda>h l. bench_rep (packed_heap h) (packed_level l)"
proof unfold_locales
  fix h h' :: aligned_heap and l xs a v and i q :: u64
  let ?h = "packed_heap h" and ?l = "packed_level l"
  show "ao_leaves_qty (var_order aligned i q) = q" by (simp add: aligned_def)
  show "bench_rep ?h (packed_level (var_level aligned)) []"
    by (simp add: aligned_def new_aligned_level_def packed_level_def bench_rep_def)
  show "bench_rep (packed_heap h') ?l xs" if "bench_rep ?h ?l xs" "\<And>c. c \<in> fst ` set xs \<Longrightarrow> h' c = h c"
    by (rule base.rep_frame [OF that(1)]) (simp add: packed_heap_eq that(2))
  show "\<exists>h' l'. var_push aligned h l a = Some (h', l') \<and> bench_rep (packed_heap h') (packed_level l') (xs @ [(a, ao_leaves_qty v)]) \<and>
      (\<forall>c. c \<noteq> a \<longrightarrow> c \<notin> fst ` set xs \<longrightarrow> h' c = h c)"
    if "bench_rep ?h ?l xs" "h a = Some v" "a \<notin> fst ` set xs"
    using push_rep [OF that(1) _ that(3), of "packed v"] that(2) aligned_push_packed [of h l a]
    by (auto simp: aligned_def packed_heap_def [of h a] packed_heap_eq)
  show "\<exists>h' l'. var_fill aligned h l (var_total aligned l) = Some (h', l', var_total aligned l) \<and>
      (\<forall>a \<in> fst ` set xs. \<exists>v. h' a = Some v \<and> ao_leaves_qty v = 0) \<and> (\<forall>c. c \<notin> fst ` set xs \<longrightarrow> h' c = h c)"
    if "bench_rep ?h ?l xs" "sum_list (map (unat \<circ> snd) xs) < 2 ^ 64"
  proof -
    from fifo_fill_all [OF that] obtain hp where
      1: "fill_loop (al_total_qty l) ?h ?l (al_head l) 0 = Some (hp, ?l\<lparr>bl_total_qty := 0\<rparr>, al_total_qty l)"
        "\<forall>a \<in> fst ` set xs. \<exists>v. hp a = Some v \<and> bo_leaves_qty v = 0" "\<forall>c. c \<notin> fst ` set xs \<longrightarrow> hp c = ?h c"
      by (auto simp: fifo_fill_def)
    from aligned_fill_packed [OF 1(1)] obtain h' l' where
      2: "aligned_fill_loop (al_total_qty l) h l (al_head l) 0 = Some (h', l', al_total_qty l)" "hp = packed_heap h'" by auto
    have "\<forall>a \<in> fst ` set xs. \<exists>v. h' a = Some v \<and> ao_leaves_qty v = 0"
      using 1(2) by (fastforce simp: 2(2) packed_heap_def)
    moreover have "\<forall>c. c \<notin> fst ` set xs \<longrightarrow> h' c = h c" using 1(3) by (simp add: 2(2) packed_heap_eq)
    ultimately show ?thesis using 2(1) by (simp add: aligned_def aligned_fifo_fill_def)
  qed
qed

section \<open>The study\<close>

text \<open>
  What one run draws and measures: as many rounds as asked for, in each as many orders as
  asked for with quantities from 1 to 1000, every order in memory of its own, and a
  duration that a signed nanosecond count holds.
\<close>

definition rounds_ok :: "u64 \<Rightarrow> u64 \<Rightarrow> ((addr \<times> u64) list \<times> u64) list \<Rightarrow> bool" where
  "rounds_ok n per rs \<longleftrightarrow> length rs = unat n \<and> distinct (map fst (concat (map fst rs))) \<and>
     list_all (\<lambda>(os, ns). length os = unat per \<and> list_all (\<lambda>(_, q). 1 \<le> q \<and> q \<le> 1000) os \<and> ns < 2 ^ 63) rs"

lemma round_total:
  assumes "list_all (\<lambda>(_, q :: u64). 1 \<le> q \<and> q \<le> 1000) os"
  shows "sum_list (map (unat \<circ> snd) os) \<le> 1000 * length os"
  using assms
proof (induction os)
  case (Cons e os)
  then have "unat (snd e) \<le> unat (1000 :: u64)" by (simp add: case_prod_unfold word_le_nat_alt)
  with Cons show ?case by simp
qed simp

lemma rounds_totals:
  assumes "rounds_ok n per rs" and "unat per \<le> 2 ^ 54"
  shows "list_all (\<lambda>(os, _). sum_list (map (unat \<circ> snd) os) < 2 ^ 64) rs"
proof -
  have "sum_list (map (unat \<circ> snd) os) < 2 ^ 64" if "(os, ns) \<in> set rs" for os ns
    using assms that round_total [of os] by (fastforce simp: rounds_ok_def list_all_iff)
  then show ?thesis by (auto simp: list_all_iff)
qed


lemma rounds_times: "rounds_ok n per rs \<Longrightarrow> list_all (\<lambda>x. x < 2 ^ 63) (map snd rs) \<and> length (map snd rs) = unat n"
  by (auto simp: rounds_ok_def list_all_iff)

lemma rounds_quantile:
  assumes "rounds_ok n per rs" and "\<And>n. scale n \<le> n"
  shows "\<exists>u. quantile scale (histogram_of (map snd rs)) = Some u"
  using rounds_times [OF assms(1)] assms(2) unat_u64_lt [of n] by (intro quantile_defined) simp_all

lemma measured_run:
  assumes "rounds_ok n per rs" and "unat per \<le> 2 ^ 54"
  shows "\<exists>h. run_variant baseline i per rs Map.empty new_histogram = Some (h, histogram_of (map snd rs)) \<and>
      (\<forall>a \<in> fst ` set (concat (map fst rs)). \<exists>v. h a = Some v \<and> bo_leaves_qty v = 0)"
    and "\<exists>h. run_variant aligned i per rs Map.empty new_histogram = Some (h, histogram_of (map snd rs)) \<and>
      (\<forall>a \<in> fst ` set (concat (map fst rs)). \<exists>v. h a = Some v \<and> ao_leaves_qty v = 0)"
proof -
  have d: "distinct (map fst (concat (map fst rs)))" using assms(1) by (simp add: rounds_ok_def)
  note t = rounds_totals [OF assms]
  show "\<exists>h. run_variant baseline i per rs Map.empty new_histogram = Some (h, histogram_of (map snd rs)) \<and>
      (\<forall>a \<in> fst ` set (concat (map fst rs)). \<exists>v. h a = Some v \<and> bo_leaves_qty v = 0)"
    using base.run_drains [OF d t, of i per Map.empty new_histogram] unfolding histogram_of_def by blast
  show "\<exists>h. run_variant aligned i per rs Map.empty new_histogram = Some (h, histogram_of (map snd rs)) \<and>
      (\<forall>a \<in> fst ` set (concat (map fst rs)). \<exists>v. h a = Some v \<and> ao_leaves_qty v = 0)"
    using wide.run_drains [OF d t, of i per Map.empty new_histogram] unfolding histogram_of_def by blast
qed

definition draws_ok :: "Draws \<Rightarrow> bool" where
  "draws_ok d \<longleftrightarrow> inj (dr_addr d) \<and> (\<forall>j. 1 \<le> dr_qty d j \<and> dr_qty d j \<le> 1000) \<and> (\<forall>i. dr_ns d i < 2 ^ 63)"

lemma concat_rounds: "concat (map (\<lambda>i. map (\<lambda>k. f (i * p + k)) [0..<p]) [0..<n]) = map f [0..<n * p]"
proof (induction n)
  case (Suc n)
  have "map (\<lambda>k. f (n * p + k)) [0..<p] = map f [n * p..<n * p + p]"
    by (rule nth_equalityI) simp_all
  with Suc show ?case by (simp add: add.commute [of p] upt_add_eq_append [of 0 "n * p" p])
qed simp

lemma rounds_addrs: "map fst (concat (map fst (run_rounds d n per))) = map (dr_addr d) [0..<unat n * unat per]"
  using concat_rounds [of "\<lambda>j. (dr_addr d j, dr_qty d j)" "unat per" "unat n"] by (simp add: run_rounds_def comp_def)

lemma rounds_drawn:
  assumes "draws_ok d"
  shows "rounds_ok n per (run_rounds d n per)"
proof -
  have "distinct (map (dr_addr d) [0..<unat n * unat per])"
    using assms by (simp add: draws_ok_def distinct_map inj_on_def inj_def)
  then have "distinct (map fst (concat (map fst (run_rounds d n per))))" by (simp only: rounds_addrs)
  with assms show ?thesis by (auto simp: rounds_ok_def draws_ok_def list_all_iff run_rounds_def)
qed

lemma rounds_ns: "map snd (run_rounds d n per) = map (dr_ns d) [0..<unat n]"
  by (simp add: run_rounds_def)

lemma study_measures:
  assumes "unat (resting r) \<le> 2 ^ 54" and "\<And>n. half n \<le> n" and "\<And>n. most n \<le> n"
    and "draws_ok dw" and "draws_ok db" and "draws_ok da"
  shows "\<exists>b50 b99 a50 a99. study_main half most r dw db da = Some (b50, b99, a50, a99) \<and>
    quantile half (histogram_of (map (dr_ns db) [0..<unat (n_iters r)])) = Some b50 \<and>
    quantile most (histogram_of (map (dr_ns db) [0..<unat (n_iters r)])) = Some b99 \<and>
    quantile half (histogram_of (map (dr_ns da) [0..<unat (n_iters r)])) = Some a50 \<and>
    quantile most (histogram_of (map (dr_ns da) [0..<unat (n_iters r)])) = Some a99"
proof -
  let ?n = "n_iters r" and ?p = "resting r"
  note ok = rounds_drawn [OF assms(4), of 1000 ?p] rounds_drawn [OF assms(5), of ?n ?p] rounds_drawn [OF assms(6), of ?n ?p]
  note q = rounds_quantile [OF ok(2) assms(2)] rounds_quantile [OF ok(2) assms(3)]
    rounds_quantile [OF ok(3) assms(2)] rounds_quantile [OF ok(3) assms(3)]
  from measured_run(1) [OF ok(1) assms(1), of 0] measured_run(1) [OF ok(2) assms(1), of 0] measured_run(2) [OF ok(3) assms(1), of 0] q
  show ?thesis unfolding study_main_def rounds_ns [symmetric, of _ _ ?p] by (elim exE conjE) simp
qed

lemma both_variants_drain:
  assumes "unat per \<le> 2 ^ 54" and "draws_ok db" and "draws_ok da"
  shows "\<exists>hb ha. run_variant baseline 0 per (run_rounds db n per) Map.empty new_histogram = Some (hb, histogram_of (map (dr_ns db) [0..<unat n])) \<and>
    run_variant aligned 0 per (run_rounds da n per) Map.empty new_histogram = Some (ha, histogram_of (map (dr_ns da) [0..<unat n])) \<and>
    (\<forall>j < unat n * unat per. map_option bo_leaves_qty (hb (dr_addr db j)) = Some 0 \<and> map_option ao_leaves_qty (ha (dr_addr da j)) = Some 0)"
proof -
  have mem: "dr_addr d j \<in> fst ` set (concat (map fst (run_rounds d n per)))" if "j < unat n * unat per" for d j
    using arg_cong [OF rounds_addrs [of d n per], of set] that by (simp only: set_map) auto
  from measured_run(1) [OF rounds_drawn [OF assms(2)] assms(1), of 0 n] obtain hb where
    b: "run_variant baseline 0 per (run_rounds db n per) Map.empty new_histogram = Some (hb, histogram_of (map snd (run_rounds db n per)))"
      "\<forall>a \<in> fst ` set (concat (map fst (run_rounds db n per))). \<exists>v. hb a = Some v \<and> bo_leaves_qty v = 0" by blast
  from measured_run(2) [OF rounds_drawn [OF assms(3)] assms(1), of 0 n] obtain ha where
    a: "run_variant aligned 0 per (run_rounds da n per) Map.empty new_histogram = Some (ha, histogram_of (map snd (run_rounds da n per)))"
      "\<forall>a \<in> fst ` set (concat (map fst (run_rounds da n per))). \<exists>v. ha a = Some v \<and> ao_leaves_qty v = 0" by blast
  have "map_option bo_leaves_qty (hb (dr_addr db j)) = Some 0 \<and> map_option ao_leaves_qty (ha (dr_addr da j)) = Some 0"
    if "j < unat n * unat per" for j
    using b(2) a(2) mem [OF that, of db] mem [OF that, of da] by fastforce
  with a(1) b(1) show ?thesis unfolding rounds_ns by blast
qed

text \<open>
  The report is not cut as long as its floating-point numbers take at most 150 characters
  each.
\<close>

lemma study_report_complete:
  assumes "length base_mean \<le> 150" and "length alig_mean \<le> 150" and "length delta_mean \<le> 150" and "length delta_p99 \<le> 150"
  shows "\<exists>s. study_report base_mean alig_mean delta_mean delta_p99 r res = ''{'' @ s @ ''}'' @ line_end"
proof -
  obtain b50 b99 a50 a99 where res: "res = (b50, b99, a50, a99)" by (cases res)
  have "length (show_u64 (n_iters r)) \<le> 20" "length (show_u64 (resting r)) \<le> 20" "length (show_u64 b50) \<le> 20"
    "length (show_u64 b99) \<le> 20" "length (show_u64 a50) \<le> 20" "length (show_u64 a99) \<le> 20" by (simp_all add: length_show_u64)
  with assms show ?thesis unfolding study_report_def res by simp
qed

end
