(* ===== verification/Bench_Replay.thy ===== *)
theory Bench_Replay
  imports Net_Wire_Spec Obs_Histogram
begin

text \<open>
  \<^verbatim>\<open>bench/replay_bench.cpp\<close>: the client that logs on, enters orders over FIX and waits for
  the first report of each. What the client's \<^verbatim>\<open>::send\<close> returns is a \<open>Net\<close> as for the
  server. What its \<^verbatim>\<open>::recv\<close> returns, the random price offset and the measured time of
  every turn are inputs. \<open>Bench_Replay_Run\<close> joins the client with the server.
\<close>

section \<open>The client\<close>

text \<open>
  The results of \<^verbatim>\<open>::recv\<close> that are still to come: bytes (none when the peer has closed)
  or an error, which may be that nothing is there yet.
\<close>

datatype Recv = Bytes string | Failed bool

record Client =
  cl_sent :: string
  cl_sends :: nat
  cl_in :: "Recv list"
  cl_buf :: string

definition new_client :: Client where
  "new_client = \<lparr>cl_sent = [], cl_sends = 0, cl_in = [], cl_buf = []\<rparr>"

function send_all :: "Net \<Rightarrow> string \<Rightarrow> Client \<Rightarrow> (bool \<times> Client) option" where
  "send_all N p cl =
     (if p = [] then Some (True, cl)
      else
        let w = net_send N (cl_sends cl) p; cl = cl\<lparr>cl_sends := Suc (cl_sends cl)\<rparr> in
        if w \<le> 0 then Some (False, cl)
        else if nat w > length p then None
        else send_all N (drop (nat w) p) (cl\<lparr>cl_sent := cl_sent cl @ take (nat w) p\<rparr>))"
  by pat_completeness auto
termination
  by (relation "measure (\<lambda>(N, p, cl). length p)") auto

declare send_all.simps [simp del]

text \<open>The number is how often \<^verbatim>\<open>::poll\<close> finds the socket readable before it does not.\<close>

fun drain_nonblocking :: "nat \<Rightarrow> Recv list \<Rightarrow> string \<Rightarrow> bool \<times> string \<times> Recv list" where
  "drain_nonblocking (Suc k) (d # ds) buf =
     (case d of
        Failed would_block \<Rightarrow> (would_block, buf, ds)
      | Bytes b \<Rightarrow> if b = [] then (False, buf, ds) else drain_nonblocking k ds (buf @ b))"
| "drain_nonblocking k ds buf = (True, buf, ds)"

definition order_message :: "SeqNum \<Rightarrow> string \<Rightarrow> char \<Rightarrow> int \<Rightarrow> u64 \<Rightarrow> Fields" where
  "order_message q clord sd px qty =
     [(tag_MsgType, msgtype_NewOrderSingle),
      (tag_SenderCompID, ''CLIENT''),
      (tag_TargetCompID, ''OBFIX''),
      (tag_MsgSeqNum, show_u64 q),
      (tag_SendingTime, ''20260513-00:00:00.000''),
      (tag_ClOrdID, clord),
      (tag_Symbol, ''SYM''),
      (tag_Side, [sd]),
      (tag_OrderQty, show_u64 qty),
      (tag_Price, show_int px),
      (tag_OrdType, ''2''),
      (tag_TransactTime, ''20260513-00:00:00.000'')]"

datatype Popped = Report | Broken | Starved

partial_function (option) pop_report :: "string \<Rightarrow> (Popped \<times> string) option" where
  "pop_report buf =
     (if buf = [] then Some (Starved, buf)
      else do {
        r \<leftarrow> parse_one kSohWire buf;
        if err r = Incomplete then Some (Starved, buf)
        else if err r \<noteq> PE_None then Some (Broken, [])
        else let buf = drop (consumed r) buf in
          if msg_type (msg r) = ''8'' then Some (Report, buf) else pop_report buf })"

text \<open>What is received before the deadline is \<open>ds\<close>.\<close>

fun wait_for_exec_report :: "Recv list \<Rightarrow> string \<Rightarrow> (bool \<times> string \<times> Recv list) option" where
  "wait_for_exec_report [] buf = do {
     (p, buf) \<leftarrow> pop_report buf;
     Some (p = Report, buf, []) }"
| "wait_for_exec_report (d # ds) buf = do {
     (p, buf) \<leftarrow> pop_report buf;
     (case p of
        Report \<Rightarrow> Some (True, buf, d # ds)
      | Broken \<Rightarrow> Some (False, buf, d # ds)
      | Starved \<Rightarrow>
          (case d of
             Failed _ \<Rightarrow> Some (False, buf, ds)
           | Bytes b \<Rightarrow> if b = [] then Some (False, buf, ds) else wait_for_exec_report ds (buf @ b))) }"

record ReplayArgs =
  n_msgs :: u64
  out_path :: string
  replay_algo :: MatchAlgo
  smoke :: bool

definition default_args :: ReplayArgs where
  "default_args = \<lparr>n_msgs = 100000, out_path = [], replay_algo = ProRata, smoke = False\<rparr>"

fun replay_args :: "string list \<Rightarrow> ReplayArgs \<Rightarrow> exn + ReplayArgs" where
  "replay_args [] r = Inr r"
| "replay_args [a] r = Inr (if a = ''--smoke'' then r\<lparr>n_msgs := 1000, smoke := True\<rparr> else r)"
| "replay_args (a # v # as) r =
     (if a = ''--n'' then
        (case stoull v of Inl e \<Rightarrow> Inl e | Inr n \<Rightarrow> replay_args as (r\<lparr>n_msgs := n\<rparr>))
      else if a = ''--out'' then replay_args as (r\<lparr>out_path := v\<rparr>)
      else if a = ''--algo'' then replay_args as (r\<lparr>replay_algo := (if v = ''fifo'' then Fifo else ProRata)\<rparr>)
      else if a = ''--smoke'' then replay_args (v # as) (r\<lparr>n_msgs := 1000, smoke := True\<rparr>)
      else replay_args (v # as) r)"

definition replay_config :: "ReplayArgs \<Rightarrow> ServerConfig" where
  "replay_config r = default_config\<lparr>srv_host := ''127.0.0.1'', srv_port := 0, srv_sender_comp_id := ''OBFIX'',
     srv_algo := replay_algo r\<rparr>"

definition logon_message :: Fields where
  "logon_message =
     [(tag_MsgType, msgtype_Logon),
      (tag_SenderCompID, ''CLIENT''),
      (tag_TargetCompID, ''OBFIX''),
      (tag_MsgSeqNum, ''1''),
      (tag_SendingTime, ''20260513-00:00:00.000''),
      (108, ''30'')]"

text \<open>
  The loop that waits for the logon's echo. A number per round is how often the socket was
  found readable in it; the result is whether the loop has ended within these rounds.
\<close>

fun await_logon :: "nat list \<Rightarrow> Recv list \<Rightarrow> string \<Rightarrow> (bool \<times> string \<times> Recv list) option" where
  "await_logon [] ds buf = Some (False, buf, ds)"
| "await_logon (k # ks) ds buf =
     (let (open', buf, ds) = drain_nonblocking k ds buf in
      if \<not> open' then Some (True, buf, ds)
      else do {
        r \<leftarrow> parse_one kSohWire buf;
        if err r = PE_None then Some (True, drop (consumed r) buf, ds) else await_logon ks ds buf })"

text \<open>The inputs of one turn of \<^verbatim>\<open>run_block\<close>; \<open>turn_now\<close> is the server's clock when it ticks.\<close>

record Turn =
  px_off :: int
  turn_arrives :: "Recv list"
  turn_polls :: nat
  turn_ns :: u64
  turn_now :: time_point

definition block_order :: "u64 \<Rightarrow> nat \<Rightarrow> Turn \<Rightarrow> Fields" where
  "block_order seq_base i t =
     (let sd = (if i mod 2 = 0 then CHR ''1'' else CHR ''2'');
          px = 10000 + px_off t;
          q = seq_base + of_nat i
      in order_message q (''o-'' @ show_u64 q) sd px 100)"

fun run_block ::
  "Net \<Rightarrow> (nat \<Rightarrow> Turn) \<Rightarrow> u64 \<Rightarrow> bool \<Rightarrow> nat \<Rightarrow> nat \<Rightarrow> Client \<Rightarrow> LogHistogram \<Rightarrow> (bool \<times> Client \<times> LogHistogram) option"
where
  "run_block N T seq_base measured 0 i cl hist = Some (True, cl, hist)"
| "run_block N T seq_base measured (Suc n) i cl hist = do {
     (sent', cl) \<leftarrow> send_all N (build kSohWire (block_order seq_base i (T i))) cl;
     if \<not> sent' then Some (False, cl, hist)
     else do {
       (found, buf, ds) \<leftarrow> wait_for_exec_report (cl_in cl @ turn_arrives (T i)) (cl_buf cl);
       if \<not> found then Some (False, cl\<lparr>cl_in := ds, cl_buf := buf\<rparr>, hist)
       else
         let hist = (if measured then record_ns (turn_ns (T i)) hist else hist);
             (open', buf, ds) = drain_nonblocking (turn_polls (T i)) ds buf;
             cl = cl\<lparr>cl_in := ds, cl_buf := buf\<rparr>
         in if \<not> open' then Some (False, cl, hist)
            else run_block N T seq_base measured n (Suc i) cl hist } }"

text \<open>
  \<^verbatim>\<open>main\<close> from the logon to the end of the measured block. The result of the first
  \<^verbatim>\<open>send_all\<close> is ignored.
\<close>

datatype Exit = AwaitingLogon | WarmupFailed | MeasureFailed | Measured LogHistogram

definition replay_main ::
  "Net \<Rightarrow> ReplayArgs \<Rightarrow> Recv list \<Rightarrow> nat list \<Rightarrow> (nat \<Rightarrow> Turn) \<Rightarrow> (nat \<Rightarrow> Turn) \<Rightarrow> Client \<Rightarrow> (Exit \<times> Client) option"
where
  "replay_main N r echo rounds W T cl = do {
     (_, cl) \<leftarrow> send_all N (build kSohWire logon_message) cl;
     (ended, buf, ds) \<leftarrow> await_logon rounds (cl_in cl @ echo) (cl_buf cl);
     let cl = cl\<lparr>cl_in := ds, cl_buf := buf\<rparr>;
     if \<not> ended then Some (AwaitingLogon, cl)
     else do {
       (warm, cl, _) \<leftarrow>
         (if smoke r then Some (True, cl, new_histogram) else run_block N W 2 False 2000 0 cl new_histogram);
       if \<not> warm then Some (WarmupFailed, cl)
       else do {
         (done', cl, hist) \<leftarrow> run_block N T (if smoke r then 2 else 2002) True (unat (n_msgs r)) 0 cl new_histogram;
         Some (if done' then Measured hist else MeasureFailed, cl) } } }"

section \<open>Receiving\<close>

definition clean :: "Recv list \<Rightarrow> bool" where
  "clean ds \<longleftrightarrow> list_all (\<lambda>d. \<exists>b. d = Bytes b \<and> b \<noteq> []) ds"

definition joined :: "Recv list \<Rightarrow> string" where
  "joined ds = concat (map (\<lambda>d. case d of Bytes b \<Rightarrow> b | Failed _ \<Rightarrow> []) ds)"

lemma joined_simps [simp]: "joined [] = []" "joined (Bytes b # ds) = b @ joined ds" "joined (xs @ ys) = joined xs @ joined ys"
  by (simp_all add: joined_def)

lemma clean_simps [simp]: "clean []" "clean (Bytes b # ds) \<longleftrightarrow> b \<noteq> [] \<and> clean ds" "clean (Failed e # ds) \<longleftrightarrow> False"
  "clean (xs @ ys) \<longleftrightarrow> clean xs \<and> clean ys"
  by (simp_all add: clean_def)

lemma clean_drop: "clean ds \<Longrightarrow> clean (drop k ds)"
  unfolding clean_def list_all_iff by (meson in_set_dropD)

lemma joined_empty: "clean ds \<Longrightarrow> joined ds = [] \<longleftrightarrow> ds = []"
  by (cases ds rule: list.exhaust; cases "hd ds") auto

lemma drain_clean: "clean ds \<Longrightarrow> drain_nonblocking k ds buf = (True, buf @ joined (take k ds), drop k ds)"
proof (induction k ds buf rule: drain_nonblocking.induct)
  case (1 k d ds buf)
  then show ?case by (cases d) auto
qed (auto simp: joined_def)

lemma drain_keeps: "clean ds \<Longrightarrow> \<exists>buf' ds'. drain_nonblocking k ds buf = (True, buf', ds') \<and> clean ds' \<and> buf' @ joined ds' = buf @ joined ds"
  by (simp add: drain_clean clean_drop flip: joined_simps(3))

interpretation client_writer: send_loop send_all cl_sent cl_sends "\<lambda>x k cl. cl\<lparr>cl_sent := x, cl_sends := k\<rparr>"
proof unfold_locales
  show "send_all N [] cl = Some (True, cl)" for N cl by (simp add: send_all.simps)
  show "send_all N p cl = (let w = net_send N (cl_sends cl) p in
      if w \<le> 0 then Some (False, cl\<lparr>cl_sent := cl_sent cl, cl_sends := Suc (cl_sends cl)\<rparr>)
      else if length p < nat w then None
      else send_all N (drop (nat w) p) (cl\<lparr>cl_sent := cl_sent cl @ take (nat w) p, cl_sends := Suc (cl_sends cl)\<rparr>))"
    if "p \<noteq> []" for p N cl using that by (subst send_all.simps, cases cl) (simp add: Let_def)
qed simp_all

lemmas send_all_up = client_writer.loop_up

lemma framed_nonempty: "framed sep w \<Longrightarrow> w \<noteq> []"
proof
  assume "framed sep w" "w = []"
  then obtain r where "parse_one sep [] = Some r" "err r = PE_None" by (auto simp: framed_def)
  then show False by (auto simp: parse_one_def parse_fail_def)
qed

lemma pop_report_found:
  assumes "framed kSohWire w" and "peek kSohWire w tag_MsgType = Some ''8''"
  shows "pop_report (w @ tl0) = Some (Report, tl0)"
proof -
  obtain r where r: "parse_one kSohWire (w @ tl0) = Some r" "err r = PE_None" "consumed r = length w"
    "get (msg r) tag_MsgType = Some ''8''" using assms unfolding framed_def by metis
  then show ?thesis using framed_nonempty [OF assms(1)]
    by (subst pop_report.simps) (simp add: msg_type_def get_def)
qed

lemma pop_report_starved:
  assumes "framed kSohWire w" and "k < length w"
  shows "pop_report (take k w) = Some (Starved, take k w)"
  using assms by (subst pop_report.simps) (simp add: framed_def parse_fail_def)

abbreviation report_bytes :: "string \<Rightarrow> bool" where
  "report_bytes w \<equiv> framed kSohWire w \<and> peek kSohWire w tag_MsgType = Some ''8''"

lemma wait_found:
  assumes "report_bytes w" and "clean ds" and "buf @ joined ds = w @ tl0"
  shows "\<exists>buf' ds'. wait_for_exec_report ds buf = Some (True, buf', ds') \<and> clean ds' \<and> buf' @ joined ds' = tl0"
  using assms(2,3)
proof (induction ds arbitrary: buf)
  case Nil
  then show ?case using pop_report_found assms(1) by simp
next
  case (Cons d ds)
  then obtain b where d: "d = Bytes b" "b \<noteq> []" "clean ds" by (cases d) auto
  show ?case
  proof (cases "length w \<le> length buf")
    case True
    have "buf = w @ drop (length w) buf" "drop (length w) buf @ b @ joined ds = tl0"
      using arg_cong [OF Cons.prems(2), of "take (length w)"] arg_cong [OF Cons.prems(2), of "drop (length w)"] True d(1)
        append_take_drop_id [of "length w" buf] by simp_all
    then obtain r0 where r0: "buf = w @ r0" "r0 @ b @ joined ds = tl0" by blast
    then show ?thesis using pop_report_found [of w r0] assms(1) Cons.prems(1) d(1) by simp
  next
    case False
    then have b: "buf = take (length buf) w" using Cons.prems(2) by (auto simp: append_eq_append_conv_if)
    then have "pop_report buf = Some (Starved, buf)" using pop_report_starved [of w "length buf"] assms(1) False by simp
    moreover from Cons.IH [of "buf @ b"] Cons.prems(2) d obtain buf' ds' where
      "wait_for_exec_report ds (buf @ b) = Some (True, buf', ds')" "clean ds'" "buf' @ joined ds' = tl0" by auto
    ultimately show ?thesis using d by simp
  qed
qed

lemma await_found:
  assumes "framed kSohWire w" and "clean ds" and "buf @ joined ds = w" and "buf \<noteq> w" and "length ds \<le> sum_list ks"
  shows "await_logon ks ds buf = Some (True, [], [])"
  using assms(2-5)
proof (induction ks arbitrary: ds buf)
  case Nil
  then show ?case by simp
next
  case (Cons k ks)
  let ?b = "buf @ joined (take k ds)" and ?d = "drop k ds"
  have w: "?b @ joined ?d = w" using Cons.prems(2) by (simp flip: joined_simps(3))
  have c: "clean ?d" by (rule clean_drop [OF Cons.prems(1)])
  have step: "await_logon (k # ks) ds buf = do { r \<leftarrow> parse_one kSohWire ?b;
      if err r = PE_None then Some (True, drop (consumed r) ?b, ?d) else await_logon ks ?d ?b }"
    using drain_clean [OF Cons.prems(1), of k buf] by simp
  show ?case
  proof (cases "?b = w")
    case True
    with w c have "?d = []" using joined_empty by simp
    moreover obtain r where "parse_one kSohWire w = Some r" "err r = PE_None" "consumed r = length w"
      using assms(1) unfolding framed_def by (metis append_Nil2)
    ultimately show ?thesis unfolding step True by simp
  next
    case False
    then have "joined ?d \<noteq> []" using w by auto
    then have "length ?b < length w" "?b = take (length ?b) w" using arg_cong [OF w, of length] w [symmetric] by simp_all
    then have "parse_one kSohWire ?b = Some (parse_fail Incomplete)" using assms(1) unfolding framed_def by metis
    moreover have "length ?d \<le> sum_list ks" using Cons.prems(4) by simp
    ultimately show ?thesis using Cons.IH [OF c w False] unfolding step by (simp add: parse_fail_def)
  qed
qed

section \<open>The orders of a block\<close>

lemma order_message_ok:
  assumes "kSohWire \<notin> set cl" and "length cl \<le> 1000" and "sd \<noteq> kSohWire" and "- (2 ^ 63) \<le> px" and "px < 2 ^ 63"
  shows "body_ok kSohWire (order_message q cl sd px qty)" "length (build kSohWire (order_message q cl sd px qty)) \<le> 2 ^ 58"
proof -
  have "length (build_body kSohWire (order_message q cl sd px qty)) \<le> 3000"
    using assms(2) length_show_u64 [of q] length_show_u64 [of qty] length_show_int64 [of px] assms(4,5)
      length_show_int [of 35] length_show_int [of 34] length_show_int [of 11] length_show_int [of 49] length_show_int [of 56]
      length_show_int [of 52] length_show_int [of 55] length_show_int [of 54] length_show_int [of 38] length_show_int [of 44]
      length_show_int [of 40] length_show_int [of 60]
    by (simp add: order_message_def)
  with length_build_le [of kSohWire "order_message q cl sd px qty"]
  have l: "length (build kSohWire (order_message q cl sd px qty)) \<le> 2 ^ 58" by simp
  then show "length (build kSohWire (order_message q cl sd px qty)) \<le> 2 ^ 58" .
  have w: "kSohWire \<notin> set (show_u64 q)" "kSohWire \<notin> set (show_u64 qty)" "kSohWire \<notin> set (show_int px)"
    by (simp_all only: plain_text plain_def simp_thms)
  have "fields_ok kSohWire (order_message q cl sd px qty)"
    using assms(1,3) w by (simp add: fields_ok_def field_ok_def order_message_def)
  moreover have "length (build kSohWire (order_message q cl sd px qty)) < 2 ^ 64" by (rule le_less_trans [OF l]) simp
  ultimately show "body_ok kSohWire (order_message q cl sd px qty)" unfolding body_ok_def ..
qed

text \<open>The order the server makes of the client's message.\<close>

definition client_order :: "OrderId \<Rightarrow> string \<Rightarrow> char \<Rightarrow> int \<Rightarrow> u64 \<Rightarrow> Order" where
  "client_order i cl sd px qty = \<lparr>order_id = i, session = 0, clord_id = \<lparr>clord_value = cl\<rparr>, side = sd,
     ord_type = Limit, price = px, orig_qty = qty, leaves_qty = qty, ts = 0, prv = None, nxt = None\<rparr>"

lemma client_order_read:
  assumes "- (2 ^ 63) \<le> px" and "px < 2 ^ 63"
  shows "new_order (wire_message sep (order_message q cl sd px qty)) i = Inr (client_order i cl sd px qty)"
  unfolding client_order_def by (rule new_order_wire [OF _ assms]) (simp_all add: order_message_def)

section \<open>One exchange\<close>

lemma exchange:
  assumes sv: "server_ok sv" and ent: "entered c E N now msgtype_NewOrderSingle (order_message q cl sd px qty)"
    and sep: "soh (conn_session c) = kSohWire" and px: "- (2 ^ 63) \<le> px" "px < 2 ^ 63"
    and acc: "acceptable place (wire_message kSohWire (order_message q cl sd px qty)) sv"
    and room: "room (Suc (card (dom (sv_heap sv)))) (conn_session c)"
  shows "\<exists>out c' sv'. session_iter E N place (Data (build kSohWire (order_message q cl sd px qty)) now) c sv =
      Some (Inr (True, c', sv')) \<and> conn_wire c' = conn_wire c @ out \<and> server_ok sv' \<and>
    (\<forall>ds. clean ds \<and> joined ds = out \<longrightarrow> (\<exists>buf ds'. wait_for_exec_report ds [] = Some (True, buf, ds')))"
proof -
  let ?v = "client_order (next_order_id sv) cl sd px qty" and ?m = "wire_message (soh (conn_session c)) (order_message q cl sd px qty)"
  have v: "new_order ?m (next_order_id sv) = Inr ?v" by (rule client_order_read [OF px])
  have acc': "acceptable place ?m sv" using acc sep by simp
  from order_entry [OF sv ent v acc' room] sep obtain h b evs ws c' sv' where
    r: "submit (srv_algo (sv_cfg sv)) ((sv_heap sv)(place (sv_heap sv) \<mapsto> ?v)) (sv_book sv) (place (sv_heap sv)) [] = Some (h, b, evs)"
      "session_iter E N place (Data (build kSohWire (order_message q cl sd px qty)) now) c sv = Some (Inr (True, c', sv'))"
      "conn_wire c' = conn_wire c @ concat ws" "reported kSohWire (Suc (unat (out_seq (conn_session c)))) evs ws" "server_ok sv'"
    by auto
  have "text_ok (soh (conn_session c)) (clord_value (clord_id ?v))"
    using enteredD(10) [OF ent, of tag_ClOrdID] by (simp add: app_types_def wire_message_get order_message_def client_order_def value_or_def)
  from submit_events_ok(2) [OF sv acc' v this r(1)] obtain tr where "evs = AckEv \<lparr>ack_id = order_id ?v, ack_clord_id = clord_id ?v\<rparr> # tr" by blast
  with r(4) obtain w ws' where w: "ws = w # ws'" "framed kSohWire w" "peek kSohWire w tag_MsgType = Some ''8''"
    by (auto simp: report_of_def split: list.splits)
  have "\<exists>buf ds'. wait_for_exec_report ds [] = Some (True, buf, ds')" if "clean ds" "joined ds = concat ws" for ds
    using wait_found [of w ds "[]" "concat ws'"] that w by auto
  with r show ?thesis by blast
qed

end
