(* ===== verification/Bench_Replay_Run.thy ===== *)
theory Bench_Replay_Run
  imports Bench_Replay Net_System
begin

text \<open>
  The replay benchmark against the server: from the logon to the last measured order,
  when the client receives what the server writes.
\<close>

section \<open>Between two orders\<close>

text \<open>Client order ids: the resting ones were given to earlier messages, so the next is new.\<close>

definition named_below :: "SeqNum \<Rightarrow> heap \<Rightarrow> bool" where
  "named_below q h \<longleftrightarrow> (\<forall>a v. h a = Some v \<longrightarrow> (\<exists>k < q. clord_value (clord_id v) = ''o-'' @ show_u64 k))"

lemma show_u64_inject: "show_u64 a = show_u64 b \<Longrightarrow> a = b"
  by (metis stoull_show_u64 sum.inject(2))

lemma named_below_fresh:
  assumes "server_ok sv" and "named_below q (sv_heap sv)"
  shows "find (sv_book sv) 0 \<lparr>clord_value = ''o-'' @ show_u64 q\<rparr> = None"
proof (rule ccontr)
  obtain A where E: "engine_rep (srv_algo (sv_cfg sv)) (sv_heap sv, sv_book sv) A" using server_orders [OF assms(1)] by blast
  assume "\<not> ?thesis"
  then obtain a where "index (sv_book sv) (0, ''o-'' @ show_u64 q) = Some a" by (auto simp: find_def)
  then obtain v where v: "(a, v) \<in> set (book_entries A)" "index_key v = (0, ''o-'' @ show_u64 q)"
    using index_repD [OF book_repD(3) [OF engine_repD(1) [OF E]]] by blast
  from book_rep_mem [OF engine_repD(1) [OF E] v(1)] obtain w where w: "sv_heap sv a = Some w" "payload w = v" by blast
  then have "clord_value (clord_id w) = ''o-'' @ show_u64 q" using v(2) by (auto simp: index_key_def)
  moreover obtain k where "k < q" "clord_value (clord_id w) = ''o-'' @ show_u64 k" using assms(2) w(1) unfolding named_below_def by blast
  ultimately show False using show_u64_inject [of q k] by simp
qed

text \<open>
  The connection and the server between two orders of a block: the next message is number
  \<open>q\<close>, and there is room for \<open>n\<close> more orders in the numbers and quantities.
\<close>

definition trading :: "Env \<Rightarrow> SeqNum \<Rightarrow> nat \<Rightarrow> Conn \<Rightarrow> Server \<Rightarrow> bool" where
  "trading E q n c sv \<longleftrightarrow> server_ok sv \<and> session_wf (conn_session c) \<and> soh (conn_session c) = kSohWire \<and>
     state (conn_session c) = LoggedIn \<and> in_buf (conn_session c) = [] \<and> in_seq (conn_session c) + 1 = q \<and>
     heartbeat_secs (cfg (conn_session c)) = 30 \<and> last_outbound (conn_session c) \<in> range (env_clock E) \<and>
     named_below q (sv_heap sv) \<and>
     unat (out_seq (conn_session c)) + n * (card (dom (sv_heap sv)) + n + 1) < 2 ^ 64 \<and>
     unat q + n < 2 ^ 64 \<and> unat (next_order_id sv) + n < 2 ^ 64 \<and> heap_volume (sv_heap sv) + 100 * n < 2 ^ 64"

text \<open>What the surroundings promise: a well-behaved environment, a peer that reads, fresh addresses.\<close>

definition replay_env :: "Env \<Rightarrow> Net \<Rightarrow> (heap \<Rightarrow> addr) \<Rightarrow> bool" where
  "replay_env E N place \<longleftrightarrow> env_ok E kSohWire \<and> net_up N \<and> (\<forall>h. finite (dom h) \<longrightarrow> h (place h) = None)"

text \<open>The run is over within one heartbeat interval.\<close>

definition prompt :: "Env \<Rightarrow> time_point \<Rightarrow> bool" where
  "prompt E now \<longleftrightarrow> (\<forall>k. now - env_clock E k < secs 30)"

lemma promptD: "prompt E now \<Longrightarrow> t \<in> range (env_clock E) \<Longrightarrow> now - t < secs 30 \<and> now - t < secs 45"
  by (auto simp: prompt_def secs_def intro: less_trans [of _ 30000000000])

lemma u64_next: "unat (q :: u64) + Suc n < 2 ^ 64 \<Longrightarrow> q < q + 1 \<and> unat (q + 1) = Suc (unat q)"
  using unat_plus_no_wrap [of q 1] by (simp add: word_less_nat_alt)

lemma trading_entered:
  assumes tr: "trading E q (Suc n) c sv" and env: "replay_env E N place" and now: "prompt E now"
    and px: "- (2 ^ 63) \<le> px" "px < 2 ^ 63" and sd: "sd \<noteq> kSohWire"
  defines "body \<equiv> order_message q (''o-'' @ show_u64 q) sd px 100"
  shows "entered c E N now msgtype_NewOrderSingle body" "acceptable place (wire_message kSohWire body) sv"
    "room (Suc (card (dom (sv_heap sv)))) (conn_session c)"
proof -
  let ?s = "conn_session c"
  have s: "session_wf ?s" "soh ?s = kSohWire" "state ?s = LoggedIn" "in_buf ?s = []" "in_seq ?s + 1 = q"
      "heartbeat_secs (cfg ?s) = 30" "last_outbound ?s \<in> range (env_clock E)" and sv: "server_ok sv" "named_below q (sv_heap sv)"
    using tr by (simp_all add: trading_def)
  have "kSohWire \<notin> set (''o-'' @ show_u64 q)" "length (''o-'' @ show_u64 q) \<le> 1000"
    using plain_text(1) [of kSohWire q] length_show_u64 [of q] by (simp_all add: plain_def)
  note b = order_message_ok [OF this sd px, of q 100, folded body_def]
  have t: "now - env_clock E (clock_reads ?s) < window ?s" "now - last_outbound ?s < secs 30"
    using promptD [OF now] s(6,7) by (simp_all add: window_def)
  then show "entered c E N now msgtype_NewOrderSingle body"
    using s b env by (auto simp: entered_def replay_env_def read_one_def body_def order_message_def)
  have "sv_heap sv (place (sv_heap sv)) = None" using env server_orders [OF sv(1)] unfolding replay_env_def by metis
  moreover have "next_order_id sv < next_order_id sv + 1" using tr u64_next [of "next_order_id sv" n] by (simp add: trading_def)
  moreover have "admits (srv_algo (sv_cfg sv)) (sv_heap sv) (client_order (next_order_id sv) (''o-'' @ show_u64 q) sd px 100)"
    using tr by (simp add: trading_def admits_def client_order_def)
  ultimately show "acceptable place (wire_message kSohWire body) sv"
    using named_below_fresh [OF sv] client_order_read [OF px]
    by (simp add: acceptable_def body_def) (simp add: client_order_def)
  show "room (Suc (card (dom (sv_heap sv)))) ?s" using tr by (simp add: trading_def room_def)
qed

lemma trading_read:
  assumes tr: "trading E q (Suc n) c sv" and env: "replay_env E N place" and now: "prompt E now"
    and px: "- (2 ^ 63) \<le> px" "px < 2 ^ 63" and sd: "sd \<noteq> kSohWire"
  defines "body \<equiv> order_message q (''o-'' @ show_u64 q) sd px 100"
  shows "\<exists>c'. read_phase E N (build kSohWire body) now c sv = Some (Inr (True, [wire_message kSohWire body], c', sv))"
proof -
  let ?s = "conn_session c" and ?s1 = "(read_one E (conn_session c))\<lparr>in_seq := in_seq (conn_session c) + 1\<rparr>"
  note e = enteredD [OF trading_entered(1) [OF tr env now px sd], unfolded app_types_def, simplified]
  have sep: "soh ?s = kSohWire" using tr by (simp add: trading_def)
  have "on_bytes E (build kSohWire body) ?s = Some (Inr (no_step\<lparr>step_app := [wire_message kSohWire body]\<rparr>, ?s1))"
    using app_message [OF plain_ok(1) [OF session_wf_plain [OF e(1)]] e(5,3,4)] sep by (simp add: body_def)
  moreover have "tick E now ?s1 = (no_step, ?s1)"
    using e(7-9) by (intro tick_idle) (simp_all add: read_one_def window_def)
  ultimately show ?thesis by (simp add: read_phase_def no_step_def)
qed

lemma named_below_next:
  assumes "named_below q h" and "q < q + 1" and "clord_value (clord_id v) = ''o-'' @ show_u64 q"
    and "\<And>c w. h' c = Some w \<Longrightarrow> \<exists>u. (h(a \<mapsto> v)) c = Some u \<and> clord_id w = clord_id u"
  shows "named_below (q + 1) h'"
  unfolding named_below_def
proof (intro allI impI)
  fix c w assume "h' c = Some w"
  then obtain u where u: "(h(a \<mapsto> v)) c = Some u" "clord_id w = clord_id u" using assms(4) by blast
  show "\<exists>k < q + 1. clord_value (clord_id w) = ''o-'' @ show_u64 k"
  proof (cases "c = a")
    case True
    with u assms(3) have "clord_value (clord_id w) = ''o-'' @ show_u64 q" by auto
    with assms(2) show ?thesis by blast
  next
    case False
    with u assms(1) obtain k where "k < q" "clord_value (clord_id w) = ''o-'' @ show_u64 k" unfolding named_below_def by force
    with assms(2) show ?thesis using less_trans by blast
  qed
qed

lemma reported_reports: "reported kSohWire k evs ws \<Longrightarrow> length ws = length evs \<and> list_all report_bytes ws"
  by (induction evs arbitrary: k ws) (auto simp: report_of_def split: list.splits)

lemma room_next:
  fixes o1 :: nat
  assumes "o1 + Suc n * (d + Suc n + 1) < m" and "o2 \<le> o1 + Suc d" and "d2 \<le> Suc d"
  shows "o2 + n * (d2 + n + 1) < m"
proof -
  have "n * (d2 + n + 1) \<le> n * (d + Suc n + 1)" by (rule mult_le_mono2) (use assms(3) in simp)
  then show ?thesis using assms(1,2) by simp
qed

lemma trading_step:
  assumes tr: "trading E q (Suc n) c sv" and env: "replay_env E N place" and now: "prompt E now"
    and px: "- (2 ^ 63) \<le> px" "px < 2 ^ 63" and sd: "sd \<noteq> kSohWire"
  shows "\<exists>ws c' sv'. session_iter E N place (Data (build kSohWire (order_message q (''o-'' @ show_u64 q) sd px 100)) now) c sv =
      Some (Inr (True, c', sv')) \<and> conn_wire c' = conn_wire c @ concat ws \<and> ws \<noteq> [] \<and> list_all report_bytes ws \<and>
    unat (out_seq (conn_session c')) = unat (out_seq (conn_session c)) + length ws \<and> trading E (q + 1) n c' sv'"
proof -
  let ?b = "order_message q (''o-'' @ show_u64 q) sd px 100" and ?s = "conn_session c"
  let ?v = "client_order (next_order_id sv) (''o-'' @ show_u64 q) sd px 100"
  have sv: "server_ok sv" and s: "soh ?s = kSohWire" "in_seq ?s + 1 = q" using tr by (simp_all add: trading_def)
  note e = trading_entered [OF tr env now px sd]
  have v: "new_order (wire_message kSohWire ?b) (next_order_id sv) = Inr ?v" by (rule client_order_read [OF px])
  from order_entry [OF sv e(1) _ _ e(3), unfolded s(1), OF v e(2)] obtain h b evs ws c' sv' where
    r: "submit (srv_algo (sv_cfg sv)) ((sv_heap sv)(place (sv_heap sv) \<mapsto> ?v)) (sv_book sv) (place (sv_heap sv)) [] = Some (h, b, evs)"
      "session_iter E N place (Data (build kSohWire ?b) now) c sv = Some (Inr (True, c', sv'))" "conn_wire c' = conn_wire c @ concat ws"
      "reported kSohWire (Suc (unat (out_seq ?s))) evs ws"
      "sv_heap sv' = h" "next_order_id sv' = next_order_id sv + 1" "server_ok sv'" "session_wf (conn_session c')"
      "unat (out_seq (conn_session c')) = unat (out_seq ?s) + length evs" "carried E ((read_one E ?s)\<lparr>in_seq := in_seq ?s + 1\<rparr>) (conn_session c')"
    by blast
  obtain A where E: "engine_rep (srv_algo (sv_cfg sv)) (sv_heap sv, sv_book sv) A" using server_orders [OF sv] by blast
  have acc: "sv_heap sv (place (sv_heap sv)) = None" "find (sv_book sv) (session ?v) (clord_id ?v) = None"
      "admits (srv_algo (sv_cfg sv)) (sv_heap sv) ?v"
    using e(2) v new_order_fields(2) [OF v] by (simp_all add: acceptable_def)
  note size = submit_size [OF E acc r(1)]
  have "text_ok kSohWire (clord_value (clord_id ?v))"
    using enteredD(10) [OF e(1), of tag_ClOrdID] s(1) new_order_fields(6) [OF v] by (simp add: app_types_def)
  note ev = submit_events_ok(2,3) [OF sv e(2) v this r(1)]
  have ws: "length ws = length evs" "list_all report_bytes ws" using reported_reports [OF r(4)] by simp_all
  have "named_below (q + 1) h"
  proof (rule named_below_next)
    show "named_below q (sv_heap sv)" "q < q + 1" using tr u64_next [of q n] by (simp_all add: trading_def)
    show "clord_value (clord_id ?v) = ''o-'' @ show_u64 q" by (simp add: client_order_def)
    show "\<exists>u. ((sv_heap sv)(place (sv_heap sv) \<mapsto> ?v)) x = Some u \<and> clord_id w = clord_id u" if "h x = Some w" for x w
      using submit_origin [OF E acc r(1) that] by blast
  qed
  moreover have "unat (out_seq (conn_session c')) + n * (card (dom h) + n + 1) < 2 ^ 64"
    using tr ev(2) size(2) r(9) by (intro room_next [of "unat (out_seq ?s)" n "card (dom (sv_heap sv))"]) (simp_all add: trading_def)
  moreover have "unat (q + 1) + n < 2 ^ 64" "unat (next_order_id sv + 1) + n < 2 ^ 64"
    using tr u64_next [of q n] u64_next [of "next_order_id sv" n] by (simp_all add: trading_def)
  moreover have "heap_volume h + 100 * n < 2 ^ 64" using tr size(1) by (simp add: trading_def client_order_def)
  ultimately have "trading E (q + 1) n c' sv'"
    using tr r(5-8,10) s(2) by (auto simp: trading_def carried_def)
  then show ?thesis using r(2,3,9) ws ev(1) by (intro exI [of _ ws] exI [of _ c'] exI [of _ sv']) auto
qed

section \<open>Client and server together\<close>

text \<open>
  A script lists what the server reads, round by round, and what the client receives
  afterwards. It is \<open>fed\<close> when what the client receives is what the server wrote.
\<close>

fun fed :: "Env \<Rightarrow> Net \<Rightarrow> (heap \<Rightarrow> addr) \<Rightarrow> (Input \<times> Recv list) list \<Rightarrow> Conn \<Rightarrow> Server \<Rightarrow> bool" where
  "fed E N place [] c sv \<longleftrightarrow> True"
| "fed E N place ((i, ds) # xs) c sv \<longleftrightarrow> clean ds \<and>
     (\<forall>c' sv'. session_iter E N place i c sv = Some (Inr (True, c', sv')) \<longrightarrow>
        conn_wire c' = conn_wire c @ joined ds \<and> fed E N place xs c' sv')"

definition block_script :: "(nat \<Rightarrow> Turn) \<Rightarrow> u64 \<Rightarrow> nat \<Rightarrow> nat \<Rightarrow> (Input \<times> Recv list) list" where
  "block_script T seq_base n i = map (\<lambda>j. (Data (build kSohWire (block_order seq_base j (T j))) (turn_now (T j)), turn_arrives (T j))) [i..<i + n]"

lemma block_script_Suc: "block_script T seq_base (Suc n) i =
    (Data (build kSohWire (block_order seq_base i (T i))) (turn_now (T i)), turn_arrives (T i)) # block_script T seq_base n (Suc i)"
  by (simp add: block_script_def upt_conv_Cons del: upt_Suc)

text \<open>The offsets of \<^verbatim>\<open>px_off\<close>, and the promptness of the server's ticks.\<close>

definition turns_ok :: "Env \<Rightarrow> (nat \<Rightarrow> Turn) \<Rightarrow> bool" where
  "turns_ok E T \<longleftrightarrow> (\<forall>i. - 5 \<le> px_off (T i) \<and> px_off (T i) \<le> 5 \<and> prompt E (turn_now (T i)))"

text \<open>The reports the client has been sent and not yet looked at.\<close>

definition backlog :: "Client \<Rightarrow> WireOut list \<Rightarrow> bool" where
  "backlog cl ws \<longleftrightarrow> cl_buf cl @ joined (cl_in cl) = concat ws \<and> clean (cl_in cl) \<and> list_all report_bytes ws"

lemma client_turn:
  assumes cl: "backlog cl ws" and new: "joined (turn_arrives (T i)) = concat ws1" "clean (turn_arrives (T i))"
      "list_all report_bytes ws1" "ws1 \<noteq> []" and net: "net_up M"
  shows "\<exists>cl'. backlog cl' (tl (ws @ ws1)) \<and> run_block M T seq_base measured (Suc n) i cl hist =
    run_block M T seq_base measured n (Suc i) cl' (if measured then record_ns (turn_ns (T i)) hist else hist)"
proof -
  let ?p = "build kSohWire (block_order seq_base i (T i))"
  from send_all_up [OF net, of ?p cl] obtain k where
    k: "send_all M ?p cl = Some (True, cl\<lparr>cl_sent := cl_sent cl @ ?p, cl_sends := k\<rparr>)" by blast
  obtain w us where w: "ws @ ws1 = w # us" using new(4) by (cases "ws @ ws1") auto
  have all: "list_all report_bytes (w # us)" unfolding w [symmetric] using cl new(3) by (simp add: backlog_def)
  have "cl_buf cl @ joined (cl_in cl @ turn_arrives (T i)) = w @ concat us"
    using cl new(1) arg_cong [OF w, of concat] by (simp add: backlog_def flip: append_assoc)
  moreover have "clean (cl_in cl @ turn_arrives (T i))" "report_bytes w" using cl new(2) all by (simp_all add: backlog_def)
  ultimately obtain buf ds where
    f: "wait_for_exec_report (cl_in cl @ turn_arrives (T i)) (cl_buf cl) = Some (True, buf, ds)" "clean ds" "buf @ joined ds = concat us"
    using wait_found by blast
  from drain_keeps [OF f(2), of "turn_polls (T i)" buf] f(3) obtain buf' ds' where
    d: "drain_nonblocking (turn_polls (T i)) ds buf = (True, buf', ds')" "clean ds'" "buf' @ joined ds' = concat us" by auto
  let ?cl = "cl\<lparr>cl_sent := cl_sent cl @ ?p, cl_sends := k, cl_in := ds', cl_buf := buf'\<rparr>"
  have "backlog ?cl us" using d(2,3) all by (simp add: backlog_def)
  then show ?thesis using k f(1) d(1) w by (intro exI [of _ ?cl]) (simp add: Let_def)
qed

text \<open>One turn of the block on both sides: the client's and the server's.\<close>

lemma block_turn:
  assumes env: "replay_env E N place" and net: "net_up M" and T: "turns_ok E T"
    and tr: "trading E (seq_base + of_nat i) (Suc m) c sv" and fed: "fed E N place (block_script T seq_base (Suc n) i @ xs) c sv" and cl: "backlog cl ws"
  shows "\<exists>cl' c' sv' ws'. run_block M T seq_base measured (Suc n) i cl hist =
      run_block M T seq_base measured n (Suc i) cl' (if measured then record_ns (turn_ns (T i)) hist else hist) \<and>
    session_loop E N place (map fst (block_script T seq_base (Suc n) i @ xs)) c sv =
      session_loop E N place (map fst (block_script T seq_base n (Suc i) @ xs)) c' sv' \<and>
    trading E (seq_base + of_nat (Suc i)) m c' sv' \<and> fed E N place (block_script T seq_base n (Suc i) @ xs) c' sv' \<and> backlog cl' ws' \<and>
    Suc (length ws') + unat (out_seq (conn_session c)) = length ws + unat (out_seq (conn_session c'))"
proof -
  let ?q = "seq_base + of_nat i" and ?t = "T i"
  let ?sd = "if i mod 2 = 0 then CHR ''1'' else CHR ''2''"
  have body: "block_order seq_base i ?t = order_message ?q (''o-'' @ show_u64 ?q) ?sd (10000 + px_off ?t) 100"
    by (simp add: block_order_def Let_def)
  have off: "- 5 \<le> px_off ?t" "px_off ?t \<le> 5" "prompt E (turn_now ?t)" using T by (simp_all add: turns_ok_def)
  then have t: "prompt E (turn_now ?t)" "- (2 ^ 63) \<le> 10000 + px_off ?t" "10000 + px_off ?t < 2 ^ 63" "?sd \<noteq> kSohWire"
    by simp_all
  from trading_step [OF tr env t] obtain ws1 c1 sv1 where
    s: "session_iter E N place (Data (build kSohWire (block_order seq_base i ?t)) (turn_now ?t)) c sv = Some (Inr (True, c1, sv1))"
      "conn_wire c1 = conn_wire c @ concat ws1" "ws1 \<noteq> []" "list_all report_bytes ws1"
      "unat (out_seq (conn_session c1)) = unat (out_seq (conn_session c)) + length ws1" "trading E (?q + 1) m c1 sv1"
    unfolding body by blast
  have f: "clean (turn_arrives ?t)" "joined (turn_arrives ?t) = concat ws1" "fed E N place (block_script T seq_base n (Suc i) @ xs) c1 sv1"
    using fed s(1,2) by (simp_all add: block_script_Suc)
  from client_turn [of cl ws T i ws1, OF cl f(2,1) s(4,3) net] obtain cl1 where
    c: "backlog cl1 (tl (ws @ ws1))" "run_block M T seq_base measured (Suc n) i cl hist =
      run_block M T seq_base measured n (Suc i) cl1 (if measured then record_ns (turn_ns ?t) hist else hist)" by blast
  have "Suc (length (tl (ws @ ws1))) + unat (out_seq (conn_session c)) = length ws + unat (out_seq (conn_session c1))"
    using s(3,5) by (cases ws1) simp_all
  with c f(3) s(1,6) show ?thesis
    by (intro exI [of _ cl1] exI [of _ c1] exI [of _ sv1] exI [of _ "tl (ws @ ws1)"]) (simp add: block_script_Suc algebra_simps)
qed

lemma block_completes:
  assumes env: "replay_env E N place" and net: "net_up M" and T: "turns_ok E T"
    and "trading E (seq_base + of_nat i) (n + m) c sv" and "fed E N place (block_script T seq_base n i @ xs) c sv" and "backlog cl ws"
  shows "\<exists>cl' c' sv' ws'. run_block M T seq_base measured n i cl hist =
      Some (True, cl', if measured then fold record_ns (map (turn_ns \<circ> T) [i..<i + n]) hist else hist) \<and>
    session_loop E N place (map fst (block_script T seq_base n i @ xs)) c sv = session_loop E N place (map fst xs) c' sv' \<and>
    trading E (seq_base + of_nat (i + n)) m c' sv' \<and> fed E N place xs c' sv' \<and> backlog cl' ws' \<and>
    length ws' + n + unat (out_seq (conn_session c)) = length ws + unat (out_seq (conn_session c'))"
  using assms(4-)
proof (induction n arbitrary: i c sv cl hist ws)
  case 0
  then show ?case by (auto simp: block_script_def)
next
  case (Suc n)
  let ?h = "if measured then record_ns (turn_ns (T i)) hist else hist"
  have "trading E (seq_base + of_nat i) (Suc (n + m)) c sv" using Suc.prems(1) by simp
  from block_turn [OF env net T this Suc.prems(2,3), of measured hist] obtain cl1 c1 sv1 ws1 where
    t: "run_block M T seq_base measured (Suc n) i cl hist = run_block M T seq_base measured n (Suc i) cl1 ?h"
      "session_loop E N place (map fst (block_script T seq_base (Suc n) i @ xs)) c sv =
        session_loop E N place (map fst (block_script T seq_base n (Suc i) @ xs)) c1 sv1"
      "trading E (seq_base + of_nat (Suc i)) (n + m) c1 sv1" "fed E N place (block_script T seq_base n (Suc i) @ xs) c1 sv1" "backlog cl1 ws1"
      "Suc (length ws1) + unat (out_seq (conn_session c)) = length ws + unat (out_seq (conn_session c1))" by blast
  have "[i..<i + Suc n] = i # [Suc i..<Suc i + n]" by (subst upt_conv_Cons) simp_all
  then have "(if measured then fold record_ns (map (turn_ns \<circ> T) [i..<i + Suc n]) hist else hist) =
      (if measured then fold record_ns (map (turn_ns \<circ> T) [Suc i..<Suc i + n]) ?h else ?h)" by simp
  with Suc.IH [OF t(3-5), of ?h] t(1,2,6) show ?case
    by (elim exE conjE) (rule exI, rule exI, rule exI, rule exI, intro conjI, simp, simp, simp, assumption, assumption, simp)
qed

section \<open>Logging on\<close>

lemma show_u64_1: "show_u64 1 = ''1''"
  by code_simp

lemma logon_message_ok: "body_ok kSohWire logon_message" "length (build kSohWire logon_message) \<le> 2 ^ 58"
proof -
  have l: "length (build kSohWire logon_message) = 83" by code_simp
  then show "length (build kSohWire logon_message) \<le> 2 ^ 58" by simp
  show "body_ok kSohWire logon_message" unfolding body_ok_def l by (simp add: fields_ok_def field_ok_def logon_message_def)
qed

abbreviation new_conn :: "ServerConfig \<Rightarrow> Conn" where
  "new_conn c \<equiv> th_conn (new_thread c)"

lemma logon_entered:
  assumes env: "replay_env E N place" and now: "prompt E now" and n: "n \<le> 2 ^ 31 + 2000"
  shows "\<exists>w c sv. session_iter E N place (Data (build kSohWire logon_message) now) (new_conn (replay_config r)) (new_server (replay_config r)) =
      Some (Inr (True, c, sv)) \<and> conn_wire c = w \<and> framed kSohWire w \<and> out_seq (conn_session c) = 1 \<and> trading E 2 n c sv \<and>
    read_phase E N (build kSohWire logon_message) now (new_conn (replay_config r)) (new_server (replay_config r)) = Some (Inr (True, [], c, sv))"
proof -
  let ?s = "open_session (replay_config r)" and ?m = "wire_message kSohWire logon_message"
  let ?l = "(adopt_target ?m (logon_reset E (read_one E ?s)))\<lparr>in_seq := 1, state := LoggedIn\<rparr>" and ?b = "[(108, show_int 30)]"
  have s: "soh ?s = kSohWire" "state ?s = Disconnected" "in_buf ?s = []" "reset_on_logon (cfg ?s)" "heartbeat_secs (cfg ?s) = 30"
      "sender_comp_id (cfg ?s) = ''OBFIX''"
    by (simp_all add: open_session_def new_session_def replay_config_def default_config_def)
  have p: "plain kSohWire" by (simp add: plain_def)
  have wf: "session_wf ?s"
    unfolding open_session_def using p by (intro new_session_wf) (simp_all add: replay_config_def default_config_def config_ok_def text_ok_def)
  have m: "msg_type ?m = msgtype_Logon" "get ?m tag_TargetCompID = Some ''OBFIX''" "seq ?m = Inr 1"
    using stoull_show_u64 [of 1]
    by (simp_all add: wire_message_get wire_message_type wire_message_seq logon_message_def show_u64_1)
  have v: "values_ok (soh (read_one E ?s)) ?m" using wire_values_ok [OF p logon_message_ok] s(1) by simp
  have "env_ok E (soh (read_one E ?s))" "session_wf (read_one E ?s)" "reset_on_logon (cfg (read_one E ?s))"
    using env wf s by (simp_all add: replay_env_def)
  from logon_reply [OF this(2,1) v this(3), of 1] s(1,5) obtain w where
    w: "out_step (build_message E ((tag_MsgType, msgtype_Logon) # ?b) ?l) = (no_step\<lparr>step_out := [w]\<rparr>, sent E msgtype_Logon ?b ?l)"
      "out_seq ?l = 0" "framed kSohWire w" by auto
  have read: "on_bytes E (build kSohWire logon_message) ?s = Some (Inr (no_step\<lparr>step_out := [w]\<rparr>, sent E msgtype_Logon ?b ?l))"
    using on_bytes_message [of ?s logon_message E] plain_ok(1) [OF p] logon_message_ok(1) s m w(1)
    by (simp add: handle_message_def handle_logon_alt)
  let ?s1 = "sent E msgtype_Logon ?b ?l"
  have s1: "soh ?s1 = kSohWire" "state ?s1 = LoggedIn" "in_buf ?s1 = []" "in_seq ?s1 = 1" "out_seq ?s1 = 1"
      "heartbeat_secs (cfg ?s1) = 30" "last_outbound ?s1 \<in> range (env_clock E)" "last_inbound ?s1 \<in> range (env_clock E)"
      "\<not> test_request_outstanding ?s1"
    using s w(2) by (simp_all add: sent_def adopt_target_def logon_reset_def split: option.split)
  have idle: "tick E now ?s1 = (no_step, ?s1)"
    using promptD [OF now] s1(6-9) by (intro tick_idle) (simp_all add: window_def)
  from write_all_up [of N w "(new_conn (replay_config r))\<lparr>conn_session := ?s1\<rparr>"] env obtain k where
    k: "write_all N w ((new_conn (replay_config r))\<lparr>conn_session := ?s1\<rparr>) = Some (True, \<lparr>conn_session = ?s1, conn_wire = w, conn_sends = k\<rparr>)"
    by (auto simp: replay_env_def new_thread_def)
  let ?c = "\<lparr>conn_session = ?s1, conn_wire = w, conn_sends = k\<rparr>" and ?sv = "(new_server (replay_config r))\<lparr>msgs_out := 1\<rparr>"
  have rd: "read_phase E N (build kSohWire logon_message) now (new_conn (replay_config r)) (new_server (replay_config r)) =
      Some (Inr (True, [], ?c, ?sv))"
    using read idle k by (simp add: read_phase_def new_thread_def no_step_def new_server_def)
  then have it: "session_iter E N place (Data (build kSohWire logon_message) now) (new_conn (replay_config r)) (new_server (replay_config r)) =
      Some (Inr (True, ?c, ?sv))"
    by (simp add: session_iter_def)
  have "session_wf ?s1"
    using handle_logon_advances [of "read_one E ?s" E ?m 1] wf env s v m w(1)
    by (simp add: handle_logon_alt advances_def replay_env_def room_def open_session_def new_session_def)
  moreover have "n * (n + 1) \<le> (2 ^ 31 + 2000) * (2 ^ 31 + 2001)" using n by (intro mult_le_mono) simp_all
  ultimately have "trading E 2 n ?c ?sv"
    using s1 n new_server_ok [of "replay_config r"]
    by (simp add: trading_def server_ok_count) (simp add: new_server_def named_below_def heap_volume_def)
  then show ?thesis using it rd w(3) s1(5) by (intro exI [of _ w] exI [of _ ?c] exI [of _ ?sv]) simp
qed

section \<open>The whole run\<close>

definition replay_script :: "ReplayArgs \<Rightarrow> time_point \<Rightarrow> Recv list \<Rightarrow> (nat \<Rightarrow> Turn) \<Rightarrow> (nat \<Rightarrow> Turn) \<Rightarrow> (Input \<times> Recv list) list" where
  "replay_script r now echo W T = (Data (build kSohWire logon_message) now, echo) #
     (if smoke r then [] else block_script W 2 2000 0) @ block_script T (if smoke r then 2 else 2002) (unat (n_msgs r)) 0"

definition orders_sent :: "ReplayArgs \<Rightarrow> nat" where
  "orders_sent r = (if smoke r then 0 else 2000) + unat (n_msgs r)"

definition times :: "ReplayArgs \<Rightarrow> (nat \<Rightarrow> Turn) \<Rightarrow> u64 list" where
  "times r T = map (turn_ns \<circ> T) [0..<unat (n_msgs r)]"

text \<open>A wait that begins with reports in the buffer receives nothing.\<close>

lemma stale_wait:
  assumes "backlog cl ws" and "ws \<noteq> []" and "cl_in cl = []"
  shows "wait_for_exec_report ds (cl_buf cl) = Some (True, concat (tl ws), ds)"
proof -
  obtain w us where ws: "ws = w # us" using assms(2) by (cases ws) auto
  then have "pop_report (cl_buf cl) = Some (Report, concat us)"
    using assms(1,3) pop_report_found [of w "concat us"] by (simp add: backlog_def)
  then show ?thesis by (cases ds) (simp_all add: ws)
qed

lemma warmup_completes:
  assumes "replay_env E N place" and "net_up M" and "turns_ok E W" and "trading E 2 (orders_sent r) c sv"
    and "fed E N place ((if smoke r then [] else block_script W 2 2000 0) @ xs) c sv" and "backlog cl []"
  shows "\<exists>cl' h c' sv' ws. (if smoke r then Some (True, cl, new_histogram) else run_block M W 2 False 2000 0 cl new_histogram) = Some (True, cl', h) \<and>
    session_loop E N place (map fst ((if smoke r then [] else block_script W 2 2000 0) @ xs)) c sv = session_loop E N place (map fst xs) c' sv' \<and>
    trading E (if smoke r then 2 else 2002) (unat (n_msgs r)) c' sv' \<and> fed E N place xs c' sv' \<and> backlog cl' ws \<and>
    length ws + (if smoke r then 0 else 2000) + unat (out_seq (conn_session c)) = unat (out_seq (conn_session c'))"
proof (cases "smoke r")
  case True
  then show ?thesis using assms(4-)
    by (intro exI [of _ cl] exI [of _ new_histogram] exI [of _ c] exI [of _ sv] exI [of _ "[]"]) (simp add: orders_sent_def)
next
  case False
  then show ?thesis
    using block_completes [OF assms(1-3), of 2 0 2000 "unat (n_msgs r)" c sv xs cl "[]" False new_histogram] assms(4-)
    by (fastforce simp: orders_sent_def)
qed

lemma replay_completes:
  assumes env: "replay_env E N place" and net: "net_up M" and now: "prompt E now" and W: "turns_ok E W" and T: "turns_ok E T"
    and n: "unat (n_msgs r) \<le> 2 ^ 31" and rounds: "length echo \<le> sum_list rounds"
    and fed: "fed E N place (replay_script r now echo W T) (new_conn (replay_config r)) (new_server (replay_config r))"
  shows "\<exists>cl c sv ws. replay_main M r echo rounds W T new_client = Some (Measured (histogram_of (times r T)), cl) \<and>
    session_loop E N place (map fst (replay_script r now echo W T)) (new_conn (replay_config r)) (new_server (replay_config r)) =
      Some (Inr (c, sv)) \<and> server_ok sv \<and> backlog cl ws \<and> Suc (orders_sent r + length ws) = unat (out_seq (conn_session c))"
proof -
  let ?c0 = "new_conn (replay_config r)" and ?sv0 = "new_server (replay_config r)" and ?base = "if smoke r then 2 else 2002 :: u64"
  have "orders_sent r \<le> 2 ^ 31 + 2000" using n by (simp add: orders_sent_def)
  from logon_entered [OF env now this, of r] obtain w c sv where
    l: "session_iter E N place (Data (build kSohWire logon_message) now) ?c0 ?sv0 = Some (Inr (True, c, sv))"
      "conn_wire c = w" "framed kSohWire w" "out_seq (conn_session c) = 1" "trading E 2 (orders_sent r) c sv" by blast
  have f: "clean echo" "joined echo = w"
      "fed E N place ((if smoke r then [] else block_script W 2 2000 0) @ block_script T ?base (unat (n_msgs r)) 0) c sv"
    using fed l(1,2) by (simp_all add: replay_script_def new_thread_def)
  from send_all_up [OF net, of "build kSohWire logon_message" new_client] obtain k where
    k: "send_all M (build kSohWire logon_message) new_client =
      Some (True, new_client\<lparr>cl_sent := cl_sent new_client @ build kSohWire logon_message, cl_sends := k\<rparr>)" by blast
  let ?cl = "new_client\<lparr>cl_sent := build kSohWire logon_message, cl_sends := k, cl_in := [], cl_buf := []\<rparr>"
  have aw: "await_logon rounds echo [] = Some (True, [], [])"
    using f framed_nonempty [OF l(3)] rounds by (intro await_found [OF l(3)]) auto
  have b: "backlog ?cl []" by (simp add: backlog_def)
  from warmup_completes [OF env net W l(5) f(3) b] obtain cl1 h1 c1 sv1 ws1 where
    w1: "(if smoke r then Some (True, ?cl, new_histogram) else run_block M W 2 False 2000 0 ?cl new_histogram) = Some (True, cl1, h1)"
      "session_loop E N place (map fst ((if smoke r then [] else block_script W 2 2000 0) @ block_script T ?base (unat (n_msgs r)) 0)) c sv =
        session_loop E N place (map fst (block_script T ?base (unat (n_msgs r)) 0)) c1 sv1"
      "trading E ?base (unat (n_msgs r)) c1 sv1" "fed E N place (block_script T ?base (unat (n_msgs r)) 0) c1 sv1" "backlog cl1 ws1"
      "length ws1 + (if smoke r then 0 else 2000) + unat (out_seq (conn_session c)) = unat (out_seq (conn_session c1))" by blast
  from block_completes [OF env net T, of ?base 0 "unat (n_msgs r)" 0 c1 sv1 "[]" cl1 ws1 True new_histogram] w1(3-5)
  obtain cl2 c2 sv2 ws2 where
    r: "run_block M T ?base True (unat (n_msgs r)) 0 cl1 new_histogram = Some (True, cl2, histogram_of (times r T))"
      "session_loop E N place (map fst (block_script T ?base (unat (n_msgs r)) 0)) c1 sv1 = Some (Inr (c2, sv2))"
      "server_ok sv2" "backlog cl2 ws2"
      "length ws2 + unat (n_msgs r) + unat (out_seq (conn_session c1)) = length ws1 + unat (out_seq (conn_session c2))"
    by (auto simp: histogram_of_def times_def trading_def)
  have "replay_main M r echo rounds W T new_client = Some (Measured (histogram_of (times r T)), cl2)"
    using k aw w1(1) r(1) by (cases "smoke r") (auto simp: replay_main_def new_client_def)
  moreover have "session_loop E N place (map fst (replay_script r now echo W T)) ?c0 ?sv0 = Some (Inr (c2, sv2))"
    using l(1) w1(2) r(2) by (simp add: replay_script_def)
  moreover have "Suc (orders_sent r + length ws2) = unat (out_seq (conn_session c2))"
    using r(5) w1(6) l(4) by (simp add: orders_sent_def)
  ultimately show ?thesis using r by blast
qed

end
