(* ===== verification/Bench_Replay_Main.thy ===== *)
theory Bench_Replay_Main
  imports Bench_Replay_Run
begin

text \<open>
  \<^verbatim>\<open>bench/replay_bench.cpp\<close>: the process around the measured run. It starts the server in
  the same process, connects to it, and on every way out closes its connection and stops
  the server; after a complete run it prints the report. The results of the socket calls,
  the products of quantiles and counts, and the texts of the two floating-point numbers
  are inputs.
\<close>

section \<open>Connecting\<close>

record Dial =
  os_client :: int
  os_connect :: "16 word \<Rightarrow> bool"

text \<open>The descriptor, or -1, and the descriptors closed.\<close>

definition connect_loopback :: "Dial \<Rightarrow> 16 word \<Rightarrow> int \<times> int list" where
  "connect_loopback d port =
     (let fd = os_client d in
      if fd < 0 then (- 1, [])
      else if \<not> os_connect d port then (- 1, [fd])
      else (fd, []))"

section \<open>The report\<close>

record Scales =
  at_p50 :: "u64 \<Rightarrow> u64"
  at_p95 :: "u64 \<Rightarrow> u64"
  at_p99 :: "u64 \<Rightarrow> u64"
  at_p999 :: "u64 \<Rightarrow> u64"

definition avg_ns :: "LogHistogram \<Rightarrow> u64" where
  "avg_ns hist = (if hist_count hist \<noteq> 0 then hist_sum hist div hist_count hist else 0)"

abbreviation newline :: string where
  "newline \<equiv> [CHR 0x0A]"

definition replay_report :: "string \<Rightarrow> string \<Rightarrow> ReplayArgs \<Rightarrow> u64 \<Rightarrow> u64 \<Rightarrow> u64 \<Rightarrow> u64 \<Rightarrow> u64 \<Rightarrow> string" where
  "replay_report wall mps r avg p50 p95 p99 p999 =
     take 2047 (
       ''{'' @ newline @
       ''  \"n_messages\": '' @ show_u64 (n_msgs r) @ '','' @ newline @
       ''  \"algo\": \"'' @ (if replay_algo r = ProRata then ''prorata'' else ''fifo'') @ ''\",'' @ newline @
       ''  \"wall_seconds\": '' @ wall @ '','' @ newline @
       ''  \"msgs_per_sec\": '' @ mps @ '','' @ newline @
       ''  \"avg_ns\": '' @ show_u64 avg @ '','' @ newline @
       ''  \"p50_ns\": '' @ show_u64 p50 @ '','' @ newline @
       ''  \"p95_ns\": '' @ show_u64 p95 @ '','' @ newline @
       ''  \"p99_ns\": '' @ show_u64 p99 @ '','' @ newline @
       ''  \"p999_ns\": '' @ show_u64 p999 @ '','' @ newline @
       ''  \"smoke\": '' @ (if smoke r then ''true'' else ''false'') @ newline @
       ''}'' @ newline)"

definition summary :: "Scales \<Rightarrow> string \<Rightarrow> string \<Rightarrow> ReplayArgs \<Rightarrow> LogHistogram \<Rightarrow> string option" where
  "summary sc wall mps r hist = do {
     p50 \<leftarrow> quantile (at_p50 sc) hist;
     p95 \<leftarrow> quantile (at_p95 sc) hist;
     p99 \<leftarrow> quantile (at_p99 sc) hist;
     p999 \<leftarrow> quantile (at_p999 sc) hist;
     Some (replay_report wall mps r (avg_ns hist) p50 p95 p99 p999) }"

text \<open>Where the report goes: the file, when one is named, and the standard output (\<^const>\<open>None\<close>).\<close>

definition emit :: "ReplayArgs \<Rightarrow> string \<Rightarrow> (string option \<times> string) list" where
  "emit r s = (if out_path r = [] then [(None, s)] else [(Some (out_path r), s), (None, s)])"

section \<open>The process\<close>

text \<open>
  What becomes of the process: it waits for the answer to its logon for as long as it is
  observed, or it exits with a status and what it wrote. Leaving \<^verbatim>\<open>main\<close> destroys the
  server, which calls \<^verbatim>\<open>stop\<close> again.
\<close>

datatype Outcome = Waiting | Exited int "(string option \<times> string) list"

definition leave_main :: "int \<Rightarrow> (string option \<times> string) list \<Rightarrow> int list \<Rightarrow> Listener \<Rightarrow> Outcome \<times> Listener \<times> int list" where
  "leave_main status out closed l =
     (let (l, c1) = stop l; (l, c2) = stop l in (Exited status out, l, closed @ c1 @ c2))"

definition replay_process ::
  "Sockets \<Rightarrow> Dial \<Rightarrow> Scales \<Rightarrow> string \<Rightarrow> string \<Rightarrow> Net \<Rightarrow> ReplayArgs \<Rightarrow> Recv list \<Rightarrow> nat list \<Rightarrow> (nat \<Rightarrow> Turn) \<Rightarrow> (nat \<Rightarrow> Turn) \<Rightarrow>
     (Outcome \<times> Listener \<times> int list) option"
where
  "replay_process os d sc wall mps M r echo rounds W T =
     (case start os (replay_config r) new_listener of (started, l, c0) \<Rightarrow>
        if \<not> started then let (l, c1) = stop l in Some (Exited 1 [], l, c0 @ c1)
        else (case connect_loopback d (bound_port l) of (fd, c1) \<Rightarrow>
          if fd < 0 then Some (leave_main 1 [] (c0 @ c1) l)
          else do {
            (e, _) \<leftarrow> replay_main M r echo rounds W T new_client;
            (case e of
               AwaitingLogon \<Rightarrow> Some (Waiting, l, c0 @ c1)
             | WarmupFailed \<Rightarrow> Some (leave_main 1 [] (c0 @ c1 @ [fd]) l)
             | MeasureFailed \<Rightarrow> Some (leave_main 1 [] (c0 @ c1 @ [fd]) l)
             | Measured hist \<Rightarrow> do {
                 s \<leftarrow> summary sc wall mps r hist;
                 Some (leave_main 0 (emit r s) (c0 @ c1 @ [fd]) l) }) }))"

section \<open>Ways out\<close>

lemma emit_nonempty [simp]: "emit r s \<noteq> []"
  by (simp add: emit_def)

lemma leave_main_running:
  assumes "running l" and "listen_fd l \<ge> 0"
  shows "leave_main st out cs l = (Exited st out, l\<lparr>running := False, listen_fd := - 1\<rparr>, cs @ [listen_fd l])"
  using assms by (simp add: leave_main_def stop_def)

lemma started_listener:
  assumes "start os c new_listener = (True, l, cs)"
  shows "running l \<and> listen_fd l = os_socket os \<and> os_socket os \<ge> 0 \<and> bound_port l = os_port os \<and> cs = []"
  using assms by (auto simp: start_def Let_def split: if_splits)

lemma not_started:
  assumes "start os c new_listener = (False, l, cs)" and "os_socket os \<ge> 0"
  shows "stop l = (l, []) \<and> \<not> running l \<and> cs = [os_socket os]"
  using assms by (auto simp: start_def stop_def new_listener_def Let_def split: if_splits)

text \<open>
  Every exit closes the listening socket exactly once, and the client's socket exactly once
  if the server had started; there is output exactly when the status is 0.
\<close>

lemma process_closes:
  assumes "replay_process os d sc wall mps M r echo rounds W T = Some (Exited st out, l, cs)"
    and "os_socket os \<ge> 0" and "os_client d \<ge> 0"
  shows "\<not> running l \<and> (st = 0 \<longleftrightarrow> out \<noteq> []) \<and>
    cs = (if fst (start os (replay_config r) new_listener) then [os_client d, os_socket os] else [os_socket os])"
proof (cases "start os (replay_config r) new_listener")
  case (fields started l0 c0)
  show ?thesis
  proof (cases started)
    case True
    with fields started_listener [of os _ l0 c0] have l0: "running l0" "listen_fd l0 = os_socket os" "c0 = []" by auto
    note lm = leave_main_running [OF l0(1), unfolded l0(2), OF assms(2)]
    show ?thesis
    proof (cases "os_connect d (bound_port l0)")
      case False
      with assms fields True l0 lm show ?thesis by (auto simp: replay_process_def connect_loopback_def)
    next
      case conn: True
      show ?thesis using assms fields True l0 lm conn
        by (auto simp: replay_process_def connect_loopback_def split: bind_splits Exit.splits)
    qed
  next
    case False
    with fields not_started [of os _ l0 c0] assms(1,2) show ?thesis by (auto simp: replay_process_def)
  qed
qed

section \<open>A complete run\<close>

definition scales_ok :: "Scales \<Rightarrow> bool" where
  "scales_ok sc \<longleftrightarrow> (\<forall>n. at_p50 sc n \<le> n \<and> at_p95 sc n \<le> n \<and> at_p99 sc n \<le> n \<and> at_p999 sc n \<le> n)"

lemma replay_report_complete:
  assumes "length wall \<le> 300" and "length mps \<le> 300"
  shows "\<exists>s. replay_report wall mps r avg p50 p95 p99 p999 = ''{'' @ s @ ''}'' @ newline"
proof -
  have "length (show_u64 (n_msgs r)) \<le> 20" "length (show_u64 avg) \<le> 20" "length (show_u64 p50) \<le> 20"
    "length (show_u64 p95) \<le> 20" "length (show_u64 p99) \<le> 20" "length (show_u64 p999) \<le> 20" by (simp_all add: length_show_u64)
  with assms show ?thesis unfolding replay_report_def by simp
qed

lemma summary_complete:
  assumes "scales_ok sc" and "list_all (\<lambda>x. x < 2 ^ 63) xs" and "length xs < 2 ^ 64" and "length wall \<le> 300" and "length mps \<le> 300"
  shows "\<exists>s. summary sc wall mps r (histogram_of xs) = Some (''{'' @ s @ ''}'' @ newline)"
proof -
  have "\<exists>u. quantile scale (histogram_of xs) = Some u" if "\<forall>n. scale n \<le> n" for scale
    using that by (intro quantile_defined [OF assms(2,3)]) simp
  then obtain p50 p95 p99 p999 where
    "quantile (at_p50 sc) (histogram_of xs) = Some p50" "quantile (at_p95 sc) (histogram_of xs) = Some p95"
    "quantile (at_p99 sc) (histogram_of xs) = Some p99" "quantile (at_p999 sc) (histogram_of xs) = Some p999"
    using assms(1) unfolding scales_ok_def by meson
  then show ?thesis using replay_report_complete [OF assms(4,5)] by (simp add: summary_def)
qed

lemma process_reports:
  assumes "replay_main M r echo rounds W T new_client = Some (Measured (histogram_of (times r T)), cl)"
    and "os_socket os \<ge> 0" and "os_bind os ''127.0.0.1'' 0" and "os_listen os"
    and "os_client d \<ge> 0" and "os_connect d (os_port os)"
    and "scales_ok sc" and "\<And>i. turn_ns (T i) < 2 ^ 63" and "length wall \<le> 300" and "length mps \<le> 300"
  shows "\<exists>s l. replay_process os d sc wall mps M r echo rounds W T =
      Some (Exited 0 (emit r (''{'' @ s @ ''}'' @ newline)), l, [os_client d, os_socket os]) \<and> \<not> running l \<and>
    summary sc wall mps r (histogram_of (times r T)) = Some (''{'' @ s @ ''}'' @ newline)"
proof -
  have "list_all (\<lambda>x. x < 2 ^ 63) (times r T)" "length (times r T) < 2 ^ 64"
    using assms(8) unat_u64_lt [of "n_msgs r"] by (simp_all add: times_def list_all_iff)
  from summary_complete [OF assms(7) this assms(9,10), of r] obtain s where
    s: "summary sc wall mps r (histogram_of (times r T)) = Some (''{'' @ s @ ''}'' @ newline)" by blast
  let ?l = "new_listener\<lparr>listen_fd := os_socket os, bound_port := os_port os, running := True\<rparr>"
  have "start os (replay_config r) new_listener = (True, ?l, [])"
    using assms(2-4) by (simp add: start_def replay_config_def)
  moreover have "connect_loopback d (os_port os) = (os_client d, [])" using assms(5,6) by (simp add: connect_loopback_def)
  moreover have "leave_main 0 out cs ?l = (Exited 0 out, ?l\<lparr>running := False, listen_fd := - 1\<rparr>, cs @ [os_socket os])" for out cs
    using leave_main_running [of ?l 0 out cs] assms(2) by simp
  ultimately have "replay_process os d sc wall mps M r echo rounds W T =
      Some (Exited 0 (emit r (''{'' @ s @ ''}'' @ newline)), ?l\<lparr>running := False, listen_fd := - 1\<rparr>, [os_client d, os_socket os])"
    using assms(1,5) s by (simp add: replay_process_def)
  with s show ?thesis by auto
qed

end
