(* ===== verification/Server_Theorems.thy ===== *)
theory Server_Theorems
  imports Net_Concurrency Server_Main Bench_Cacheline Bench_Replay_Main FIX_Theorems OB_Examples
begin

text \<open>
  The properties of the server, its start-up, the histogram and the benchmarks.
\<close>

section \<open>Sample states\<close>

definition open_net :: Net where
  "open_net = \<lparr>net_send = \<lambda>_ s. int (length s)\<rparr>"

definition slow_net :: Net where
  "slow_net = \<lparr>net_send = \<lambda>_ s. min 3 (int (length s))\<rparr>"

definition next_place :: "heap \<Rightarrow> addr" where
  "next_place h = (if h 0 = None then 0 else 1)"

definition sample_server :: Server where
  "sample_server = \<lparr>sv_cfg = default_config\<lparr>srv_algo := Fifo\<rparr>, sv_heap = [0 \<mapsto> sell_10], sv_book = ask_book 10,
     next_order_id = 2, msgs_in = 0, msgs_out = 0\<rparr>"

definition wire_session :: Session where
  "wire_session = (new_session sample_cfg kSohWire)\<lparr>state := LoggedIn, timers_armed := True\<rparr>"

definition sample_conn :: Conn where
  "sample_conn = \<lparr>conn_session = wire_session, conn_wire = [], conn_sends = 0\<rparr>"

lemma net_up_open: "net_up open_net" "net_law open_net"
  by (auto simp: net_up_def net_law_def open_net_def)

lemma net_up_slow: "net_up slow_net" "net_law slow_net"
  by (auto simp: net_up_def net_law_def slow_net_def Suc_le_eq)

lemma sample_server_ok: "server_ok sample_server"
  using reachable_ask_book [of Fifo] by (auto simp: server_ok_def sample_server_def orders_ok_def sample_defs split: if_splits)

lemma wire_session_wf: "session_wf wire_session" "soh wire_session = kSohWire" "state wire_session = LoggedIn"
    "in_buf wire_session = []" "out_seq wire_session = 0" "in_seq wire_session = 0" "cfg wire_session = sample_cfg"
    "last_outbound wire_session = 0" "clock_reads wire_session = 0"
proof -
  have "config_ok kSohWire sample_cfg" by (simp add: config_ok_def sample_cfg_def text_ok_def)
  from new_session_wf [OF _ this] have "session_wf (new_session sample_cfg kSohWire)" by (simp add: plain_def)
  then show "session_wf wire_session" by (simp add: wire_session_def)
qed (simp_all add: wire_session_def new_session_def)

lemma wire_env_ok: "env_ok sample_env kSohWire"
  by (simp add: env_ok_def sample_env_def text_ok_def)

lemma sample_entered:
  assumes "body_ok kSohWire body" and "length (build kSohWire body) \<le> 2 ^ 58" and "map_of body tag_MsgType = Some mt"
    and "map_of body tag_MsgSeqNum = Some (show_u64 1)" and "net_up N"
  shows "entered sample_conn sample_env N 0 mt body"
  using assms wire_session_wf wire_env_ok
  by (simp add: entered_def sample_conn_def read_one_def window_def secs_def sample_cfg_def sample_env_def Let_def)

definition fresh_place :: "heap \<Rightarrow> addr" where
  "fresh_place h = Suc (Max (insert 0 (dom h)))"

lemma fresh_place_env: "replay_env sample_env slow_net fresh_place"
proof -
  have "h (fresh_place h) = None" if "finite (dom h)" for h
  proof (rule ccontr)
    assume "h (fresh_place h) \<noteq> None"
    then have "Suc (Max (insert 0 (dom h))) \<in> insert 0 (dom h)" by (auto simp: fresh_place_def)
    from Max_ge [OF _ this] that show False by simp
  qed
  then show ?thesis using wire_env_ok net_up_slow(1) by (simp add: replay_env_def)
qed

lemma sample_prompt: "prompt sample_env 0"
  by (simp add: prompt_def sample_env_def secs_def)

definition one_order :: ReplayArgs where
  "one_order = default_args\<lparr>n_msgs := 1, smoke := True\<rparr>"

section \<open>The running server\<close>

























text \<open>
  C13. Cancelling, end to end. The bytes of an in-sequence \<^verbatim>\<open>OrderCancelRequest\<close> are answered
  by exactly one execution report, the cancel acknowledgement when an order with that
  \<^verbatim>\<open>OrigClOrdID\<close> rests and a rejection otherwise, and afterwards no such order rests. Which
  connection asks plays no role, so any client can cancel the order of another.
\<close>

theorem cancel_entered:
  assumes "server_ok sv" and "entered c E N now msgtype_OrderCancelRequest body"
    and "map_of body tag_OrigClOrdID = Some orig" and "map_of body tag_ClOrdID = Some cl" and "room 1 (conn_session c)"
  shows "\<exists>w c' sv'. session_iter E N place (Data (build (soh (conn_session c)) body) now) c sv = Some (Inr (True, c', sv')) \<and>
    conn_wire c' = conn_wire c @ w \<and>
    report_of (soh (conn_session c)) (Suc (unat (out_seq (conn_session c)))) (cancel_reply (sv_book sv) orig cl) w \<and>
    find (sv_book sv') 0 \<lparr>clord_value = orig\<rparr> = None \<and> server_ok sv' \<and> session_wf (conn_session c')"
  by (rule cancel_entry [OF assms])

definition cancel_body :: "string \<Rightarrow> Fields" where
  "cancel_body orig = [(tag_MsgType, msgtype_OrderCancelRequest), (tag_MsgSeqNum, show_u64 1), (tag_ClOrdID, ''C1''),
     (tag_OrigClOrdID, orig)]"

lemma cancel_body_length: "length (build kSohWire (cancel_body ''S1'')) = 44"
  by code_simp

lemma cancel_body_ok: "body_ok kSohWire (cancel_body ''S1'')"
  unfolding body_ok_def cancel_body_length
  using plain_text(1) [of kSohWire 1] by (simp add: fields_ok_def field_ok_def cancel_body_def plain_def)

theorem cancel_entered_witness:
  "\<exists>w c' sv'. session_iter sample_env slow_net next_place (Data (build kSohWire (cancel_body ''S1'')) 0) sample_conn sample_server =
      Some (Inr (True, c', sv')) \<and> conn_wire c' = w \<and>
    peek kSohWire w tag_ExecType = Some ''4'' \<and> find (sv_book sv') 0 \<lparr>clord_value = ''S1''\<rparr> = None"
proof -
  have e: "entered sample_conn sample_env slow_net 0 msgtype_OrderCancelRequest (cancel_body ''S1'')"
    by (rule sample_entered [OF cancel_body_ok _ _ _ net_up_slow(1)]) (simp_all add: cancel_body_length, simp_all add: cancel_body_def)
  have "map_of (cancel_body ''S1'') tag_OrigClOrdID = Some ''S1''" "map_of (cancel_body ''S1'') tag_ClOrdID = Some ''C1''"
    by (simp_all add: cancel_body_def)
  from cancel_entered [OF sample_server_ok e this, of next_place] show ?thesis
    by (auto simp: sample_conn_def wire_session_wf room_def sample_server_def cancel_reply_def find_def sample_defs
        report_of_def report_body_def)
qed

text \<open>
  C29. The replay benchmark runs to its end. Client and server start from nothing; every
  byte the server writes reaches the client in the same turn, in whatever chunks, and the
  run takes less than a heartbeat interval. Then the logon is answered, every order gets its
  report, the histogram holds exactly the measured times, one per order, the server is
  sound, and the process exits with status 0, both sockets closed and the whole report
  written. The client takes one report per order, so the reports the server sent beyond one
  per order (its trades) pile up, and once one of them is in the buffer the next wait ends
  at once, with a report of an earlier order and whatever is received.
\<close>

theorem replay_measured:
  assumes "replay_env E N place" and "net_up M" and "prompt E now" and "turns_ok E W" and "turns_ok E T"
    and "unat (n_msgs r) \<le> 2 ^ 31" and "length echo \<le> sum_list rounds"
    and "fed E N place (replay_script r now echo W T) (new_conn (replay_config r)) (new_server (replay_config r))"
    and "os_socket os \<ge> 0" and "os_bind os ''127.0.0.1'' 0" and "os_listen os" and "os_client d \<ge> 0" and "os_connect d (os_port os)"
    and "scales_ok sc" and "\<And>i. turn_ns (T i) < 2 ^ 63" and "length wall \<le> 300" and "length mps \<le> 300"
  shows "\<exists>cl c sv ws s l. replay_main M r echo rounds W T new_client = Some (Measured (histogram_of (times r T)), cl) \<and>
    session_loop E N place (map fst (replay_script r now echo W T)) (new_conn (replay_config r)) (new_server (replay_config r)) =
      Some (Inr (c, sv)) \<and> server_ok sv \<and> backlog cl ws \<and> Suc (orders_sent r + length ws) = unat (out_seq (conn_session c)) \<and>
    (ws \<noteq> [] \<longrightarrow> cl_in cl = [] \<longrightarrow> (\<forall>ds. wait_for_exec_report ds (cl_buf cl) = Some (True, concat (tl ws), ds))) \<and>
    replay_process os d sc wall mps M r echo rounds W T =
      Some (Exited 0 (emit r (''{'' @ s @ ''}'' @ newline)), l, [os_client d, os_socket os]) \<and> \<not> running l \<and>
    summary sc wall mps r (histogram_of (times r T)) = Some (''{'' @ s @ ''}'' @ newline)"
proof -
  from replay_completes [OF assms(1-8)] obtain cl c sv ws where
    r: "replay_main M r echo rounds W T new_client = Some (Measured (histogram_of (times r T)), cl)"
      "session_loop E N place (map fst (replay_script r now echo W T)) (new_conn (replay_config r)) (new_server (replay_config r)) =
        Some (Inr (c, sv))" "server_ok sv" "backlog cl ws" "Suc (orders_sent r + length ws) = unat (out_seq (conn_session c))" by blast
  with process_reports [OF r(1) assms(9-17)] stale_wait [OF r(4)] show ?thesis by blast
qed

text \<open>A run with one order, in which everything the server writes arrives as one chunk.\<close>

definition wrote :: "Input \<Rightarrow> Conn \<Rightarrow> Server \<Rightarrow> Recv list" where
  "wrote i c sv =
     (case session_iter sample_env slow_net fresh_place i c sv of
        Some (Inr (_, c', _)) \<Rightarrow> if conn_wire c' = conn_wire c then [] else [Bytes (drop (length (conn_wire c)) (conn_wire c'))]
      | _ \<Rightarrow> [])"

definition sample_turn :: "Recv list \<Rightarrow> Turn" where
  "sample_turn ds = \<lparr>px_off = 0, turn_arrives = ds, turn_polls = 1, turn_ns = 5, turn_now = 0\<rparr>"

lemma wrote_fed:
  assumes "session_iter sample_env slow_net fresh_place i c sv = Some (Inr (True, c', sv'))" and "conn_wire c' = conn_wire c @ out"
  shows "clean (wrote i c sv) \<and> joined (wrote i c sv) = out \<and> length (wrote i c sv) \<le> 1"
  using assms by (simp add: wrote_def)

lemma one_order_fed:
  "\<exists>echo ds. length echo \<le> 1 \<and> fed sample_env slow_net fresh_place
     (replay_script one_order 0 echo (\<lambda>_. sample_turn ds) (\<lambda>_. sample_turn ds)) (new_conn (replay_config one_order)) (new_server (replay_config one_order))"
proof -
  let ?logon = "Data (build kSohWire logon_message) 0" and ?c0 = "new_conn (replay_config one_order)" and ?sv0 = "new_server (replay_config one_order)"
  let ?order = "Data (build kSohWire (order_message 2 (''o-'' @ show_u64 2) (CHR ''1'') 10000 100)) 0"
  from logon_entered [OF fresh_place_env sample_prompt, of 1 one_order] obtain c sv where
    l: "session_iter sample_env slow_net fresh_place ?logon ?c0 ?sv0 = Some (Inr (True, c, sv))" "trading sample_env 2 (Suc 0) c sv"
    by auto
  from trading_step [OF l(2) fresh_place_env sample_prompt, of 10000 "CHR ''1''"] obtain ws c1 sv1 where
    o: "session_iter sample_env slow_net fresh_place ?order c sv = Some (Inr (True, c1, sv1))" "conn_wire c1 = conn_wire c @ concat ws"
    by auto
  have "conn_wire c = conn_wire ?c0 @ conn_wire c" by (simp add: new_thread_def)
  note e = wrote_fed [OF l(1) this] and d = wrote_fed [OF o]
  have "block_order 2 0 (sample_turn ds) = order_message 2 (''o-'' @ show_u64 2) (CHR ''1'') 10000 100" for ds
    by (simp add: block_order_def sample_turn_def)
  then have "fed sample_env slow_net fresh_place (replay_script one_order 0 (wrote ?logon ?c0 ?sv0)
      (\<lambda>_. sample_turn (wrote ?order c sv)) (\<lambda>_. sample_turn (wrote ?order c sv))) ?c0 ?sv0"
    using e d l(1) o by (simp add: replay_script_def one_order_def block_script_def sample_turn_def new_thread_def)
  then show ?thesis using e by blast
qed

theorem replay_measured_witness:
  "replay_args [''--smoke'', ''--n'', ''1''] default_args = Inr one_order \<and>
   (\<exists>echo ds s l. replay_process \<lparr>os_socket = 3, os_bind = \<lambda>_ _. True, os_port = 40000, os_listen = True\<rparr>
        \<lparr>os_client = 4, os_connect = \<lambda>p. p = 40000\<rparr> \<lparr>at_p50 = id, at_p95 = id, at_p99 = id, at_p999 = id\<rparr> ''0.000012'' ''83333.33''
        slow_net one_order echo [1] (\<lambda>_. sample_turn ds) (\<lambda>_. sample_turn ds) =
      Some (Exited 0 [(None, ''{'' @ s @ ''}'' @ newline)], l, [4, 3]))"
proof -
  let ?os = "\<lparr>os_socket = 3, os_bind = \<lambda>_ _. True, os_port = 40000, os_listen = True\<rparr>" and ?d = "\<lparr>os_client = 4, os_connect = \<lambda>p. p = 40000\<rparr>"
  let ?sc = "\<lparr>at_p50 = id, at_p95 = id, at_p99 = id, at_p999 = id\<rparr> :: Scales"
  from one_order_fed obtain echo ds where
    f: "length echo \<le> 1" "fed sample_env slow_net fresh_place (replay_script one_order 0 echo (\<lambda>_. sample_turn ds) (\<lambda>_. sample_turn ds))
      (new_conn (replay_config one_order)) (new_server (replay_config one_order))" by blast
  have T: "turns_ok sample_env (\<lambda>_. sample_turn ds)" using sample_prompt by (simp add: turns_ok_def sample_turn_def)
  have n: "unat (n_msgs one_order) \<le> 2 ^ 31" "length echo \<le> sum_list [1]" using f(1) by (simp_all add: one_order_def)
  have os: "os_socket ?os \<ge> 0" "os_bind ?os ''127.0.0.1'' 0" "os_listen ?os" "os_client ?d \<ge> 0" "os_connect ?d (os_port ?os)"
    "scales_ok ?sc" "turn_ns (sample_turn ds) < 2 ^ 63" "length ''0.000012'' \<le> 300" "length ''83333.33'' \<le> 300"
    by (simp_all add: scales_ok_def sample_turn_def)
  have "replay_args [''--smoke'', ''--n'', ''1''] default_args = Inr one_order"
    using stoull_show_u64 [of 1] by (simp add: show_u64_1 one_order_def)
  moreover have "emit one_order s = [(None, s)]" for s by (simp add: emit_def one_order_def default_args_def)
  ultimately show ?thesis
    using replay_measured [OF fresh_place_env net_up_slow(1) sample_prompt T T n f(2) os] by (auto simp del: One_nat_def)
qed

text \<open>
  C30. Writing ends: on every network that never takes more bytes than it is given,
  \<^verbatim>\<open>write_all\<close> returns after finitely many partial sends, having written a prefix of the
  message, the whole of it when it reports success, and on a network that keeps taking
  bytes it does succeed.
\<close>

theorem write_all_complete:
  assumes "net_law N"
  shows "\<exists>b k n. write_all N s c = Some (b, c\<lparr>conn_wire := conn_wire c @ take n s, conn_sends := k\<rparr>) \<and>
    (b \<longrightarrow> n = length s) \<and> n \<le> length s \<and> (net_up N \<longrightarrow> b)"
  by (rule write_all_total [OF assms])

theorem write_all_complete_witness:
  "\<exists>k. write_all slow_net ''8=FIX'' sample_conn = Some (True, sample_conn\<lparr>conn_wire := ''8=FIX'', conn_sends := k\<rparr>)"
  using write_all_complete [OF net_up_slow(2), of "''8=FIX''" sample_conn] net_up_slow(1) by (auto simp: sample_conn_def)

section \<open>Starting and stopping\<close>




text \<open>
  C33. What the server is started with: of each option the last one given counts, the
  environment variable goes before the command line for the algorithm, any algorithm name
  other than \<^verbatim>\<open>fifo\<close> means pro-rata, and a port is taken modulo 2^16.
\<close>

theorem main_config_choice:
  assumes "list_all option_ok os"
  shows "\<exists>c. main_config (flatten os) env = Inr c \<and>
    srv_host c = last_option ''--host'' os ''127.0.0.1'' id \<and>
    srv_port c = last_option ''--port'' os 9876 (\<lambda>v. of_int (projr (stoi v))) \<and>
    srv_algo c = (case env of Some v \<Rightarrow> algo_of v | None \<Rightarrow> last_option ''--algo'' os ProRata algo_of) \<and>
    srv_sender_comp_id c = ''OBFIX'' \<and> srv_heartbeat_secs c = 30"
  by (rule main_config_options [OF assms])

theorem main_config_choice_witness:
  "\<exists>c. main_config [''--algo'', ''fifo'', ''--port'', ''70000''] (Some ''prorata'') = Inr c \<and> srv_port c = 4464 \<and> srv_algo c = ProRata"
proof -
  have i: "stoi ''70000'' = Inr 70000"
    by (simp add: stoi_def stoll_def digits_val_def is_space_def is_digit_def digit_val_def)
  have "list_all option_ok [(''--algo'', ''fifo''), (''--port'', ''70000'')]" by (simp add: option_ok_def i)
  moreover have "(70000 :: 16 word) = 4464" by simp
  ultimately show ?thesis using main_config_choice [of _ "Some ''prorata''"] by (fastforce simp add: flatten_def last_option_def algo_of_def i)
qed

section \<open>Measuring\<close>



text \<open>
  C34. The cache line study compares like with like. Both variants, packed and aligned,
  return from every round, fill every order they rested completely, and have exactly the
  measured times in their histograms, one per round. The four quantiles of the report exist
  and are those of the two lists of times, and the report is written whole.
\<close>

theorem bench_drains:
  assumes "study_args as default_study = Inr r" and "unat (resting r) \<le> 2 ^ 54" and "\<And>n. half n \<le> n" and "\<And>n. most n \<le> n"
    and "draws_ok dw" and "draws_ok db" and "draws_ok da" and "list_all (\<lambda>s. length s \<le> 150) [mb, ma, dm, dp]"
  shows "\<exists>hb ha b50 b99 a50 a99 s.
    run_variant baseline 0 (resting r) (run_rounds db (n_iters r) (resting r)) Map.empty new_histogram =
      Some (hb, histogram_of (map (dr_ns db) [0..<unat (n_iters r)])) \<and>
    run_variant aligned 0 (resting r) (run_rounds da (n_iters r) (resting r)) Map.empty new_histogram =
      Some (ha, histogram_of (map (dr_ns da) [0..<unat (n_iters r)])) \<and>
    (\<forall>j < unat (n_iters r) * unat (resting r).
       map_option bo_leaves_qty (hb (dr_addr db j)) = Some 0 \<and> map_option ao_leaves_qty (ha (dr_addr da j)) = Some 0) \<and>
    study_main half most r dw db da = Some (b50, b99, a50, a99) \<and>
    quantile half (histogram_of (map (dr_ns db) [0..<unat (n_iters r)])) = Some b50 \<and>
    quantile most (histogram_of (map (dr_ns db) [0..<unat (n_iters r)])) = Some b99 \<and>
    quantile half (histogram_of (map (dr_ns da) [0..<unat (n_iters r)])) = Some a50 \<and>
    quantile most (histogram_of (map (dr_ns da) [0..<unat (n_iters r)])) = Some a99 \<and>
    study_report mb ma dm dp r (b50, b99, a50, a99) = ''{'' @ s @ ''}'' @ line_end \<and>
    study_process half most mb ma dm dp as dw db da = Some (Inr (study_emit r (''{'' @ s @ ''}'' @ line_end)))"
proof -
  from study_measures [OF assms(2-7)] obtain b50 b99 a50 a99 where
    m: "study_main half most r dw db da = Some (b50, b99, a50, a99)"
      "quantile half (histogram_of (map (dr_ns db) [0..<unat (n_iters r)])) = Some b50"
      "quantile most (histogram_of (map (dr_ns db) [0..<unat (n_iters r)])) = Some b99"
      "quantile half (histogram_of (map (dr_ns da) [0..<unat (n_iters r)])) = Some a50"
      "quantile most (histogram_of (map (dr_ns da) [0..<unat (n_iters r)])) = Some a99" by blast
  have "\<exists>s. study_report mb ma dm dp r (b50, b99, a50, a99) = ''{'' @ s @ ''}'' @ line_end"
    by (rule study_report_complete) (use assms(8) in simp_all)
  then obtain s where s: "study_report mb ma dm dp r (b50, b99, a50, a99) = ''{'' @ s @ ''}'' @ line_end" by blast
  then have "study_process half most mb ma dm dp as dw db da = Some (Inr (study_emit r (''{'' @ s @ ''}'' @ line_end)))"
    using assms(1) m(1) by (simp add: study_process_def)
  with both_variants_drain [OF assms(2,6,7), of "n_iters r"] m s show ?thesis by blast
qed

theorem bench_drains_witness:
  "\<exists>s. study_process (\<lambda>n. n div 2) id ''1.00'' ''1.00'' ''0.00'' ''0.00'' [''--n'', ''2'', ''--resting'', ''3'', ''--out'', ''study.json'']
      \<lparr>dr_addr = id, dr_qty = \<lambda>_. 7, dr_ns = \<lambda>_. 90\<rparr> \<lparr>dr_addr = id, dr_qty = \<lambda>_. 7, dr_ns = \<lambda>_. 90\<rparr>
      \<lparr>dr_addr = id, dr_qty = \<lambda>j. 1 + of_nat (j mod 2), dr_ns = \<lambda>_. 100\<rparr> =
    Some (Inr [(Some ''study.json'', ''{'' @ s @ ''}'' @ line_end), (None, ''{'' @ s @ ''}'' @ line_end)])"
proof -
  let ?d = "\<lparr>dr_addr = id, dr_qty = \<lambda>_. 7, dr_ns = \<lambda>_. 90\<rparr>" and ?a = "\<lparr>dr_addr = id, dr_qty = \<lambda>j. 1 + of_nat (j mod 2), dr_ns = \<lambda>_. 100\<rparr>"
  let ?as = "[''--n'', ''2'', ''--resting'', ''3'', ''--out'', ''study.json'']"
  let ?r = "default_study\<lparr>n_iters := 2, resting := 3, study_out := ''study.json''\<rparr>"
  have "1 \<le> (1 :: u64) + of_nat (j mod 2) \<and> (1 :: u64) + of_nat (j mod 2) \<le> 1000" for j :: nat
    by (cases "even j") (simp_all add: even_iff_mod_2_eq_zero odd_iff_mod_2_eq_one)
  then have ok: "draws_ok ?d" "draws_ok ?a" by (simp_all add: draws_ok_def)
  have half: "n div 2 \<le> n" for n :: u64 by (simp add: word_le_nat_alt unat_div_distrib)
  have len: "list_all (\<lambda>s. length s \<le> 150) [''1.00'', ''1.00'', ''0.00'', ''0.00'']" by simp
  have "show_u64 2 = ''2''" "show_u64 3 = ''3''" by code_simp+
  then have as: "study_args ?as default_study = Inr ?r" using stoull_show_u64 [of 2] stoull_show_u64 [of 3] by simp
  have "unat (resting ?r) \<le> 2 ^ 54" by simp
  moreover have "study_emit ?r s = [(Some ''study.json'', s), (None, s)]" for s by (simp add: study_emit_def)
  ultimately show ?thesis using bench_drains [of ?as ?r "\<lambda>n. n div 2" id ?d ?d ?a, OF as _ half _ ok(1,1,2) len] by fastforce
qed

end
