(* ===== verification/Spec2Isabelle.thy ===== *)
theory Spec2Isabelle
  imports OB_Examples FIX_Theorems Server_Theorems
begin

text \<open>
  Verification of a limit order book with a FIX 4.4 gateway: a C++ matching engine
  (\<^verbatim>\<open>src/src/core\<close>), a FIX parser, serializer and session state machine
  (\<^verbatim>\<open>src/src/fix\<close>), the TCP server that joins them (\<^verbatim>\<open>src/src/net\<close>, \<^verbatim>\<open>src/src/main.cpp\<close>), a
  latency histogram (\<^verbatim>\<open>src/src/obs\<close>) and two benchmarks (\<^verbatim>\<open>src/bench\<close>).

  \<^bold>\<open>How the parts interact.\<close> A connection's thread reads bytes and gives them to its
  \<^verbatim>\<open>Session\<close>. The session frames and checks messages with the \<^verbatim>\<open>Parser\<close>, answers
  session-level messages itself (built by the \<^verbatim>\<open>Serializer\<close>, numbered, kept for resends)
  and hands orders and cancels to the server. Under one lock the server turns them into
  calls of \<^verbatim>\<open>Matcher::submit\<close> and \<^verbatim>\<open>OrderBook::cancel\<close>; every event these produce goes back to
  that client as an execution report.

  \<^bold>\<open>Conventions.\<close> Unsigned 64-bit integers are words, so sums and products wrap as in the
  code; 16-bit ports are words too. Objects behind pointers live in an explicit memory, a
  map from addresses to orders, which linking, unlinking and freeing change. A result
  \<^const>\<open>None\<close> is undefined behaviour (a null, dangling or out-of-bounds access, an undefined
  shift) or a loop that never ends; theorems of the form \<open>\<exists>r. f x = Some r\<close> say that neither
  happens. An exception is a left value of a sum. What comes from outside is an argument:
  the clocks and the iteration order of hash maps (\<open>Env\<close>), what socket calls return
  (\<open>Net\<close>, \<open>Input\<close>, \<open>Sockets\<close>, \<open>Dial\<close>, \<open>Recv\<close>), and where an allocation is placed (\<open>place\<close>).

  \<^bold>\<open>The matching engine.\<close>
  \<^item> \<open>OB_Prelude\<close>: machine types, \<^verbatim>\<open>std::map\<close> as a sorted association list with the locale
    \<open>map_compare\<close>, facts on words and the option monad.
  \<^item> \<open>OB_Types\<close>: \<^verbatim>\<open>types.h\<close>, \<^verbatim>\<open>order.h\<close>, \<^verbatim>\<open>events.h\<close>.
  \<^item> \<open>OB_Price_Level\<close>: \<^verbatim>\<open>price_level.h\<close>. \<open>level_rep\<close> relates a level and the memory to a queue;
    the locale \<open>order_queue\<close> is the contract of \<^verbatim>\<open>push_back\<close> and \<^verbatim>\<open>unlink\<close>.
  \<^item> \<open>OB_Order_Book\<close>: \<^verbatim>\<open>order_book.{h,cpp}\<close>: \<open>rest\<close>, \<open>cancel\<close>, \<open>find\<close>, \<open>unlink_order\<close>,
    \<open>erase_index\<close>, \<open>best_bid\<close>, \<open>best_ask\<close>. \<open>book_rep\<close> relates memory and book to an abstract
    book, two lists of (price, queue).
  \<^item> \<open>OB_Matcher\<close>: \<^verbatim>\<open>matcher.cpp\<close>: the FIFO and pro-rata fills, the walk over levels, the sweep
    and \<open>submit\<close>, and the abstract matching \<open>abs_match\<close>, \<open>abs_submit\<close>.
  \<^item> \<open>OB_Matcher_Refinement\<close>: \<open>submit\<close> computes \<open>abs_submit\<close>.
  \<^item> \<open>OB_Matching_Spec\<close>: what matching promises (conservation, price priority, an uncrossed
    book), proved once in the locale \<open>allocator\<close> and interpreted for both algorithms.
  \<^item> \<open>OB_Engine\<close>: reachable engine states, \<open>OB_Examples\<close>: concrete ones.

  \<^bold>\<open>The FIX layer.\<close>
  \<^item> \<open>FIX_Decimal\<close>, \<open>FIX_Messages\<close>: number conversions with their exceptions (locale
    \<open>codec\<close>), \<^verbatim>\<open>messages.h\<close>.
  \<^item> \<open>FIX_Parser\<close>, \<open>FIX_Serializer\<close>: \<^verbatim>\<open>parser.cpp\<close>, \<^verbatim>\<open>serializer.cpp\<close> and their round trip
    (locale \<open>framing\<close>).
  \<^item> \<open>FIX_Session\<close>: \<^verbatim>\<open>session.{h,cpp}\<close>, every member function.
  \<^item> \<open>FIX_Session_Spec\<close>, \<open>FIX_Resend\<close>, \<open>FIX_Session_Inv\<close>: the invariant \<open>session_wf\<close> (the
    history is the numbered window of the messages sent, all readable), what a resend
    request is answered with, and that all operations keep the invariant.
  \<^item> \<open>FIX_Stream\<close>: corruption, and that the cutting of the stream into reads does not matter.
  \<^item> \<open>FIX_Delivery\<close>, \<open>FIX_Apps\<close>: sequencing, gaps, timers, what reaches the application.
  \<^item> \<open>FIX_Theorems\<close>: the properties of this layer.

  \<^bold>\<open>The server and the benchmarks.\<close>
  \<^item> \<open>Net_Server\<close>: \<^verbatim>\<open>tcp_server.{h,cpp}\<close>: execution reports, routing, writing, and one round of
    a connection's loop.
  \<^item> \<open>Net_Server_Spec\<close>, \<open>Net_Wire_Spec\<close>: routing keeps the book sound (\<open>server_ok\<close>); from the
    bytes of an order to the bytes of its reports. The locale \<open>send_loop\<close> is the contract
    of the loops over \<^verbatim>\<open>::send\<close> in the server and in the replay client.
  \<^item> \<open>Net_System\<close>: \<^verbatim>\<open>start\<close>, \<^verbatim>\<open>stop\<close>, \<^verbatim>\<open>accept_loop\<close>, and the acceptor, the connections'
    threads and the thread in \<^verbatim>\<open>stop\<close> as an inductive interleaving: the acceptor's test and
    what it does after \<^verbatim>\<open>accept\<close>; a thread's test of the flag, its read with the replies,
    the part under the lock, one report at a time, its end; and \<^verbatim>\<open>stop\<close>'s clearing of the
    flag and its joins. \<open>Net_Concurrency\<close>: the engine is serialised, and \<^verbatim>\<open>stop\<close> returns.
  \<^item> \<open>Server_Main\<close>: \<^verbatim>\<open>main.cpp\<close>, configuration and run until a signal, \<^verbatim>\<open>logger.h\<close>. \<open>Obs_Histogram\<close>: \<^verbatim>\<open>histogram.h\<close>.
  \<^item> \<open>Bench_Cacheline\<close>: \<^verbatim>\<open>cacheline_study.cpp\<close>. The locale \<open>bench_variant\<close> is what the
    measuring template needs of its parameters, interpreted for both variants.
  \<^item> \<open>Bench_Replay\<close>, \<open>Bench_Replay_Run\<close>, \<open>Bench_Replay_Main\<close>: \<^verbatim>\<open>replay_bench.cpp\<close>, its whole
    run against the server, and the process around it with its ways out and its report.
  \<^item> \<open>Server_Theorems\<close>: the properties of these parts.

  \<^bold>\<open>What the properties show.\<close>
  \<^item> Engine: C1 to C7 and C20: \<open>submit\<close> and \<open>cancel\<close> refine the abstract book; reachable books
    are sound and uncrossed; quantity is conserved; price priority, FIFO time priority and
    the pro-rata shares; queues in arrival order.
  \<^item> Codec: C10, C21 to C23: round trip and prefixes, corruption, bounds, what is accepted.
  \<^item> Session: C11, C12, C17 to C19, C24 to C28: the invariant, resends, segmentation,
    totality, delivery, numbering, gaps and low numbers, malformed input, logon, silence.
  \<^item> Server: C8, C9, C13 to C16, C30, C32, C33: soundness, serialisation of the engine and
    definedness under every interleaving, that \<^verbatim>\<open>stop\<close> returns, an order and a cancel end to
    end, writing, start and stop, configuration.
  \<^item> C29, C31, C34: the replay run, the histogram, the cache line benchmark.
  \<^item> Defects: C35 to C40 prove what the code does where it departs from its documents or
    its intention (duplicate order ids, two overflows of pro-rata, gap fills, non-numeric
    numbers, the initiator's logon). C13, C22, C29, C31 and C33 contain further ones.

  \<^bold>\<open>Bounds.\<close> Pro-rata is proved while the resting quantity fits 64 bits (\<open>admits\<close>,
  \<open>fits_u64\<close>); C36 and C37 show what happens beyond. Sessions need room in their 64-bit
  outbound number (\<open>room\<close>). Buffers and texts are bounded by 2^58 and smaller powers of two, so
  that sums of lengths fit a \<^verbatim>\<open>size_t\<close>; no memory holds that much. \<open>tame\<close> excludes the
  declared body lengths for which the parser's sum wraps, which C22 shows to be the only
  way to read outside the buffer. Loops over linked lists and buffers are
  partial functions into options, the others are total, so no fuel is used: that
  they return is part of the theorems. The inputs of \<open>session_loop\<close> are the rounds of the
  server while it runs. C29 is for up to 2^31 measured orders (the default is 100000), C34
  for up to 2^54 orders per level (the default is 8). C16 is for messages the engine takes
  (\<open>able\<close>): one that throws ends the process instead.

  \<^bold>\<open>Not modelled.\<close> The system calls behind sockets and threads: their results are inputs,
  and the lock is the atomicity of a step. The
  successor state after an exception has left a thread, since the process ends there. The
  hash function of the order index and \<^verbatim>\<open>gmtime_r\<close> (an argument of \<open>utc_now\<close>). In the
  benchmarks: the random generators and the clocks, which are inputs, the floating-point
  means and rates, whose texts are parameters of the reports, and alignment, which has no
  counterpart in the memory model. \<^verbatim>\<open>bench/regress.py\<close>, which compares two floating-point
  numbers. The product of quantile and count in the histogram is floating point and a
  parameter.
\<close>

section \<open>The matching engine\<close>



text \<open>
  C2. Every state the engine reaches from an empty book by submissions and cancels is
  sound: memory and book represent a well-formed book in which no order has quantity 0 and
  no bid price reaches an ask price, the best bid it reports stays below the best ask, and
  the allocated orders are exactly those the book holds, so nothing leaks and nothing
  dangles.
\<close>

theorem reachable_sound:
  assumes "reachable algo (h, b)"
  shows "\<exists>A. book_rep h b A \<and> live A \<and> uncrossed A \<and> dom h = addrs A \<and>
    (\<forall>p q. best_bid b = Some p \<longrightarrow> best_ask b = Some q \<longrightarrow> p < q)"
  using reachable_rep [OF assms] reachable_uncrossed [OF assms] by (auto simp: engine_rep_def)

theorem reachable_sound_witness:
  "(\<exists>A. book_rep [0 \<mapsto> sell_10, 1 \<mapsto> buy_low] two_sided A \<and> live A \<and> uncrossed A \<and> {0, 1} = addrs A) \<and>
   best_bid two_sided = Some 99 \<and> best_ask two_sided = Some 100 \<and> (99::Price) < 100"
proof -
  have "best_bid two_sided = Some 99" "best_ask two_sided = Some 100"
    by (simp_all add: best_bid_def best_ask_def two_sided_def sample_defs new_book_def level_empty_def)
  moreover have "dom [0 \<mapsto> sell_10, 1 \<mapsto> buy_low] = {0, 1}" by auto
  ultimately show ?thesis using reachable_sound [OF reachable_two_sided] by metis
qed



text \<open>
  C4. Price priority, with no trade-through. Every trade of a submission is at a price the
  order's limit crosses, and afterwards no order rests on the other side at a better price
  than any traded one.
\<close>

theorem submit_price_priority:
  assumes "reachable algo (h, b)" and "h a = None" and "find b (session v) (clord_id v) = None"
    and "admits algo h v" and "submit algo (h(a \<mapsto> v)) b a [] = Some (h', b', evs)"
    and "TradeEv t \<in> set evs"
  shows "crosses (side v) (price v) (trade_price t) \<and>
    (\<forall>c w. h' c = Some w \<longrightarrow> own_side w = opposite (own_side v) \<longrightarrow>
       \<not> price_before (own_side w) (price w) (trade_price t))"
  using reachable_rep [OF assms(1)] submit_priority [OF _ assms(2-6)] by blast

theorem submit_price_priority_witness:
  "crosses Buy 101 100 \<and> \<not> price_before Asks (price (sell_10\<lparr>leaves_qty := 6\<rparr>)) 100"
proof -
  let ?t = "\<lparr>aggressor_id = 2, resting_id = 1, aggressor_clord = \<lparr>clord_value = ''B1''\<rparr>,
    resting_clord = \<lparr>clord_value = ''S1''\<rparr>, trade_price = 100, trade_qty = 4, aggressor_side = Buy\<rparr>"
  have "TradeEv ?t \<in> set [sample_ack buy_4, sample_trade]"
    by (simp add: sample_defs mk_trade_def)
  from submit_price_priority [OF reachable_ask_book _ _ _ sample_match this] show ?thesis
    by (simp add: find_def admits_def sample_defs new_book_def own_side_def Buy_def Sell_def)
qed





text \<open>
  C7. Cancel. In a reachable state \<^verbatim>\<open>OrderBook::cancel\<close> always returns and reaches a sound
  state again; it reports success exactly when the order is resting, and afterwards the
  order is gone from the index.
\<close>

theorem cancel_total:
  assumes "reachable algo (h, b)"
  shows "\<exists>h' b' res. cancel h b s c = Some ((h', b'), res) \<and> reachable algo (h', b') \<and>
    (ok res \<longleftrightarrow> find b s c \<noteq> None) \<and> find b' s c = None"
proof -
  obtain A where "engine_rep algo (h, b) A" using reachable_rep [OF assms] by blast
  from engine_cancel_total [OF this, of s c] obtain h' b' res where
    1: "cancel h b s c = Some ((h', b'), res)" "ok res \<longleftrightarrow> find b s c \<noteq> None" "find b' s c = None"
    by blast
  with reachable.step [OF assms cancel_step [OF 1(1)]] show ?thesis by blast
qed

theorem cancel_total_witness:
  "\<exists>h' b' res. cancel [0 \<mapsto> sell_10] (ask_book 10) 0 \<lparr>clord_value = ''S1''\<rparr> = Some ((h', b'), res) \<and>
     ok res \<and> find b' 0 \<lparr>clord_value = ''S1''\<rparr> = None"
  using cancel_total [OF reachable_ask_book [of Fifo], of 0 "\<lparr>clord_value = ''S1''\<rparr>"]
  by (auto simp: find_def sample_defs)

text \<open>
  C20. The intrusive list of a price level is a queue with removal from the middle:
  \<^verbatim>\<open>push_back\<close> appends, \<^verbatim>\<open>unlink\<close> takes out any one member and keeps the order of the
  others, both keep head, tail, count and total quantity right, and neither touches an
  order outside the level.
\<close>

theorem price_level_queue:
  assumes "level_rep h L (xs @ (a, u) # ys)" and "h c = Some v" and "c \<notin> fst ` set (xs @ (a, u) # ys)"
  shows "\<exists>h1 L1 h2 L2. push_back h L c = Some (h1, L1) \<and>
     level_rep h1 L1 (xs @ (a, u) # ys @ [(c, payload v)]) \<and>
     unlink h1 L1 a = Some (h2, L2) \<and> level_rep h2 L2 (xs @ ys @ [(c, payload v)]) \<and>
     total_qty L2 = (\<Sum>e\<leftarrow>xs @ ys @ [(c, payload v)]. leaves_qty (snd e)) \<and>
     (\<forall>d. d \<noteq> c \<longrightarrow> d \<notin> fst ` set (xs @ (a, u) # ys) \<longrightarrow> h2 d = h d)"
proof -
  from pl.rep_push [OF assms] obtain h1 L1 where 1: "push_back h L c = Some (h1, L1)"
    "level_rep h1 L1 (xs @ (a, u) # ys @ [(c, payload v)])"
    "\<forall>d. d \<noteq> c \<longrightarrow> d \<notin> fst ` set (xs @ (a, u) # ys) \<longrightarrow> h1 d = h d" by auto
  from pl.rep_unlink [OF 1(2)] obtain h2 L2 where 2: "unlink h1 L1 a = Some (h2, L2)"
    "level_rep h2 L2 (xs @ ys @ [(c, payload v)])"
    "\<forall>d. d \<notin> fst ` set (xs @ (a, u) # ys @ [(c, payload v)]) \<longrightarrow> h2 d = h1 d" by blast
  have "total_qty L2 = (\<Sum>e\<leftarrow>xs @ ys @ [(c, payload v)]. leaves_qty (snd e))"
    using 2(2) by (simp add: level_rep_def)
  with 1 2 show ?thesis by auto
qed

theorem price_level_queue_witness:
  "\<exists>h1 L1 h2 L2. push_back (pair_heap 10 5 7) (pair_level 10 5) 2 = Some (h1, L1) \<and>
     unlink h1 L1 0 = Some (h2, L2) \<and> total_qty L2 = 12"
proof -
  have q: "pair_queue 10 5 = [] @ (0, sample_order 1 Sell 100 10 ''S1'') # [(1, sample_order 2 Sell 100 5 ''S2'')]"
    by (simp add: pair_queue_def)
  from price_level_queue [OF pair_level_rep [of 10 5 7, unfolded q]
      pair_aggressor(1) [of 10 5 7] pair_aggressor(2) [of 10 5, unfolded q]]
  show ?thesis by (auto simp: sample_order_def payload_def)
qed

section \<open>Where the engine's arithmetic and index run out\<close>

text \<open>
  C35. A second resting order under the same (session, ClOrdID). \<^verbatim>\<open>OrderBook::rest\<close> links the
  order into its level before \<^verbatim>\<open>emplace\<close> finds the key taken and drops the new owner: the
  order is destroyed while the level's tail still points at it, and the index still names
  the old one.
\<close>

theorem rest_duplicate_dangles:
  assumes "book_rep h b A" and "h a = Some v" and "a \<notin> addrs A" and "index b (index_key v) = Some c"
  shows "\<exists>h' b' L. rest h b a = Some (h', b') \<and> h' a = None \<and>
     map_of (levels (own_side v) b') (price v) = Some L \<and> tail L = Some a \<and> index b' = index b"
  using assms by (rule rest_duplicate)

theorem rest_duplicate_dangles_witness:
  "\<exists>h' b' L. rest [0 \<mapsto> sell_10, 1 \<mapsto> sell_10] (ask_book 10) 1 = Some (h', b') \<and> h' 1 = None \<and>
     map_of (asks b') 100 = Some L \<and> tail L = Some 1"
proof -
  have "book_rep [0 \<mapsto> sell_10, 1 \<mapsto> sell_10] (ask_book 10) ask_abook"
    using engine_repD(1) [OF engine_ask_book] by (rule book_rep_frame) (simp add: ask_book_addrs)
  from rest_duplicate_dangles [OF this, of 1 sell_10 0] show ?thesis
    by (auto simp: ask_book_addrs sample_defs index_key_def own_side_def Buy_def Sell_def)
qed



end
